(* ===== verification/Synapse_Prelude.thy ===== *)
theory Synapse_Prelude
  imports Main "HOL-Library.Word" "HOL-Library.Signed_Division"
begin

text \<open>
  What the component theories share: the fatal outcomes a piece of C++ can end in, the result
  type that carries them, its bind, C's truncating division, and list facts on folding over
  indices.
\<close>

section \<open>Fatal outcomes as values\<close>

text \<open>
  The program never throws. What ends it is a failed \<open>assert\<close>, an integer division by zero, a
  NULL dereference, an access outside an array or a packet, or reaching the end of a function
  that has to return a value, or shifting by more than the width of a word. Each is a value, so that
  every path of the source is a branch.
\<close>

datatype fault =
    AssertFailed
  | DivByZero
  | NullDeref
  | OutOfBounds
  | MissingReturn
  | BadShift

type_synonym 'a res = "fault + 'a"

definition bnd :: "'a res \<Rightarrow> ('a \<Rightarrow> 'b res) \<Rightarrow> 'b res" where
  "bnd r f = (case r of Inl e \<Rightarrow> Inl e | Inr x \<Rightarrow> f x)"

lemma bnd_Inr [simp]: "bnd (Inr x) f = f x"
  by (simp add: bnd_def)

lemma bnd_Inl [simp]: "bnd (Inl e) f = Inl e"
  by (simp add: bnd_def)

lemma bnd_eq_Inr: "bnd r f = Inr y \<longleftrightarrow> (\<exists>x. r = Inr x \<and> f x = Inr y)"
  by (cases r) auto

lemma bnd_InrE [elim?]:
  assumes "bnd r f = Inr y"
  obtains x where "r = Inr x" and "f x = Inr y"
  using assms by (auto simp: bnd_eq_Inr)

lemma bnd_cong [fundef_cong]:
  "r = r' \<Longrightarrow> (\<And>x. r' = Inr x \<Longrightarrow> f x = g x) \<Longrightarrow> bnd r f = bnd r' g"
  by (cases r') auto

text \<open>A loop over a list whose body may end in a fault.\<close>

primrec iter_res :: "('s \<Rightarrow> 'a \<Rightarrow> 's res) \<Rightarrow> 's \<Rightarrow> 'a list \<Rightarrow> 's res" where
  "iter_res f s [] = Inr s"
| "iter_res f s (x # xs) = bnd (f s x) (\<lambda>s'. iter_res f s' xs)"

lemma bnd_assoc: "bnd (bnd r f) g = bnd r (\<lambda>x. bnd (f x) g)"
  by (cases r) auto

lemma iter_res_append: "iter_res f s (xs @ ys) = bnd (iter_res f s xs) (\<lambda>s'. iter_res f s' ys)"
  by (induction xs arbitrary: s) (simp_all add: bnd_assoc)

text \<open>Running a sequence of operations, collecting what each returns; a fault ends it.\<close>

primrec run_ops :: "('s \<Rightarrow> 'o \<Rightarrow> ('r \<times> 's) res) \<Rightarrow> 's \<Rightarrow> 'o list \<Rightarrow> ('r list \<times> 's) res" where
  "run_ops f s [] = Inr ([], s)"
| "run_ops f s (x # xs) =
     bnd (f s x) (\<lambda>(r, s'). bnd (run_ops f s' xs) (\<lambda>(rs, s''). Inr (r # rs, s'')))"

lemma run_ops_append:
  "run_ops f s (xs @ ys) =
     bnd (run_ops f s xs) (\<lambda>(r, s'). bnd (run_ops f s' ys) (\<lambda>(r', s''). Inr (r @ r', s'')))"
  by (induction xs arbitrary: s) (auto simp: bnd_def split: sum.splits prod.splits)

text \<open>
  Forward simulation: the concrete run fails the way the abstract one does, or both return the
  same output and related states.
\<close>

definition sim :: "('s \<Rightarrow> 'a \<Rightarrow> bool) \<Rightarrow> ('r \<times> 's) res \<Rightarrow> ('r \<times> 'a) res \<Rightarrow> bool" where
  "sim R r q \<longleftrightarrow> (case q of Inl e \<Rightarrow> r = Inl e | Inr (out, a) \<Rightarrow> \<exists>s. r = Inr (out, s) \<and> R s a)"

lemma sim_simps [simp]:
  "sim R r (Inl e) \<longleftrightarrow> r = Inl e"
  "sim R r (Inr (out, a)) \<longleftrightarrow> (\<exists>s. r = Inr (out, s) \<and> R s a)"
  by (simp_all add: sim_def)

lemma run_ops_sim:
  assumes step: "\<And>s a x. R s a \<Longrightarrow> P x \<Longrightarrow> sim R (f s x) (g a x)"
    and "R s a" and "list_all P xs"
  shows "sim R (run_ops f s xs) (run_ops g a xs)"
  using assms(2,3)
proof (induction xs arbitrary: s a)
  case (Cons x xs)
  show ?case
  proof (cases "g a x")
    case (Inl e)
    with step [of s a x] Cons.prems show ?thesis by simp
  next
    case (Inr r)
    obtain out a' where r: "r = (out, a')" by (cases r)
    with step [of s a x] Cons.prems Inr obtain s' where s': "f s x = Inr (out, s')" "R s' a'"
      by auto
    show ?thesis
      using Cons.IH [OF s'(2)] Cons.prems(2) Inr r s'(1)
      by (cases "run_ops g a' xs") auto
  qed
qed simp

text \<open>A loop over a list that replaces each element and threads a state.\<close>

primrec map_acc :: "('s \<Rightarrow> 'a \<Rightarrow> ('s \<times> 'b) res) \<Rightarrow> 's \<Rightarrow> 'a list \<Rightarrow> ('s \<times> 'b list) res" where
  "map_acc f s [] = Inr (s, [])"
| "map_acc f s (x # xs) = bnd (f s x) (\<lambda>(s', y). bnd (map_acc f s' xs) (\<lambda>(s'', ys). Inr (s'', y # ys)))"

text \<open>Reading an array element: outside the array there is no value.\<close>

definition arr_get :: "'a list \<Rightarrow> nat \<Rightarrow> 'a res" where
  "arr_get xs i = (if i < length xs then Inr (xs ! i) else Inl OutOfBounds)"

definition arr_set :: "'a list \<Rightarrow> nat \<Rightarrow> 'a \<Rightarrow> 'a list res" where
  "arr_set xs i v = (if i < length xs then Inr (xs[i := v]) else Inl OutOfBounds)"

lemma arr_get_in [simp]: "i < length xs \<Longrightarrow> arr_get xs i = Inr (xs ! i)"
  by (simp add: arr_get_def)

lemma arr_set_in [simp]: "i < length xs \<Longrightarrow> arr_set xs i v = Inr (xs[i := v])"
  by (simp add: arr_set_def)

section \<open>Lemma collections\<close>

named_theorems fixedpt_defs \<open>unfolding of the fixed-point operations to integers\<close>

section \<open>Words\<close>

lemma sint_word_of_int_id:
  assumes "- (2 ^ (LENGTH('a::len) - 1)) \<le> i" and "i < 2 ^ (LENGTH('a) - 1)"
  shows "sint (word_of_int i :: 'a word) = i"
  using assms by (simp add: signed_of_int signed_take_bit_int_eq_self)

lemma word_from_sint:
  assumes "sint (x :: 'a::len word) = i"
  shows "x = word_of_int i"
  unfolding assms [symmetric] by simp

section \<open>Naturals\<close>

lemma mult_div_split:
  fixes a x m :: nat
  assumes "0 < m"
  shows "a * x div m = a div m * x + (a mod m) * x div m"
proof -
  have "a * x = (a div m * m + a mod m) * x"
    by simp
  also have "\<dots> = (a mod m) * x + (a div m * x) * m"
    by (simp only: distrib_left distrib_right mult.commute mult.left_commute add.commute)
  finally show ?thesis
    using assms by simp
qed

section \<open>Integers\<close>

lemma div_within:
  fixes p m b :: int
  assumes "0 < m" and "- (b * m) \<le> p" and "p < b * m"
  shows "- b \<le> p div m" and "p div m < b"
proof -
  have "(- b * m) div m \<le> p div m"
    using assms by (intro zdiv_mono1) simp_all
  then show "- b \<le> p div m"
    using assms(1) nonzero_mult_div_cancel_right [of m "- b"] by linarith
  have "p div m * m \<le> p"
    using assms(1) div_mult_mod_eq [of p m] pos_mod_sign [of m p] by linarith
  with assms(3) have "p div m * m < b * m" by linarith
  then show "p div m < b"
    using assms(1) by simp
qed

lemma scaled_div_le:
  fixes k d s :: int
  assumes "0 \<le> k" and "d \<le> s" and "0 < s"
  shows "k * d div s \<le> k"
  using zdiv_mono1 [OF mult_left_mono [OF assms(2,1)] assms(3)] assms(3) by simp

section \<open>Lists\<close>

lemma take_Cons_length_le: "length xs < n \<Longrightarrow> take n (x # xs) = x # xs"
  by (cases n) auto

lemma take_Cons_full: "0 < n \<Longrightarrow> length xs = n \<Longrightarrow> take n (x # xs) = x # butlast xs"
  by (cases n) (auto simp: butlast_conv_take)

end
