(* ===== verification/Fixed_Point.thy ===== *)
theory Fixed_Point
  imports Synapse_Prelude
begin

text \<open>
  The fixed-point library \<open>include/click/fixedptc.h\<close> in the configuration the project builds
  (64 bits, 24 of them whole), and the C++ class \<open>FixedPt\<close> over it. A \<open>fixedpt\<close> is an
  \<open>int64_t\<close>, a \<open>fixedptd\<close> an \<open>__int128_t\<close>; both are words, signed addition and negation wrap
  as the compiled code does, and the right shift of a signed value is arithmetic. Products and
  shifted dividends are formed at 128 bits, exactly as in the source.
\<close>

unbundle bit_operations_syntax

type_synonym fixedpt = "64 word"
type_synonym fixedptd = "128 word"

section \<open>The macros of fixedptc.h\<close>

definition FIXEDPT_WBITS :: nat where
  "FIXEDPT_WBITS = 24"

definition FIXEDPT_FBITS :: nat where
  "FIXEDPT_FBITS = 64 - FIXEDPT_WBITS"

definition FIXEDPT_FMASK :: fixedpt where
  "FIXEDPT_FMASK = push_bit FIXEDPT_FBITS 1 - 1"

definition FIXEDPT_ONE :: fixedpt where
  "FIXEDPT_ONE = push_bit FIXEDPT_FBITS 1"

definition FIXEDPT_ONE_HALF :: fixedpt where
  "FIXEDPT_ONE_HALF = signed_drop_bit 1 FIXEDPT_ONE"

definition FIXEDPT_TWO :: fixedpt where
  "FIXEDPT_TWO = FIXEDPT_ONE + FIXEDPT_ONE"

definition fixedpt_fromint :: "int \<Rightarrow> fixedpt" where
  "fixedpt_fromint i = ucast (push_bit FIXEDPT_FBITS (word_of_int i :: fixedptd))"

definition fixedpt_toint :: "fixedpt \<Rightarrow> fixedpt" where
  "fixedpt_toint f = signed_drop_bit FIXEDPT_FBITS f"

definition fixedpt_add :: "fixedpt \<Rightarrow> fixedpt \<Rightarrow> fixedpt" where
  "fixedpt_add a b = a + b"

definition fixedpt_sub :: "fixedpt \<Rightarrow> fixedpt \<Rightarrow> fixedpt" where
  "fixedpt_sub a b = a - b"

definition fixedpt_fracpart :: "fixedpt \<Rightarrow> fixedpt" where
  "fixedpt_fracpart a = a AND FIXEDPT_FMASK"

definition fixedpt_abs :: "fixedpt \<Rightarrow> fixedpt" where
  "fixedpt_abs a = (if a <s 0 then - a else a)"

text \<open>
  \<open>fixedpt_rconst\<close> is evaluated by the compiler in double precision. The constants below are
  the integers it yields: each product with \<open>2 ^ 40\<close> is exact, the rounding to the nearest
  integer is the macro's.
\<close>

definition FIXEDPT_PI :: fixedpt where
  "FIXEDPT_PI = 3454217652358"

definition FIXEDPT_HALF_PI :: fixedpt where
  "FIXEDPT_HALF_PI = 1727108826179"

section \<open>Multiplication and division\<close>

definition fixedpt_mul :: "fixedpt \<Rightarrow> fixedpt \<Rightarrow> fixedpt" where
  "fixedpt_mul a b = ucast (signed_drop_bit FIXEDPT_FBITS ((scast a :: fixedptd) * scast b))"

text \<open>Division of signed 128-bit values truncates towards zero and traps on zero.\<close>

definition fixedptd_div :: "fixedptd \<Rightarrow> fixedptd \<Rightarrow> fixedptd res" where
  "fixedptd_div a b = (if b = 0 then Inl DivByZero else Inr (word_of_int (sint a sdiv sint b)))"

definition fixedpt_div :: "fixedpt \<Rightarrow> fixedpt \<Rightarrow> fixedpt res" where
  "fixedpt_div a b =
     bnd (fixedptd_div (push_bit FIXEDPT_FBITS (scast a)) (scast b)) (\<lambda>q. Inr (ucast q))"

lemma fbits [simp]: "FIXEDPT_FBITS = 40"
  by (simp add: FIXEDPT_FBITS_def FIXEDPT_WBITS_def)

lemma FIXEDPT_ONE_eq [simp]: "FIXEDPT_ONE = 1099511627776"
  by (simp add: FIXEDPT_ONE_def push_bit_eq_mult)

lemma FIXEDPT_TWO_eq [simp]: "FIXEDPT_TWO = 2199023255552"
  by (simp add: FIXEDPT_TWO_def)

lemma sint64_bounds:
  fixes a :: fixedpt
  shows "- (2 ^ 63) \<le> sint a" and "sint a < 2 ^ 63"
  using sint_ge [of a] sint_lt [of a] by simp_all

lemma sint_scast128 [simp]: "sint (scast (a :: fixedpt) :: fixedptd) = sint a"
  using sint64_bounds [of a]
  by (simp add: signed_scast_eq signed_take_bit_int_eq_self)

lemma ucast_word_of_int128: "ucast (word_of_int i :: fixedptd) = (word_of_int i :: fixedpt)"
  by (rule bit_word_eqI) (simp add: bit_simps)

lemma prod128_bound:
  fixes a b :: fixedpt
  shows "- (2 ^ 127) \<le> sint a * sint b" and "sint a * sint b < 2 ^ 127"
proof -
  have "\<bar>sint a\<bar> \<le> 2 ^ 63" and "\<bar>sint b\<bar> \<le> 2 ^ 63"
    using sint64_bounds [of a] sint64_bounds [of b] by linarith+
  then have "\<bar>sint a\<bar> * \<bar>sint b\<bar> \<le> 2 ^ 63 * 2 ^ 63"
    by (intro mult_mono) auto
  then have "\<bar>sint a * sint b\<bar> \<le> 2 ^ 126"
    by (simp add: abs_mult)
  then show "- (2 ^ 127) \<le> sint a * sint b" and "sint a * sint b < 2 ^ 127"
    by (simp_all add: abs_le_iff)
qed

text \<open>The 128-bit product never overflows, so the result is the low word of the exact quotient.\<close>

lemma fixedpt_mul_int [fixedpt_defs]:
  "fixedpt_mul a b = word_of_int (sint a * sint b div 2 ^ 40)"
proof -
  let ?p = "(scast a :: fixedptd) * scast b"
  have "sint ?p = sint a * sint b"
    using prod128_bound [of a b]
    by (simp add: sint_word_mult signed_take_bit_int_eq_self)
  then have "sint (signed_drop_bit 40 ?p) = sint a * sint b div 2 ^ 40"
    by (simp add: sint_signed_drop_bit_eq drop_bit_eq_div)
  moreover have "signed_drop_bit 40 ?p = word_of_int (sint (signed_drop_bit 40 ?p))"
    by simp
  ultimately have "signed_drop_bit 40 ?p = word_of_int (sint a * sint b div 2 ^ 40)"
    by simp
  then show ?thesis
    by (simp add: fixedpt_mul_def ucast_word_of_int128)
qed

lemma sint_push40: "sint (push_bit 40 (scast (a :: fixedpt) :: fixedptd)) = sint a * 2 ^ 40"
proof -
  have "- (2 ^ 127) \<le> sint a * 2 ^ 40" and "sint a * 2 ^ 40 < 2 ^ 127"
    using sint64_bounds [of a] by simp_all
  then have "signed_take_bit 127 (sint a * 2 ^ 40) = sint a * 2 ^ 40"
    by (intro signed_take_bit_int_eq_self) simp_all
  moreover have "sint (push_bit 40 (scast a :: fixedptd)) = signed_take_bit 127 (push_bit 40 (sint a))"
    using signed_push_bit_eq [of 40 "scast a :: fixedptd", where 'a = int] by simp
  ultimately show ?thesis
    by (simp add: push_bit_eq_mult)
qed

lemma fixedpt_div_zero [simp]: "fixedpt_div a 0 = Inl DivByZero"
  by (simp add: fixedpt_div_def fixedptd_div_def)

lemma scast128_eq_0_iff: "(scast (b :: fixedpt) :: fixedptd) = 0 \<longleftrightarrow> b = 0"
  by (metis sint_scast128 signed_0 signed_eq_0_iff)

lemma fixedpt_div_int [fixedpt_defs]:
  "b \<noteq> 0 \<Longrightarrow> fixedpt_div a b = Inr (word_of_int ((sint a * 2 ^ 40) sdiv sint b))"
  by (simp add: fixedpt_div_def fixedptd_div_def scast128_eq_0_iff sint_push40
      ucast_word_of_int128)

section \<open>Decimal printing\<close>

definition digit_char :: "nat \<Rightarrow> char" where
  "digit_char n = char_of (48 + n mod 10)"

text \<open>The do-while loop that fills \<open>tmp[12]\<close> with the whole part, lowest digit first.\<close>

function tmp_digits :: "nat \<Rightarrow> nat \<Rightarrow> string res" where
  "tmp_digits ndec ip =
     (if 12 \<le> ndec then Inl OutOfBounds
      else if ip div 10 = 0 then Inr [digit_char ip]
      else bnd (tmp_digits (Suc ndec) (ip div 10)) (\<lambda>t. Inr (digit_char ip # t)))"
  by pat_completeness auto
termination
  by (relation "measure (\<lambda>(ndec, ip). 12 - ndec)") auto

declare tmp_digits.simps [simp del]

text \<open>The do-while loop of the fraction: \<open>fr\<close> holds the fraction scaled by \<open>2 ^ 64\<close>.\<close>

function frac_digits :: "nat \<Rightarrow> nat \<Rightarrow> nat \<Rightarrow> string" where
  "frac_digits max_dec fr ndec =
     (let fr' = (fr mod 2 ^ 64) * 10;
          c = digit_char (fr' div 2 ^ 64)
      in if fr' \<noteq> 0 \<and> Suc ndec < max_dec then c # frac_digits max_dec fr' (Suc ndec) else [c])"
  by pat_completeness auto
termination
  by (relation "measure (\<lambda>(m, fr, ndec). m - ndec)") auto

declare frac_digits.simps [simp del]

text \<open>The characters written before the terminating zero: sign and whole part, then fraction.\<close>

definition fixedpt_str_parts :: "fixedpt \<Rightarrow> int \<Rightarrow> (string \<times> string) res" where
  "fixedpt_str_parts a max_dec =
     (let md = (if max_dec = - 1 then 10 else if max_dec = - 2 then 15 else max_dec);
          sgn = (if a <s 0 then ''-'' else '''');
          a' = (if a <s 0 then a * (- 1) else a);
          ip = unat (scast (fixedpt_toint a') :: 128 word);
          fr = unat (push_bit FIXEDPT_WBITS (fixedpt_fracpart a'))
      in bnd (tmp_digits 0 ip) (\<lambda>tmp. Inr (sgn @ rev tmp @ ''.'', frac_digits (nat md) fr 0)))"

definition cuts_zero :: "string \<Rightarrow> bool" where
  "cuts_zero f \<longleftrightarrow> 1 < length f \<and> last f = CHR ''0''"

definition fixedpt_str :: "fixedpt \<Rightarrow> int \<Rightarrow> string res" where
  "fixedpt_str a max_dec =
     bnd (fixedpt_str_parts a max_dec) (\<lambda>(w, f). Inr (w @ (if cuts_zero f then butlast f else f)))"

text \<open>\<open>fixedpt_cstr\<close> prints into a static array of 25 bytes, the terminating zero included.\<close>

definition fixedpt_cstr :: "fixedpt \<Rightarrow> int \<Rightarrow> string res" where
  "fixedpt_cstr a max_dec =
     bnd (fixedpt_str_parts a max_dec) (\<lambda>(w, f).
       let written = length w + length f + (if cuts_zero f then 0 else 1)
       in if 25 < written then Inl OutOfBounds else fixedpt_str a max_dec)"

section \<open>Square root, trigonometry, exponential and logarithm\<close>

text \<open>\<open>while (s > 0) { s >>= 2; iter++; }\<close> over a 32-bit \<open>int\<close>.\<close>

function sqrt_iters :: "int \<Rightarrow> nat" where
  "sqrt_iters s = (if 0 < s then Suc (sqrt_iters (s div 4)) else 0)"
  by pat_completeness auto
termination
  by (relation "measure nat") auto

declare sqrt_iters.simps [simp del]

primrec newton :: "nat \<Rightarrow> fixedpt \<Rightarrow> 32 word \<Rightarrow> 32 word res" where
  "newton 0 a l = Inr l"
| "newton (Suc n) a l =
     bnd (fixedpt_div a (scast l)) (\<lambda>q. newton n a (ucast (signed_drop_bit 1 (scast l + q))))"

text \<open>The locals \<open>s\<close> and \<open>l\<close> are plain \<open>int\<close>: 32 bits, in a 64-bit library.\<close>

definition fixedpt_sqrt :: "fixedpt \<Rightarrow> fixedpt res" where
  "fixedpt_sqrt a =
     (if a <s 0 then Inr (- 1)
      else if a = 0 \<or> a = FIXEDPT_ONE then Inr a
      else let invert = a <s FIXEDPT_ONE \<and> 6 <s a
        in bnd (if invert then fixedpt_div FIXEDPT_ONE a else Inr a) (\<lambda>a'.
             let iter = (if FIXEDPT_ONE <s a' then sqrt_iters (sint (ucast a' :: 32 word))
                         else FIXEDPT_FBITS)
             in bnd (newton iter a' (ucast (signed_drop_bit 1 a' + 1))) (\<lambda>l.
                  if invert then fixedpt_div FIXEDPT_ONE (scast l) else Inr (scast l))))"

definition fixedpt_sin :: "fixedpt \<Rightarrow> fixedpt" where
  "fixedpt_sin fp0 =
     (let fp1 = word_of_int (sint fp0 smod sint (2 * FIXEDPT_PI));
          fp2 = (if fp1 <s 0 then FIXEDPT_PI * 2 + fp1 else fp1);
          (fp, sign) =
            (if FIXEDPT_HALF_PI <s fp2 \<and> fp2 <=s FIXEDPT_PI then (FIXEDPT_PI - fp2, 1)
             else if FIXEDPT_PI <s fp2 \<and> fp2 <=s FIXEDPT_PI + FIXEDPT_HALF_PI
             then (fp2 - FIXEDPT_PI, - 1)
             else if FIXEDPT_PI + FIXEDPT_HALF_PI <s fp2 then (push_bit 1 FIXEDPT_PI - fp2, - 1)
             else (fp2, 1));
          sqr = fixedpt_mul fp fp;
          r1 = fixedpt_mul 8367283487 sqr - 182573905792;
          r2 = fixedpt_mul r1 sqr + FIXEDPT_ONE
      in sign * fixedpt_mul r2 fp)"

definition fixedpt_cos :: "fixedpt \<Rightarrow> fixedpt" where
  "fixedpt_cos a = fixedpt_sin (FIXEDPT_HALF_PI - a)"

definition fixedpt_tan :: "fixedpt \<Rightarrow> fixedpt res" where
  "fixedpt_tan a = fixedpt_div (fixedpt_sin a) (fixedpt_cos a)"

definition LN2 :: fixedpt where
  "LN2 = 762123384786"

definition shift_count_ok :: "fixedpt \<Rightarrow> bool" where
  "shift_count_ok n \<longleftrightarrow> 0 <=s n \<and> n <s 64"

definition fixedpt_exp :: "fixedpt \<Rightarrow> fixedpt res" where
  "fixedpt_exp fp0 =
     (if fp0 = 0 then Inr FIXEDPT_ONE
      else let xabs = fixedpt_abs fp0;
               k0 = (fixedpt_mul xabs 1586259972792 + FIXEDPT_ONE_HALF) AND NOT FIXEDPT_FMASK;
               k = (if fp0 <s 0 then - k0 else k0);
               fp = fp0 - fixedpt_mul k LN2;
               z = fixedpt_mul fp fp;
               R = FIXEDPT_TWO +
                   fixedpt_mul z (183251937963 + fixedpt_mul z (- 3054198966 +
                   fixedpt_mul z (72719020 + fixedpt_mul z (- 1817922 +
                   fixedpt_mul z 45499))))
        in bnd (fixedpt_div (fixedpt_mul fp FIXEDPT_TWO) (R - fp)) (\<lambda>q.
             let xp = FIXEDPT_ONE + q;
                 n = (if k <s 0 then fixedpt_toint (- k) else fixedpt_toint k)
             in if \<not> shift_count_ok n then Inl BadShift
                else let k' = (if k <s 0 then signed_drop_bit (unat n) FIXEDPT_ONE
                               else push_bit (unat n) FIXEDPT_ONE)
                     in Inr (fixedpt_mul k' xp)))"

lemma sint_shr1: "sint (signed_drop_bit 1 (x :: fixedpt)) = sint x div 2"
  by (simp add: sint_signed_drop_bit_eq drop_bit_eq_div)

text \<open>\<open>while (xi > FIXEDPT_TWO) { xi >>= 1; log2++; }\<close>\<close>

function ln_reduce :: "fixedpt \<Rightarrow> fixedpt \<Rightarrow> fixedpt \<times> fixedpt" where
  "ln_reduce xi log2 =
     (if FIXEDPT_TWO <s xi then ln_reduce (signed_drop_bit 1 xi) (log2 + 1) else (xi, log2))"
  by pat_completeness auto
termination
proof (relation "measure (\<lambda>(xi, _). nat (sint xi))")
  fix xi log2 :: fixedpt
  assume "FIXEDPT_TWO <s xi"
  then have "2199023255552 < sint xi"
    by (simp add: word_sless_alt)
  then show "((signed_drop_bit 1 xi, log2 + 1), (xi, log2)) \<in> measure (\<lambda>(xi, _). nat (sint xi))"
    by (simp add: sint_shr1 [unfolded One_nat_def])
qed simp

declare ln_reduce.simps [simp del]

definition fixedpt_ln :: "fixedpt \<Rightarrow> fixedpt res" where
  "fixedpt_ln x =
     (if x <s 0 then Inr 0
      else if x = 0 then Inr 0xffffffff
      else let (xi, log2) = ln_reduce x 0;
               f = xi - FIXEDPT_ONE
        in bnd (fixedpt_div f (FIXEDPT_TWO + f)) (\<lambda>s.
             let z = fixedpt_mul s s;
                 w = fixedpt_mul z z;
                 R = fixedpt_mul w (439804651104 + fixedpt_mul w (244335655709 +
                     fixedpt_mul w 168377426162)) +
                     fixedpt_mul z (733007751851 + fixedpt_mul w (314146181258 +
                     fixedpt_mul w (199930490262 + fixedpt_mul w 162707914365)))
             in Inr (fixedpt_mul LN2 (push_bit FIXEDPT_FBITS log2) + f - fixedpt_mul s (f - R))))"

definition fixedpt_log :: "fixedpt \<Rightarrow> fixedpt \<Rightarrow> fixedpt res" where
  "fixedpt_log x base = bnd (fixedpt_ln x) (\<lambda>a. bnd (fixedpt_ln base) (\<lambda>b. fixedpt_div a b))"

definition fixedpt_pow :: "fixedpt \<Rightarrow> fixedpt \<Rightarrow> fixedpt res" where
  "fixedpt_pow n ex =
     (if ex = 0 then Inr FIXEDPT_ONE
      else if n <s 0 then Inr 0
      else bnd (fixedpt_ln n) (\<lambda>l. fixedpt_exp (fixedpt_mul l ex)))"

section \<open>Arithmetic of the library\<close>

lemma fixedpt_fromint_int [fixedpt_defs]: "fixedpt_fromint i = word_of_int (i * 2 ^ 40)"
proof -
  have "push_bit 40 (word_of_int i :: fixedptd) = word_of_int (i * 2 ^ 40)"
    by (simp add: push_bit_eq_mult)
  then show ?thesis
    by (simp add: fixedpt_fromint_def ucast_word_of_int128 del: of_int_mult of_int_power)
qed

lemma fixedpt_fromint_0 [simp]: "fixedpt_fromint 0 = 0"
  by (simp add: fixedpt_fromint_int)

lemma sint_fromint:
  "- (2 ^ 23) \<le> i \<Longrightarrow> i < 2 ^ 23 \<Longrightarrow> sint (fixedpt_fromint i) = i * 2 ^ 40"
  unfolding fixedpt_fromint_int by (rule sint_word_of_int_id) simp_all

lemma fixedpt_mul_fromint:
  assumes "- (2 ^ 23) \<le> n" and "n < 2 ^ 23"
  shows "fixedpt_mul (fixedpt_fromint n) x = word_of_int n * x"
proof -
  have "sint (fixedpt_fromint n) * sint x div 2 ^ 40 = n * sint x"
    by (simp add: sint_fromint [OF assms] mult.assoc mult.left_commute [of _ "1099511627776"])
  then show ?thesis
    by (simp add: fixedpt_mul_int)
qed

lemma fixedpt_mul_commute: "fixedpt_mul a b = fixedpt_mul b a"
  by (simp add: fixedpt_mul_int mult.commute)

lemma fixedpt_mul_zero [simp]: "fixedpt_mul 0 b = 0" "fixedpt_mul a 0 = 0"
  by (simp_all add: fixedpt_mul_int)

lemma fixedpt_div_zero_num: "b \<noteq> 0 \<Longrightarrow> fixedpt_div 0 b = Inr 0"
  by (simp add: fixedpt_div_int)

section \<open>Decimal printing is exact up to truncation\<close>

definition dec_value :: "string \<Rightarrow> nat" where
  "dec_value s = foldl (\<lambda>v c. 10 * v + (of_char c - 48)) 0 s"

lemma digit_char_value: "of_char (digit_char n) - 48 = (n mod 10 :: nat)"
proof -
  have "(48 + n mod 10) mod 256 = 48 + n mod 10"
    by simp
  then show ?thesis
    by (simp add: digit_char_def)
qed

lemma dec_value_snoc: "dec_value (s @ [c]) = 10 * dec_value s + (of_char c - 48)"
  by (simp add: dec_value_def)

lemma foldl_dec_shift:
  "foldl (\<lambda>v c. 10 * v + (of_char c - 48)) a s = a * 10 ^ length s + dec_value s"
  by (induction s rule: rev_induct) (auto simp: dec_value_def algebra_simps)

lemma dec_value_Cons: "dec_value (c # s) = (of_char c - 48) * 10 ^ length s + dec_value s"
  using foldl_dec_shift [of "of_char c - 48" s] by (simp add: dec_value_def)

lemma tmp_digits_value:
  "ndec < 12 \<Longrightarrow> ip < 10 ^ (12 - ndec) \<Longrightarrow> ip < 10 ^ Suc k \<Longrightarrow>
   \<exists>t. tmp_digits ndec ip = Inr t \<and> dec_value (rev t) = ip \<and> length t \<le> Suc k \<and> t \<noteq> []"
proof (induction k arbitrary: ndec ip)
  case 0
  then show ?case
    by (auto simp: tmp_digits.simps [of ndec ip] dec_value_def digit_char_value)
next
  case (Suc k)
  show ?case
  proof (cases "ip div 10 = 0")
    case True
    with Suc.prems show ?thesis
      by (auto simp: tmp_digits.simps [of ndec ip] dec_value_def digit_char_value)
  next
    case False
    have ndec: "Suc ndec < 12"
    proof (rule ccontr)
      assume "\<not> Suc ndec < 12"
      with Suc.prems(1) have "12 - ndec = 1" by simp
      with Suc.prems(2) False show False by simp
    qed
    have "12 - ndec = Suc (12 - Suc ndec)"
      using ndec by simp
    then have "ip div 10 < 10 ^ (12 - Suc ndec)"
      using Suc.prems(2) by (simp add: less_mult_imp_div_less)
    moreover have "ip div 10 < 10 ^ Suc k"
      using Suc.prems(3) by (simp add: less_mult_imp_div_less)
    ultimately obtain t where t: "tmp_digits (Suc ndec) (ip div 10) = Inr t"
        "dec_value (rev t) = ip div 10" "length t \<le> Suc k"
      using Suc.IH [OF ndec] by blast
    have "10 * (ip div 10) + ip mod 10 = ip" by simp
    with False t Suc.prems(1) show ?thesis
      by (simp add: tmp_digits.simps [of ndec ip] dec_value_snoc digit_char_value)
  qed
qed

lemma frac_digits_value:
  "dec_value (frac_digits m fr ndec) = (fr mod 2 ^ 64) * 10 ^ length (frac_digits m fr ndec) div 2 ^ 64 \<and>
   frac_digits m fr ndec \<noteq> [] \<and> length (frac_digits m fr ndec) \<le> max 1 (m - ndec)"
proof (induction m fr ndec rule: frac_digits.induct)
  case (1 m fr ndec)
  define fr' where "fr' = (fr mod 2 ^ 64) * 10"
  have lt: "fr' div 2 ^ 64 < 10"
    by (simp add: fr'_def less_mult_imp_div_less)
  show ?case
  proof (cases "fr' \<noteq> 0 \<and> Suc ndec < m")
    case True
    define rest where "rest = frac_digits m fr' (Suc ndec)"
    have step: "frac_digits m fr ndec = digit_char (fr' div 2 ^ 64) # rest"
      using True by (simp add: frac_digits.simps [of m fr ndec] fr'_def rest_def Let_def)
    have IH: "dec_value rest = (fr' mod 2 ^ 64) * 10 ^ length rest div 2 ^ 64"
        "length rest \<le> max 1 (m - Suc ndec)"
      using "1.IH" [of fr' "digit_char (fr' div 2 ^ 64)"] True
      by (simp_all add: fr'_def rest_def)
    have "fr' * 10 ^ length rest div 2 ^ 64 = fr' div 2 ^ 64 * 10 ^ length rest + dec_value rest"
      unfolding IH(1) by (rule mult_div_split) simp
    then have "dec_value (frac_digits m fr ndec) = fr' * 10 ^ length rest div 2 ^ 64"
      using lt by (simp add: step dec_value_Cons digit_char_value)
    with IH(2) True show ?thesis
      by (auto simp: step fr'_def mult.assoc)
  next
    case False
    then have "frac_digits m fr ndec = [digit_char (fr' div 2 ^ 64)]"
      by (auto simp: frac_digits.simps [of m fr ndec] fr'_def Let_def)
    with lt show ?thesis
      by (simp add: dec_value_def digit_char_value fr'_def)
  qed
qed

definition INT64_MIN :: fixedpt where
  "INT64_MIN = 0x8000000000000000"

definition abs_raw :: "fixedpt \<Rightarrow> nat" where
  "abs_raw a = nat \<bar>sint a\<bar>"

lemma sint_neg:
  assumes "a \<noteq> INT64_MIN"
  shows "sint (- a) = - sint a"
proof -
  have "sint a \<noteq> - (2 ^ 63)"
  proof
    assume "sint a = - (2 ^ 63)"
    then have "a = word_of_int (- (2 ^ 63))"
      by (rule word_from_sint)
    with assms show False
      by (simp add: INT64_MIN_def)
  qed
  with sint64_bounds [of a] show ?thesis
    by (simp add: sint_word_minus signed_take_bit_int_eq_self)
qed

text \<open>The magnitude the printing loops work on is a non-negative \<open>int64_t\<close>.\<close>

lemma sint_magnitude:
  assumes "a \<noteq> INT64_MIN"
  shows "sint (if a <s 0 then a * (- 1) else a) = int (abs_raw a)"
  using sint_neg [OF assms] by (simp add: word_sless_alt abs_raw_def)

lemma unat_scast_nonneg:
  assumes "0 \<le> sint (x :: fixedpt)"
  shows "unat (scast x :: 128 word) = nat (sint x)"
proof -
  have "take_bit 128 (sint x) = sint x"
    using assms sint64_bounds [of x] by (intro take_bit_int_eq_self) auto
  then have "uint (scast x :: 128 word) = sint x"
    using uint_sint [of "scast x :: 128 word"] by simp
  then show ?thesis
    by (metis nat_uint_eq)
qed

lemma whole_part_nat:
  assumes "sint x = int n"
  shows "unat (scast (fixedpt_toint x) :: 128 word) = n div 2 ^ 40"
proof -
  have "sint (fixedpt_toint x) = int (n div 2 ^ 40)"
    using assms by (simp add: fixedpt_toint_def sint_signed_drop_bit_eq drop_bit_eq_div zdiv_int)
  then show ?thesis
    by (subst unat_scast_nonneg) simp_all
qed

lemma fracpart_nat:
  assumes "sint x = int n"
  shows "unat (push_bit FIXEDPT_WBITS (fixedpt_fracpart x)) = (n mod 2 ^ 40) * 2 ^ 24"
proof -
  have "x = word_of_nat n"
    using word_from_sint [OF assms] by simp
  moreover have "FIXEDPT_FMASK = mask 40"
    by (simp add: FIXEDPT_FMASK_def mask_eq_decr_exp push_bit_eq_mult)
  ultimately have "fixedpt_fracpart x = take_bit 40 (word_of_nat n)"
    by (simp only: fixedpt_fracpart_def take_bit_eq_mask)
  then have "fixedpt_fracpart x = word_of_nat (n mod 2 ^ 40)"
    unfolding take_bit_of_nat by (simp add: take_bit_eq_mod [of 40 n])
  then have "push_bit FIXEDPT_WBITS (fixedpt_fracpart x) = word_of_nat ((n mod 2 ^ 40) * 2 ^ 24)"
    by (simp add: FIXEDPT_WBITS_def push_bit_eq_mult)
  moreover have "unat (word_of_nat ((n mod 2 ^ 40) * 2 ^ 24) :: fixedpt) = (n mod 2 ^ 40) * 2 ^ 24"
  proof -
    have "(n mod 2 ^ 40) * 2 ^ 24 < 2 ^ 40 * 2 ^ 24"
      by (intro mult_strict_right_mono) simp_all
    then show ?thesis
      by (subst unat_of_nat) simp
  qed
  ultimately show ?thesis
    by (simp only:)
qed

lemma fixedpt_str_parts_value:
  assumes "a \<noteq> INT64_MIN"
  obtains w f where
    "fixedpt_str_parts a max_dec = Inr ((if a <s 0 then ''-'' else '''') @ w @ ''.'', f)"
    "dec_value w = abs_raw a div 2 ^ 40" "w \<noteq> []" "length w \<le> 7"
    "dec_value f = (abs_raw a mod 2 ^ 40) * 10 ^ length f div 2 ^ 40"
    "f \<noteq> []" "length f \<le> max 1 (nat (if max_dec = - 1 then 10 else if max_dec = - 2 then 15 else max_dec))"
proof -
  define n where "n = abs_raw a"
  define md where "md = (if max_dec = - 1 then 10 else if max_dec = - 2 then 15 else max_dec)"
  define f where "f = frac_digits (nat md) ((n mod 2 ^ 40) * 2 ^ 24) 0"
  have mag: "sint (if a <s 0 then a * (- 1) else a) = int n"
    unfolding n_def by (rule sint_magnitude [OF assms])
  then have "n < 2 ^ 63"
    using sint64_bounds(2) [of "if a <s 0 then a * (- 1) else a"] by simp
  then have "n div 2 ^ 40 < 10 ^ Suc 6" and "n div 2 ^ 40 < 10 ^ 12"
    by (simp_all add: less_mult_imp_div_less)
  then obtain t where t: "tmp_digits 0 (n div 2 ^ 40) = Inr t" "dec_value (rev t) = n div 2 ^ 40"
      "length t \<le> 7" "t \<noteq> []"
    using tmp_digits_value [of 0 "n div 2 ^ 40" 6] by auto
  have "(n mod 2 ^ 40) * 2 ^ 24 < 2 ^ 40 * 2 ^ 24"
    by (intro mult_strict_right_mono) simp_all
  then have small: "((n mod 2 ^ 40) * 2 ^ 24) mod 2 ^ 64 = (n mod 2 ^ 40) * 2 ^ 24"
    by simp
  have "((n mod 2 ^ 40) * 2 ^ 24) * 10 ^ length f div 2 ^ 64 = (n mod 2 ^ 40) * 10 ^ length f div 2 ^ 40"
    using div_mult_mult2 [of "2 ^ 24 :: nat" "(n mod 2 ^ 40) * 10 ^ length f" "2 ^ 40"]
    by (simp add: mult.commute mult.left_commute)
  with small have fv: "dec_value f = (n mod 2 ^ 40) * 10 ^ length f div 2 ^ 40"
    using frac_digits_value [of "nat md" "(n mod 2 ^ 40) * 2 ^ 24" 0] by (simp add: f_def)
  have "fixedpt_str_parts a max_dec = Inr ((if a <s 0 then ''-'' else '''') @ rev t @ ''.'', f)"
    using whole_part_nat [OF mag] fracpart_nat [OF mag] t(1)
    by (simp add: fixedpt_str_parts_def Let_def f_def md_def)
  then show thesis
    using that [of "rev t" f] t fv frac_digits_value [of "nat md" "(n mod 2 ^ 40) * 2 ^ 24" 0]
    by (simp add: n_def f_def md_def)
qed

text \<open>Cutting one trailing zero leaves the truncated fraction of one digit less.\<close>

lemma frac_cut:
  assumes "dec_value f = x * 10 ^ length f div m" and "cuts_zero f"
  shows "dec_value (butlast f) = x * 10 ^ length (butlast f) div m"
proof -
  obtain g c where f: "f = g @ [c]"
    using assms(2) by (cases f rule: rev_cases) (auto simp: cuts_zero_def)
  with assms have "10 * dec_value g = x * 10 ^ length g * 10 div m"
    by (simp add: cuts_zero_def dec_value_snoc mult.assoc mult.commute mult.left_commute)
  then have "dec_value g = x * 10 ^ length g * 10 div m div 10"
    by (metis nonzero_mult_div_cancel_left zero_neq_numeral)
  also have "\<dots> = x * 10 ^ length g div m"
    by (simp add: div_mult2_eq [symmetric] mult.commute [of m])
  finally show ?thesis
    by (simp add: f)
qed

section \<open>The class FixedPt\<close>

text \<open>The private members are \<open>_value\<close> and \<open>_valid\<close>; every operator builds its result with \<open>fromC\<close>,
  which sets \<open>_valid\<close> whatever the operands' flags were.\<close>

record FixedPt =
  fp_value :: fixedpt
  fp_valid :: bool

definition FixedPt_ctor :: FixedPt where
  "FixedPt_ctor = \<lparr>fp_value = 0, fp_valid = True\<rparr>"

definition fromInt :: "int \<Rightarrow> FixedPt" where
  "fromInt i = FixedPt_ctor\<lparr>fp_value := fixedpt_fromint i\<rparr>"

definition fromC :: "fixedpt \<Rightarrow> FixedPt" where
  "fromC v = FixedPt_ctor\<lparr>fp_value := v\<rparr>"

definition getC :: "FixedPt \<Rightarrow> fixedpt" where
  "getC x = fp_value x"

definition set_valid :: "FixedPt \<Rightarrow> bool \<Rightarrow> FixedPt" where
  "set_valid x v = x\<lparr>fp_valid := v\<rparr>"

definition get_valid :: "FixedPt \<Rightarrow> bool" where
  "get_valid x = fp_valid x"

definition fp_c_str :: "FixedPt \<Rightarrow> string res" where
  "fp_c_str x = fixedpt_cstr (fp_value x) 4"

definition fp_plus :: "FixedPt \<Rightarrow> FixedPt \<Rightarrow> FixedPt" where
  "fp_plus x y = fromC (fixedpt_add (fp_value x) (fp_value y))"

definition fp_minus :: "FixedPt \<Rightarrow> FixedPt \<Rightarrow> FixedPt" where
  "fp_minus x y = fromC (fixedpt_sub (fp_value x) (fp_value y))"

definition fp_times :: "FixedPt \<Rightarrow> FixedPt \<Rightarrow> FixedPt" where
  "fp_times x y = fromC (fixedpt_mul (fp_value x) (fp_value y))"

definition fp_divide :: "FixedPt \<Rightarrow> FixedPt \<Rightarrow> FixedPt res" where
  "fp_divide x y = bnd (fixedpt_div (fp_value x) (fp_value y)) (\<lambda>q. Inr (fromC q))"

definition int_plus :: "int \<Rightarrow> FixedPt \<Rightarrow> FixedPt" where
  "int_plus i x = fp_plus (fromInt i) x"

definition int_minus :: "int \<Rightarrow> FixedPt \<Rightarrow> FixedPt" where
  "int_minus i x = fp_minus (fromInt i) x"

definition int_times :: "int \<Rightarrow> FixedPt \<Rightarrow> FixedPt" where
  "int_times i x = fp_times (fromInt i) x"

definition fp_gt :: "FixedPt \<Rightarrow> FixedPt \<Rightarrow> bool" where
  "fp_gt x y \<longleftrightarrow> getC y <s getC x"

definition fp_lt :: "FixedPt \<Rightarrow> FixedPt \<Rightarrow> bool" where
  "fp_lt x y \<longleftrightarrow> getC x <s getC y"

definition fpt_abs :: "FixedPt \<Rightarrow> FixedPt" where
  "fpt_abs x = (if getC x <s 0 then fromC (- getC x) else x)"

lemmas FixedPt_defs = FixedPt_ctor_def fromInt_def fromC_def getC_def set_valid_def get_valid_def
  fp_plus_def fp_minus_def fp_times_def fp_divide_def int_plus_def int_minus_def int_times_def
  fp_gt_def fp_lt_def fpt_abs_def fixedpt_add_def fixedpt_sub_def

lemma fp_value_simps [simp]:
  "fp_value (fromC v) = v" "fp_value (fromInt i) = fixedpt_fromint i" "fp_value FixedPt_ctor = 0"
  "fp_value (fp_plus x y) = fp_value x + fp_value y"
  "fp_value (fp_minus x y) = fp_value x - fp_value y"
  "fp_value (fp_times x y) = fixedpt_mul (fp_value x) (fp_value y)"
  by (simp_all add: FixedPt_defs)

lemma fp_valid_simps [simp]:
  "fp_valid (fromC v)" "fp_valid (fromInt i)" "fp_valid (fp_plus x y)" "fp_valid (fp_minus x y)"
  "fp_valid (fp_times x y)" "fp_valid FixedPt_ctor"
  by (simp_all add: FixedPt_defs)

lemma fromC_cong: "fp_valid x \<Longrightarrow> fromC (fp_value x) = x"
  by (simp add: FixedPt_defs)

lemma fp_divide_zero [simp]: "fp_value y = 0 \<Longrightarrow> fp_divide x y = Inl DivByZero"
  by (simp add: fp_divide_def)

lemma fp_divide_ok: "fp_value y \<noteq> 0 \<Longrightarrow> \<exists>q. fp_divide x y = Inr (fromC q)"
  by (auto simp: fp_divide_def fixedpt_div_int)

section \<open>Properties\<close>

text \<open>
  Property C28. Multiplication rounds towards minus infinity and loses less than one unit in the
  last place: whenever the true product fits in the 24 whole bits, the result times \<open>2 ^ 40\<close> is at
  most the exact 128-bit product and the next representable value is above it.
\<close>

theorem fixedpt_mul_floor:
  assumes "- (2 ^ 103) \<le> sint a * sint b" and "sint a * sint b < 2 ^ 103"
  shows "sint (fixedpt_mul a b) * 2 ^ 40 \<le> sint a * sint b \<and>
         sint a * sint b < (sint (fixedpt_mul a b) + 1) * 2 ^ 40"
proof -
  let ?p = "sint a * sint b"
  have q: "?p div 2 ^ 40 * 2 ^ 40 \<le> ?p" "?p < (?p div 2 ^ 40 + 1) * 2 ^ 40"
    using div_mult_mod_eq [of ?p "2 ^ 40"] by (simp_all add: distrib_right)
  have "- (2 ^ 63) \<le> ?p div 2 ^ 40" and "?p div 2 ^ 40 < 2 ^ 63"
    using div_within [of "2 ^ 40" "2 ^ 63" ?p] assms by simp_all
  then have "sint (fixedpt_mul a b) = ?p div 2 ^ 40"
    unfolding fixedpt_mul_int by (intro sint_word_of_int_id) simp_all
  with q show ?thesis by simp
qed

theorem fixedpt_mul_floor_witness:
  "sint (fixedpt_mul (fixedpt_fromint 3) (- 7)) * 2 ^ 40 \<le> - 21 * 2 ^ 40 \<and>
   - 21 * 2 ^ 40 < (sint (fixedpt_mul (fixedpt_fromint 3) (- 7)) + 1) * 2 ^ 40"
proof -
  have "sint (fixedpt_fromint 3) = 3 * 2 ^ 40"
    by (rule sint_fromint) simp_all
  then show ?thesis
    using fixedpt_mul_floor [of "fixedpt_fromint 3" "- 7"] by simp
qed

text \<open>
  Division truncates towards zero: for a non-zero divisor and a quotient that fits,
  the result \<open>q\<close> and the divisor reconstruct the shifted dividend up to a remainder smaller than
  the divisor and with the dividend's sign; a zero divisor traps.
\<close>

theorem fixedpt_div_truncates:
  assumes "b \<noteq> 0" and "- (2 ^ 63) \<le> (sint a * 2 ^ 40) sdiv sint b"
    and "(sint a * 2 ^ 40) sdiv sint b < 2 ^ 63"
  shows "\<exists>q r. fixedpt_div a b = Inr q \<and> sint a * 2 ^ 40 = sint q * sint b + r \<and>
           \<bar>r\<bar> < \<bar>sint b\<bar> \<and> (r = 0 \<or> sgn r = sgn (sint a)) \<and> fixedpt_div a 0 = Inl DivByZero"
proof -
  let ?n = "sint a * 2 ^ 40" and ?d = "sint b"
  have d: "?d \<noteq> 0"
    using assms(1) by (simp add: signed_eq_0_iff)
  define q :: fixedpt where "q = word_of_int (?n sdiv ?d)"
  have "sint q = ?n sdiv ?d"
    unfolding q_def using assms(2,3) by (intro sint_word_of_int_id) simp_all
  then have "?n = sint q * ?d + ?n smod ?d"
    by (simp add: sdiv_mult_smod_eq)
  moreover have "\<bar>?n smod ?d\<bar> < \<bar>?d\<bar>"
    using d by (simp add: signed_modulo_int_def abs_mult abs_sgn_eq)
  moreover have "?n smod ?d = 0 \<or> sgn (?n smod ?d) = sgn (sint a)"
    using pos_mod_sign [of "\<bar>?d\<bar>" "\<bar>?n\<bar>"] d
    by (auto simp: signed_modulo_int_def sgn_mult sgn_1_pos less_le)
  ultimately show ?thesis
    using fixedpt_div_int [OF assms(1), of a] by (auto simp: q_def)
qed

theorem fixedpt_div_truncates_witness:
  "\<exists>q r. fixedpt_div (- 1) 3 = Inr q \<and> - 1 * 2 ^ 40 = sint q * 3 + r \<and> \<bar>r\<bar> < 3 \<and>
     (r = 0 \<or> sgn r = - 1) \<and> fixedpt_div (- 1) 0 = Inl DivByZero"
  using fixedpt_div_truncates [of 3 "- 1"] by (simp add: signed_divide_int_def)

text \<open>
  Printing shows the number truncated to the digits printed and stays inside its
  buffers: for every value but the most negative one and up to 15 decimals, \<open>fixedpt_cstr\<close> returns
  a string within its 25-byte array, made of the sign, the decimal digits of the whole part, a dot
  and at least one fraction digit. The whole digits denote the whole part of the magnitude, the
  fraction digits the fraction truncated to that many places.
\<close>

theorem fixedpt_cstr_prints:
  assumes "a \<noteq> INT64_MIN" and "max_dec \<le> 15"
  shows "\<exists>w f. fixedpt_cstr a max_dec = Inr ((if a <s 0 then ''-'' else '''') @ w @ ''.'' @ f) \<and>
           length w \<le> 7 \<and> f \<noteq> [] \<and> dec_value w = abs_raw a div 2 ^ 40 \<and>
           dec_value f = (abs_raw a mod 2 ^ 40) * 10 ^ length f div 2 ^ 40"
proof -
  let ?s = "if a <s 0 then ''-'' else ''''"
  obtain w f where wf: "fixedpt_str_parts a max_dec = Inr (?s @ w @ ''.'', f)"
      "dec_value w = abs_raw a div 2 ^ 40" "w \<noteq> []" "length w \<le> 7"
      "dec_value f = (abs_raw a mod 2 ^ 40) * 10 ^ length f div 2 ^ 40" "f \<noteq> []"
      "length f \<le> max 1 (nat (if max_dec = - 1 then 10 else if max_dec = - 2 then 15 else max_dec))"
    using fixedpt_str_parts_value [OF assms(1)] by blast
  define g where "g = (if cuts_zero f then butlast f else f)"
  have "length f \<le> 15"
    using wf(7) assms(2) by (auto split: if_splits)
  then have "length (?s @ w @ ''.'') + length f + 1 \<le> 25"
    using wf(4) by auto
  then have cstr: "fixedpt_cstr a max_dec = Inr (?s @ w @ ''.'' @ g)"
    by (auto simp: fixedpt_cstr_def fixedpt_str_def wf(1) g_def Let_def)
  have "g \<noteq> []"
    using wf(6) by (cases f rule: rev_cases) (auto simp: g_def cuts_zero_def)
  moreover have "dec_value g = (abs_raw a mod 2 ^ 40) * 10 ^ length g div 2 ^ 40"
    using wf(5) frac_cut by (simp add: g_def)
  ultimately show ?thesis
    using cstr wf(2,4) by blast
qed

theorem fixedpt_cstr_prints_witness:
  "\<exists>w f. fixedpt_cstr (- 1) 4 = Inr (''-'' @ w @ ''.'' @ f) \<and> length w \<le> 7 \<and> f \<noteq> [] \<and>
     dec_value w = 0 \<and> dec_value f = 10 ^ length f div 2 ^ 40"
  using fixedpt_cstr_prints [of "- 1" 4] by (simp add: INT64_MIN_def abs_raw_def)

text \<open>
  Property C29. The 32-bit locals break the square root in this 64-bit configuration: of every
  whole number from 2 up to the largest representable one, \<open>fixedpt_sqrt\<close> returns the raw value 1,
  the smallest positive number, instead of the root.
\<close>

theorem fixedpt_sqrt_of_whole_is_one_ulp:
  assumes "2 \<le> n" and "n < 2 ^ 23"
  shows "fixedpt_sqrt (fixedpt_fromint n) = Inr 1"
proof -
  let ?a = "fixedpt_fromint n"
  have s: "sint ?a = n * 2 ^ 40"
    using assms by (intro sint_fromint) simp_all
  have guards: "\<not> ?a <s 0" "?a \<noteq> 0" "?a \<noteq> FIXEDPT_ONE" "\<not> ?a <s FIXEDPT_ONE" "FIXEDPT_ONE <s ?a"
    using assms(1) s by (auto simp: word_sless_alt)
  have "ucast ?a = (0 :: 32 word)"
    by (rule bit_word_eqI) (simp add: fixedpt_fromint_def bit_simps)
  moreover have "ucast (signed_drop_bit 1 ?a + 1) = (1 :: 32 word)"
  proof -
    have "signed_drop_bit 1 ?a = push_bit 39 (word_of_int n :: fixedpt)"
      using word_from_sint [of "signed_drop_bit 1 ?a" "n * 2 ^ 39"] s
      by (simp add: sint_shr1 [unfolded One_nat_def] push_bit_eq_mult)
    then show ?thesis
      by (intro bit_word_eqI) (simp add: bit_simps disjunctive_add flip: or_one_eq)
  qed
  ultimately show ?thesis
    using guards by (simp add: fixedpt_sqrt_def sqrt_iters.simps [of 0] del: FIXEDPT_ONE_eq)
qed

theorem fixedpt_sqrt_of_whole_is_one_ulp_witness: "fixedpt_sqrt (fixedpt_fromint 4) = Inr 1"
  using fixedpt_sqrt_of_whole_is_one_ulp [of 4] by simp

text \<open>
  The most negative value has no printable form: negating it wraps back to itself,
  its whole part sign-extends to 128 bits, and writing its digits runs past \<open>tmp[12]\<close>.
\<close>

theorem fixedpt_str_overflows_at_min: "fixedpt_str INT64_MIN max_dec = Inl OutOfBounds"
proof -
  have "unat (scast (fixedpt_toint INT64_MIN) :: 128 word) = 2 ^ 128 - 2 ^ 23"
    by (simp add: INT64_MIN_def fixedpt_toint_def)
  moreover have "tmp_digits 0 (2 ^ 128 - 2 ^ 23) = Inl OutOfBounds"
    by (simp add: tmp_digits.simps)
  moreover have "(if INT64_MIN <s 0 then INT64_MIN * - 1 else INT64_MIN) = INT64_MIN"
    by (simp add: INT64_MIN_def)
  ultimately show ?thesis
    unfolding fixedpt_str_def fixedpt_str_parts_def Let_def by (simp only: bnd_Inl)
qed

text \<open>
  One raised to any power is one, through the logarithm and the exponential: the divisor that
  price parsing builds with \<open>fixedpt_pow(FIXEDPT_ONE, n)\<close> never traps.
\<close>

lemma fixedpt_pow_of_one: "fixedpt_pow FIXEDPT_ONE ex = Inr FIXEDPT_ONE"
  by (simp add: fixedpt_pow_def fixedpt_ln_def ln_reduce.simps [of 1099511627776] fixedpt_div_int
      fixedpt_exp_def word_sless_alt)

end
