(* ===== verification/Packets.thy ===== *)
theory Packets
  imports Fixed_Point
begin

text \<open>
  What travels between the elements: the application messages of \<open>include/click/appmsgs.hh\<close>, byte by
  byte as the packed structures lie in a packet on the little-endian machines the code is built
  for (the source casts the data of a packet to a structure or copies a structure over it: reading and writing
  the fields in their order and widths stands for that), the packet's application type (\<open>include/click/packet.hh\<close>), and what an element can do with a
  packet: push it to a port or kill it (\<open>Element::checked_output_push\<close>, \<open>SynapseElement::discard_packet\<close>).

  A packet is a value: \<open>put(0)\<close> makes the data private before anyone writes to it.
\<close>

section \<open>Words in memory\<close>

type_synonym byte = "8 word"

definition word_to_le :: "64 word \<Rightarrow> byte list" where
  "word_to_le w = map (\<lambda>i. ucast (drop_bit (8 * i) w)) [0..<8]"

definition le_to_word :: "byte list \<Rightarrow> 64 word" where
  "le_to_word bs = foldr (\<lambda>b acc. ucast b OR push_bit 8 acc) bs 0"

lemma length_word_to_le [simp]: "length (word_to_le w) = 8"
  by (simp add: word_to_le_def)

lemma bit_le_to_word:
  "bit (le_to_word bs) n \<longleftrightarrow> n < 64 \<and> n div 8 < length bs \<and> bit (bs ! (n div 8)) (n mod 8)"
proof (induction bs arbitrary: n)
  case Nil
  then show ?case by (simp add: le_to_word_def)
next
  case (Cons b bs)
  have step: "le_to_word (b # bs) = ucast b OR push_bit 8 (le_to_word bs)"
    by (simp add: le_to_word_def)
  show ?case
  proof (cases "n < 8")
    case True
    then show ?thesis by (auto simp: step bit_simps)
  next
    case False
    then have *: "n div 8 = Suc ((n - 8) div 8)" "n mod 8 = (n - 8) mod 8"
      using le_div_geq [of 8 n] le_mod_geq [of 8 n] by simp_all
    moreover have "\<not> bit b n" using False by (auto dest: bit_imp_le_length)
    ultimately show ?thesis
      using False Cons.IH [of "n - 8"] by (auto simp: step bit_simps)
  qed
qed

lemma le_to_word_to_le [simp]: "le_to_word (word_to_le w) = w"
proof (rule bit_word_eqI)
  fix n assume "n < LENGTH(64)"
  then have "n div 8 < 8" "8 * (n div 8) + n mod 8 = n" "n mod 8 < 8" "n < 64"
    by (simp_all add: less_mult_imp_div_less)
  then show "bit (le_to_word (word_to_le w)) n = bit w n"
    by (simp add: bit_le_to_word word_to_le_def bit_simps less_mult_imp_div_less)
qed

text \<open>\<open>memcpy\<close> over the beginning of the data, and reading a 64-bit field at an offset.\<close>

definition overwrite :: "byte list \<Rightarrow> byte list \<Rightarrow> byte list" where
  "overwrite bs new = new @ drop (length new) bs"

definition get64 :: "byte list \<Rightarrow> nat \<Rightarrow> 64 word res" where
  "get64 bs off =
     (if off + 8 \<le> length bs then Inr (le_to_word (take 8 (drop off bs))) else Inl OutOfBounds)"

section \<open>Messages\<close>

datatype PacketAppType =
    NO_APP_MSG | MSG_TRADE | MSG_TIME_PERIOD_STATS | MSG_INDICATOR | MSG_UPDATE_SOURCE
  | MSG_ADD_SOURCE | MSG_UPDATE | MSG_ADD | MSG_INIT | MSG_INIT_SOURCE

definition ORDER_SYMBOL_LEN :: nat where
  "ORDER_SYMBOL_LEN = 10"

record MsgValue =
  mv_value :: FixedPt
  mv_timestamp :: "64 word"

record MsgSource =
  ms_close :: fixedpt
  ms_high :: fixedpt
  ms_low :: fixedpt
  ms_open :: fixedpt
  ms_timestamp :: "64 word"
  ms_volume :: "64 word"

record MsgTrade =
  mt_price :: fixedpt
  mt_size :: "64 word"
  mt_symbol :: "byte list"
  mt_timestamp :: "64 word"
  mt_src_timestamp :: "64 word"

record MsgIndicator =
  mi_symbol :: "byte list"
  mi_indicator :: fixedpt
  mi_timestamp :: "64 word"

definition MsgTrade_ctor :: MsgTrade where
  "MsgTrade_ctor = \<lparr>mt_price = 0, mt_size = 0, mt_symbol = replicate ORDER_SYMBOL_LEN 0,
     mt_timestamp = 0, mt_src_timestamp = 0\<rparr>"

definition MsgSource_ctor :: MsgSource where
  "MsgSource_ctor = \<lparr>ms_close = fixedpt_fromint 0, ms_high = fixedpt_fromint 0,
     ms_low = fixedpt_fromint 0, ms_open = fixedpt_fromint 0, ms_timestamp = 0, ms_volume = 0\<rparr>"

definition MsgValue_ctor :: MsgValue where
  "MsgValue_ctor = \<lparr>mv_value = FixedPt_ctor, mv_timestamp = 0\<rparr>"

text \<open>
  \<open>FixedPt\<close> is laid out before the packing pragma takes effect: eight bytes of value, the flag, seven
  bytes of padding, whose contents no code reads and which are written as zero here.
\<close>

definition put_MsgValue :: "MsgValue \<Rightarrow> byte list" where
  "put_MsgValue m =
     word_to_le (fp_value (mv_value m)) @ [if fp_valid (mv_value m) then 1 else 0] @ replicate 7 0 @
     word_to_le (mv_timestamp m)"

definition sizeof_MsgValue :: nat where
  "sizeof_MsgValue = 24"

definition get_MsgValue :: "byte list \<Rightarrow> MsgValue res" where
  "get_MsgValue bs =
     bnd (get64 bs 0) (\<lambda>v. bnd (arr_get bs 8) (\<lambda>f. bnd (get64 bs 16) (\<lambda>ts.
       Inr \<lparr>mv_value = \<lparr>fp_value = v, fp_valid = (f \<noteq> 0)\<rparr>, mv_timestamp = ts\<rparr>)))"

definition put_MsgSource :: "MsgSource \<Rightarrow> byte list" where
  "put_MsgSource m =
     word_to_le (ms_close m) @ word_to_le (ms_high m) @ word_to_le (ms_low m) @
     word_to_le (ms_open m) @ word_to_le (ms_timestamp m) @ word_to_le (ms_volume m)"

definition sizeof_MsgSource :: nat where
  "sizeof_MsgSource = 48"

definition get_MsgSource :: "byte list \<Rightarrow> MsgSource res" where
  "get_MsgSource bs =
     bnd (get64 bs 0) (\<lambda>c. bnd (get64 bs 8) (\<lambda>h. bnd (get64 bs 16) (\<lambda>l.
     bnd (get64 bs 24) (\<lambda>op. bnd (get64 bs 32) (\<lambda>ts. bnd (get64 bs 40) (\<lambda>vol.
       Inr \<lparr>ms_close = c, ms_high = h, ms_low = l, ms_open = op, ms_timestamp = ts,
            ms_volume = vol\<rparr>))))))"

definition put_MsgIndicator :: "MsgIndicator \<Rightarrow> byte list" where
  "put_MsgIndicator m = mi_symbol m @ word_to_le (mi_indicator m) @ word_to_le (mi_timestamp m)"

definition sizeof_MsgIndicator :: nat where
  "sizeof_MsgIndicator = 26"

definition get_MsgIndicator :: "byte list \<Rightarrow> MsgIndicator res" where
  "get_MsgIndicator bs =
     bnd (get64 bs 10) (\<lambda>ind. bnd (get64 bs 18) (\<lambda>ts.
       Inr \<lparr>mi_symbol = take ORDER_SYMBOL_LEN bs, mi_indicator = ind, mi_timestamp = ts\<rparr>))"

definition put_MsgTrade :: "MsgTrade \<Rightarrow> byte list" where
  "put_MsgTrade m =
     word_to_le (mt_price m) @ word_to_le (mt_size m) @ mt_symbol m @ word_to_le (mt_timestamp m) @
     word_to_le (mt_src_timestamp m)"

definition sizeof_MsgTrade :: nat where
  "sizeof_MsgTrade = 42"

definition get_MsgTrade :: "byte list \<Rightarrow> MsgTrade res" where
  "get_MsgTrade bs =
     bnd (get64 bs 0) (\<lambda>price. bnd (get64 bs 8) (\<lambda>sz. bnd (get64 bs 26) (\<lambda>ts. bnd (get64 bs 34) (\<lambda>src.
       Inr \<lparr>mt_price = price, mt_size = sz, mt_symbol = take ORDER_SYMBOL_LEN (drop 16 bs), mt_timestamp = ts,
            mt_src_timestamp = src\<rparr>))))"

lemma get_put_MsgTrade [simp]:
  "length (mt_symbol m) = ORDER_SYMBOL_LEN \<Longrightarrow> get_MsgTrade (put_MsgTrade m @ rest) = Inr m"
  by (cases m) (simp add: get_MsgTrade_def put_MsgTrade_def get64_def ORDER_SYMBOL_LEN_def)

lemma length_put_MsgValue [simp]: "length (put_MsgValue m) = 24"
  by (simp add: put_MsgValue_def)

lemma length_put_MsgSource [simp]: "length (put_MsgSource m) = 48"
  by (simp add: put_MsgSource_def)

lemma get_put_MsgValue [simp]: "get_MsgValue (put_MsgValue m @ rest) = Inr m"
  by (cases m; cases "mv_value m") (simp add: get_MsgValue_def put_MsgValue_def get64_def arr_get_def nth_append)

lemma get_put_MsgSource [simp]: "get_MsgSource (put_MsgSource m @ rest) = Inr m"
  by (cases m) (simp add: get_MsgSource_def put_MsgSource_def get64_def)

lemma get_MsgValue_short: "length bs < 24 \<Longrightarrow> get_MsgValue bs = Inl OutOfBounds"
  by (auto simp: get_MsgValue_def get64_def arr_get_def)

lemma get_MsgValue_long: "24 \<le> length bs \<Longrightarrow> \<exists>m. get_MsgValue bs = Inr m"
  by (auto simp: get_MsgValue_def get64_def arr_get_def)

lemma get_MsgSource_short: "length bs < 48 \<Longrightarrow> get_MsgSource bs = Inl OutOfBounds"
  by (auto simp: get_MsgSource_def get64_def)

lemma get_MsgSource_long: "48 \<le> length bs \<Longrightarrow> \<exists>m. get_MsgSource bs = Inr m"
  by (auto simp: get_MsgSource_def get64_def)

lemma get_MsgValue_fault: "get_MsgValue bs = Inl OutOfBounds \<longleftrightarrow> length bs < 24"
  using get_MsgValue_short [of bs] get_MsgValue_long [of bs] by (cases "length bs < 24") auto

lemma get_MsgSource_fault: "get_MsgSource bs = Inl OutOfBounds \<longleftrightarrow> length bs < 48"
  using get_MsgSource_short [of bs] get_MsgSource_long [of bs] by (cases "length bs < 48") auto

section \<open>Packets and what becomes of them\<close>

record Packet =
  pdata :: "byte list"
  packet_app_type :: PacketAppType

definition get_packet_app_type :: "Packet \<Rightarrow> PacketAppType" where
  "get_packet_app_type p = packet_app_type p"

definition set_packet_app_type :: "PacketAppType \<Rightarrow> Packet \<Rightarrow> Packet" where
  "set_packet_app_type t p = p\<lparr>packet_app_type := t\<rparr>"

datatype action = PushOut nat Packet | KillPkt Packet

definition checked_output_push :: "nat \<Rightarrow> int \<Rightarrow> Packet \<Rightarrow> action" where
  "checked_output_push noutputs port p =
     (if 0 \<le> port \<and> port < int noutputs then PushOut (nat port) p else KillPkt p)"

definition discard_packet :: "Packet \<Rightarrow> action" where
  "discard_packet p = KillPkt p"

text \<open>
  \<open>SynapseElement::populate_msg_indicator\<close>: the assertions compare addresses of the arguments with the
  packet's memory, which no caller's stack variables share.
\<close>

definition populate_msg_indicator :: "Packet \<Rightarrow> byte list \<Rightarrow> fixedpt \<Rightarrow> 64 word \<Rightarrow> bool \<times> Packet" where
  "populate_msg_indicator p symbol indicator timestamp =
     (if length (pdata p) < sizeof_MsgIndicator then (False, p)
      else (True, set_packet_app_type MSG_INDICATOR
             (p\<lparr>pdata := overwrite (pdata p) (put_MsgIndicator
                \<lparr>mi_symbol = take ORDER_SYMBOL_LEN symbol, mi_indicator = indicator,
                 mi_timestamp = timestamp\<rparr>)\<rparr>)))"

text \<open>
  Messages survive the packet: reading a value message or a source message from a
  packet whose data begins with its bytes gives back every field, and a packet too short to hold
  the message has no such reading.
\<close>

theorem messages_round_trip:
  "get_MsgValue (put_MsgValue v @ rest) = Inr v \<and> get_MsgSource (put_MsgSource s @ rest) = Inr s \<and>
   (get_MsgValue bs = Inl OutOfBounds \<longleftrightarrow> length bs < sizeof_MsgValue) \<and>
   (get_MsgSource bs = Inl OutOfBounds \<longleftrightarrow> length bs < sizeof_MsgSource)"
  by (simp add: sizeof_MsgValue_def sizeof_MsgSource_def get_MsgValue_fault get_MsgSource_fault)

end
