(* ===== verification/Hash_Map.thy ===== *)
theory Hash_Map
  imports Packets
begin

text \<open>
  Click's chained hash table \<open>HashMap<K, V>\<close> (include/click/hashmap.hh and hashmap.cc), with which
  the elements keep their per-symbol state, and its key type here, the fixed array
  \<open>ArrayWrapper<char, 10>\<close> (include/click/array_wrapper.hh). A chain is the list of its elements. The key's
  \<open>hashcode\<close> and \<open>operator==\<close>, template parameters of the code, are the arguments \<open>h\<close> and \<open>eq\<close>.
  Allocation is taken to succeed. The table refines a finite map for keys whose hash code agrees
  with their equality, which the interface \<open>hash_key\<close> states and the symbols the elements use provide.
\<close>

section \<open>The table\<close>

definition MAX_NBUCKETS :: nat where "MAX_NBUCKETS = 4194303"

definition DEFAULT_INITIAL_NBUCKETS :: nat where "DEFAULT_INITIAL_NBUCKETS = 127"

definition DEFAULT_RESIZE_THRESHOLD :: nat where "DEFAULT_RESIZE_THRESHOLD = 2"

record ('k, 'v) HashMap =
  hm_buckets :: "('k \<times> 'v) list list"
  hm_nbuckets :: nat
  hm_default_value :: 'v
  hm_n :: nat
  hm_capacity :: nat

definition dynamic_resizing :: "('k, 'v) HashMap \<Rightarrow> bool" where
  "dynamic_resizing m \<longleftrightarrow> hm_capacity m < 0x7FFFFFFF"

definition set_dynamic_resizing :: "bool \<Rightarrow> ('k, 'v) HashMap \<Rightarrow> ('k, 'v) HashMap" where
  "set_dynamic_resizing on m = m\<lparr>hm_capacity :=
     (if \<not> on then 0x7FFFFFFF
      else if hm_nbuckets m \<ge> MAX_NBUCKETS then 0x7FFFFFFE
      else DEFAULT_RESIZE_THRESHOLD * hm_nbuckets m)\<rparr>"

definition hm_initialize :: "'v \<Rightarrow> nat \<Rightarrow> ('k, 'v) HashMap" where
  "hm_initialize def initial_nbuckets =
     set_dynamic_resizing True
       \<lparr>hm_buckets = replicate initial_nbuckets [], hm_nbuckets = initial_nbuckets,
        hm_default_value = def, hm_n = 0, hm_capacity = 0\<rparr>"

definition HashMap_ctor :: "'v \<Rightarrow> ('k, 'v) HashMap" where
  "HashMap_ctor def = hm_initialize def DEFAULT_INITIAL_NBUCKETS"

definition hm_size :: "('k, 'v) HashMap \<Rightarrow> nat" where
  "hm_size m = hm_n m"

definition hm_empty :: "('k, 'v) HashMap \<Rightarrow> bool" where
  "hm_empty m \<longleftrightarrow> hm_n m = 0"

definition bucket :: "('k \<Rightarrow> 64 word) \<Rightarrow> nat \<Rightarrow> 'k \<Rightarrow> nat res" where
  "bucket h nbuckets key = (if nbuckets = 0 then Inl DivByZero else Inr (unat (h key) mod nbuckets))"

text \<open>Walking a chain: the position of the first element with the key, or the end.\<close>

primrec chain_pos :: "('k \<Rightarrow> 'k \<Rightarrow> bool) \<Rightarrow> 'k \<Rightarrow> ('k \<times> 'v) list \<Rightarrow> nat option" where
  "chain_pos eq key [] = None"
| "chain_pos eq key (e # es) = (if eq (fst e) key then Some 0 else map_option Suc (chain_pos eq key es))"

definition find_pair :: "('k \<Rightarrow> 64 word) \<Rightarrow> ('k \<Rightarrow> 'k \<Rightarrow> bool) \<Rightarrow> ('k, 'v) HashMap \<Rightarrow> 'k \<Rightarrow> ('k \<times> 'v) option res" where
  "find_pair h eq m key =
     bnd (bucket h (hm_nbuckets m) key) (\<lambda>b. bnd (arr_get (hm_buckets m) b) (\<lambda>es.
       Inr (map_option (\<lambda>i. es ! i) (chain_pos eq key es))))"

definition findp :: "('k \<Rightarrow> 64 word) \<Rightarrow> ('k \<Rightarrow> 'k \<Rightarrow> bool) \<Rightarrow> ('k, 'v) HashMap \<Rightarrow> 'k \<Rightarrow> 'v option res" where
  "findp h eq m key = bnd (find_pair h eq m key) (\<lambda>p. Inr (map_option snd p))"

definition find_or :: "('k \<Rightarrow> 64 word) \<Rightarrow> ('k \<Rightarrow> 'k \<Rightarrow> bool) \<Rightarrow> ('k, 'v) HashMap \<Rightarrow> 'k \<Rightarrow> 'v \<Rightarrow> 'v res" where
  "find_or h eq m key default_value =
     bnd (find_pair h eq m key) (\<lambda>p. Inr (case p of Some e \<Rightarrow> snd e | None \<Rightarrow> default_value))"

definition hm_find :: "('k \<Rightarrow> 64 word) \<Rightarrow> ('k \<Rightarrow> 'k \<Rightarrow> bool) \<Rightarrow> ('k, 'v) HashMap \<Rightarrow> 'k \<Rightarrow> 'v res" where
  "hm_find h eq m key = find_or h eq m key (hm_default_value m)"

text \<open>
  The rehashing loop of \<open>resize0\<close>: each element of the old chains, in order, becomes the head of its
  new chain.
\<close>

definition rehash_one :: "('k \<Rightarrow> 64 word) \<Rightarrow> nat \<Rightarrow> ('k \<times> 'v) list list \<Rightarrow> 'k \<times> 'v \<Rightarrow> ('k \<times> 'v) list list res" where
  "rehash_one h nbuckets bs e =
     bnd (bucket h nbuckets (fst e)) (\<lambda>b. bnd (arr_get bs b) (\<lambda>es. arr_set bs b (e # es)))"

definition resize0 :: "('k \<Rightarrow> 64 word) \<Rightarrow> ('k, 'v) HashMap \<Rightarrow> nat \<Rightarrow> ('k, 'v) HashMap res" where
  "resize0 h m new_nbuckets =
     (let m1 = m\<lparr>hm_nbuckets := new_nbuckets\<rparr>;
          m2 = (if dynamic_resizing m1 then set_dynamic_resizing True m1 else m1)
      in bnd (iter_res (rehash_one h new_nbuckets) (replicate new_nbuckets [])
                (concat (take (hm_nbuckets m) (hm_buckets m))))
           (\<lambda>bs. Inr (m2\<lparr>hm_buckets := bs\<rparr>)))"

function grow :: "nat \<Rightarrow> nat \<Rightarrow> nat" where
  "grow want new = (if new < want \<and> new < MAX_NBUCKETS then grow want ((new + 1) * 2 - 1) else new)"
  by pat_completeness auto
termination
  by (relation "measure (\<lambda>(want, new). want - new)") auto

declare grow.simps [simp del]

definition resize :: "('k \<Rightarrow> 64 word) \<Rightarrow> ('k, 'v) HashMap \<Rightarrow> nat \<Rightarrow> ('k, 'v) HashMap res" where
  "resize h m want_nbuckets =
     (let new_nbuckets = grow want_nbuckets 1
      in if \<not> (new_nbuckets > 0 \<and> new_nbuckets \<le> MAX_NBUCKETS) then Inl AssertFailed
         else if hm_nbuckets m \<noteq> new_nbuckets then resize0 h m new_nbuckets
         else Inr m)"

text \<open>The second half of \<open>insert\<close> and \<open>find_pair_force\<close>: grow when full, then link a new element.\<close>

definition link_new :: "('k \<Rightarrow> 64 word) \<Rightarrow> ('k, 'v) HashMap \<Rightarrow> 'k \<Rightarrow> 'v \<Rightarrow> ('k, 'v) HashMap res" where
  "link_new h m key v =
     bnd (if hm_n m \<ge> hm_capacity m then resize h m (hm_nbuckets m + 1) else Inr m) (\<lambda>m1.
     bnd (bucket h (hm_nbuckets m1) key) (\<lambda>b. bnd (arr_get (hm_buckets m1) b) (\<lambda>es.
     bnd (arr_set (hm_buckets m1) b ((key, v) # es)) (\<lambda>bs.
       Inr (m1\<lparr>hm_buckets := bs, hm_n := hm_n m1 + 1\<rparr>)))))"

definition hm_insert :: "('k \<Rightarrow> 64 word) \<Rightarrow> ('k \<Rightarrow> 'k \<Rightarrow> bool) \<Rightarrow> ('k, 'v) HashMap \<Rightarrow> 'k \<Rightarrow> 'v \<Rightarrow>
    (bool \<times> ('k, 'v) HashMap) res" where
  "hm_insert h eq m key v =
     bnd (bucket h (hm_nbuckets m) key) (\<lambda>b. bnd (arr_get (hm_buckets m) b) (\<lambda>es.
       case chain_pos eq key es of
         Some i \<Rightarrow> bnd (arr_set (hm_buckets m) b (es[i := (fst (es ! i), v)])) (\<lambda>bs.
                     Inr (False, m\<lparr>hm_buckets := bs\<rparr>))
       | None \<Rightarrow> bnd (link_new h m key v) (\<lambda>m'. Inr (True, m'))))"

definition hm_erase :: "('k \<Rightarrow> 64 word) \<Rightarrow> ('k \<Rightarrow> 'k \<Rightarrow> bool) \<Rightarrow> ('k, 'v) HashMap \<Rightarrow> 'k \<Rightarrow>
    (bool \<times> ('k, 'v) HashMap) res" where
  "hm_erase h eq m key =
     bnd (bucket h (hm_nbuckets m) key) (\<lambda>b. bnd (arr_get (hm_buckets m) b) (\<lambda>es.
       case chain_pos eq key es of
         Some i \<Rightarrow> bnd (arr_set (hm_buckets m) b (take i es @ drop (Suc i) es)) (\<lambda>bs.
                     Inr (True, m\<lparr>hm_buckets := bs, hm_n := hm_n m - 1\<rparr>))
       | None \<Rightarrow> Inr (False, m)))"

definition find_pair_force :: "('k \<Rightarrow> 64 word) \<Rightarrow> ('k \<Rightarrow> 'k \<Rightarrow> bool) \<Rightarrow> ('k, 'v) HashMap \<Rightarrow> 'k \<Rightarrow> 'v \<Rightarrow>
    (('k \<times> 'v) \<times> ('k, 'v) HashMap) res" where
  "find_pair_force h eq m key default_value =
     bnd (bucket h (hm_nbuckets m) key) (\<lambda>b. bnd (arr_get (hm_buckets m) b) (\<lambda>es.
       case chain_pos eq key es of
         Some i \<Rightarrow> Inr (es ! i, m)
       | None \<Rightarrow> bnd (link_new h m key default_value) (\<lambda>m'. Inr ((key, default_value), m'))))"

definition hm_clear :: "('k, 'v) HashMap \<Rightarrow> ('k, 'v) HashMap" where
  "hm_clear m = m\<lparr>hm_buckets := replicate (hm_nbuckets m) [] @ drop (hm_nbuckets m) (hm_buckets m), hm_n := 0\<rparr>"

definition hm_swap :: "('k, 'v) HashMap \<Rightarrow> ('k, 'v) HashMap \<Rightarrow> ('k, 'v) HashMap \<times> ('k, 'v) HashMap" where
  "hm_swap m o' = (o', m)"

text \<open>Storing through the value pointer that \<open>findp\<close> or \<open>find_pair\<close> returned.\<close>

definition store_value :: "('k \<Rightarrow> 64 word) \<Rightarrow> ('k \<Rightarrow> 'k \<Rightarrow> bool) \<Rightarrow> ('k, 'v) HashMap \<Rightarrow> 'k \<Rightarrow> 'v \<Rightarrow>
    ('k, 'v) HashMap res" where
  "store_value h eq m key v =
     bnd (bucket h (hm_nbuckets m) key) (\<lambda>b. bnd (arr_get (hm_buckets m) b) (\<lambda>es.
       case chain_pos eq key es of
         Some i \<Rightarrow> bnd (arr_set (hm_buckets m) b (es[i := (fst (es ! i), v)])) (\<lambda>bs.
                     Inr (m\<lparr>hm_buckets := bs\<rparr>))
       | None \<Rightarrow> Inl NullDeref))"

text \<open>Copying; \<open>hm_assign\<close> is for two different objects, assigning a table to itself does nothing.\<close>

definition copy_from :: "('k, 'v) HashMap \<Rightarrow> ('k, 'v) HashMap \<Rightarrow> ('k, 'v) HashMap res" where
  "copy_from m other =
     bnd (iter_res (\<lambda>bs i. bnd (arr_get (hm_buckets other) i) (\<lambda>es. arr_set bs i es))
            (hm_buckets m) [0..<hm_nbuckets m])
       (\<lambda>bs. Inr (m\<lparr>hm_buckets := bs, hm_n := hm_n other\<rparr>))"

definition HashMap_copy :: "('k, 'v) HashMap \<Rightarrow> ('k, 'v) HashMap res" where
  "HashMap_copy other =
     copy_from (other\<lparr>hm_buckets := replicate (hm_nbuckets other) [], hm_n := 0\<rparr>) other"

definition hm_assign :: "('k \<Rightarrow> 64 word) \<Rightarrow> ('k, 'v) HashMap \<Rightarrow> ('k, 'v) HashMap \<Rightarrow> ('k, 'v) HashMap res" where
  "hm_assign h m other =
     (let m1 = (hm_clear m)\<lparr>hm_default_value := hm_default_value other\<rparr>
      in bnd (if hm_nbuckets m1 < hm_nbuckets other then resize0 h m1 (hm_nbuckets other) else Inr m1) (\<lambda>m2.
           copy_from (m2\<lparr>hm_nbuckets := hm_nbuckets other, hm_capacity := hm_capacity other\<rparr>) other))"

section \<open>Iteration\<close>

text \<open>
  An iterator holds its bucket and a pointer to an element of that bucket's chain, here the position
  in the chain, None for NULL.
\<close>

record hm_iterator =
  it_bucket :: nat
  it_elt :: "nat option"

definition chain :: "('k, 'v) HashMap \<Rightarrow> nat \<Rightarrow> ('k \<times> 'v) list" where
  "chain m b = (if b < length (hm_buckets m) then hm_buckets m ! b else [])"

function scan_from :: "('k, 'v) HashMap \<Rightarrow> nat \<Rightarrow> hm_iterator" where
  "scan_from m b =
     (if b < hm_nbuckets m
      then (if chain m b \<noteq> [] then \<lparr>it_bucket = b, it_elt = Some 0\<rparr> else scan_from m (b + 1))
      else \<lparr>it_bucket = b, it_elt = None\<rparr>)"
  by pat_completeness auto
termination
  by (relation "measure (\<lambda>(m, b). hm_nbuckets m - b)") auto

declare scan_from.simps [simp del]

definition hm_begin :: "('k, 'v) HashMap \<Rightarrow> hm_iterator" where
  "hm_begin m = scan_from m 0"

definition hm_end :: "('k, 'v) HashMap \<Rightarrow> hm_iterator" where
  "hm_end m = \<lparr>it_bucket = 0, it_elt = None\<rparr>"

definition it_live :: "hm_iterator \<Rightarrow> bool" where
  "it_live it \<longleftrightarrow> it_elt it \<noteq> None"

definition it_next :: "('k, 'v) HashMap \<Rightarrow> hm_iterator \<Rightarrow> hm_iterator res" where
  "it_next m it =
     (case it_elt it of
        None \<Rightarrow> Inl NullDeref
      | Some i \<Rightarrow> if Suc i < length (chain m (it_bucket it)) then Inr (it\<lparr>it_elt := Some (Suc i)\<rparr>)
                  else Inr (scan_from m (it_bucket it + 1)))"

text \<open>\<open>value()\<close> of a live iterator, and storing through it.\<close>

definition it_pair :: "('k, 'v) HashMap \<Rightarrow> hm_iterator \<Rightarrow> ('k \<times> 'v) res" where
  "it_pair m it =
     (case it_elt it of None \<Rightarrow> Inl NullDeref | Some i \<Rightarrow> arr_get (chain m (it_bucket it)) i)"

definition it_store :: "('k, 'v) HashMap \<Rightarrow> hm_iterator \<Rightarrow> 'k \<times> 'v \<Rightarrow> ('k, 'v) HashMap" where
  "it_store m it e =
     m\<lparr>hm_buckets := (hm_buckets m)[it_bucket it := (chain m (it_bucket it))[the (it_elt it) := e]]\<rparr>"

lemma it_store_shape [simp]:
  "hm_nbuckets (it_store m it e) = hm_nbuckets m"
  "length (chain (it_store m it e) b) = length (chain m b)"
  "length (hm_buckets (it_store m it e)) = length (hm_buckets m)"
  by (auto simp: it_store_def chain_def nth_list_update)

lemma scan_from_bucket:
  "it_elt (scan_from m b) \<noteq> None \<Longrightarrow>
   b \<le> it_bucket (scan_from m b) \<and> it_bucket (scan_from m b) < hm_nbuckets m"
proof (induction m b rule: scan_from.induct)
  case (1 m b)
  show ?case
    using 1 scan_from.simps [of m b] by (auto split: if_splits)
qed

text \<open>
  The loop \<open>for (i = begin(); i.live(); ++i)\<close> whose body changes a state and the value under the
  iterator.
\<close>

function for_each :: "('s \<Rightarrow> 'k \<times> 'v \<Rightarrow> ('s \<times> 'v) res) \<Rightarrow> 's \<Rightarrow> ('k, 'v) HashMap \<Rightarrow> hm_iterator \<Rightarrow>
    ('s \<times> ('k, 'v) HashMap) res" where
  "for_each f s m it =
     (if it_live it
      then bnd (it_pair m it) (\<lambda>e. bnd (f s e) (\<lambda>(s', v).
           let m' = it_store m it (fst e, v)
           in bnd (it_next m' it) (\<lambda>it'. for_each f s' m' it')))
      else Inr (s, m))"
  by pat_completeness auto
termination
proof (relation "measures [\<lambda>(f, s, m, it). if it_live it then Suc (hm_nbuckets m - it_bucket it) else 0,
    \<lambda>(f, s, m, it). length (chain m (it_bucket it)) - the (it_elt it)]", goal_cases)
  case 1
  show ?case by simp
next
  case (2 f s m it e x s' v m' it')
  then obtain i where i: "it_elt it = Some i" by (auto simp: it_live_def)
  show ?case
  proof (cases "Suc i < length (chain m (it_bucket it))")
    case True
    with 2 i show ?thesis by (auto simp: it_next_def it_live_def)
  next
    case False
    then have "it' = scan_from m' (it_bucket it + 1)"
      using 2 i by (simp add: it_next_def)
    with scan_from_bucket [of m' "it_bucket it + 1"] 2 show ?thesis
      by (auto simp: it_live_def)
  qed
qed

declare for_each.simps [simp del]

definition keep_key :: "('s \<Rightarrow> 'k \<times> 'v \<Rightarrow> ('s \<times> 'v) res) \<Rightarrow> 's \<Rightarrow> 'k \<times> 'v \<Rightarrow> ('s \<times> 'k \<times> 'v) res" where
  "keep_key f s e = bnd (f s e) (\<lambda>(s', v). Inr (s', fst e, v))"

lemma for_each_chain:
  assumes "b < length (hm_buckets m)" and "i < length (chain m b)"
  shows "for_each f s m \<lparr>it_bucket = b, it_elt = Some i\<rparr> =
    bnd (map_acc (keep_key f) s (drop i (chain m b))) (\<lambda>(s', es).
      let m' = m\<lparr>hm_buckets := (hm_buckets m)[b := take i (chain m b) @ es]\<rparr>
      in for_each f s' m' (scan_from m' (Suc b)))"
  using assms
proof (induction "length (chain m b) - i" arbitrary: i s m)
  case (Suc n)
  let ?es = "chain m b" and ?it = "\<lparr>it_bucket = b, it_elt = Some i\<rparr>"
  have es: "drop i ?es = ?es ! i # drop (Suc i) ?es"
    using Suc.prems by (simp add: Cons_nth_drop_Suc)
  show ?case
  proof (cases "f s (?es ! i)")
    case (Inl x)
    then show ?thesis
      using Suc.prems es by (subst for_each.simps) (simp add: it_live_def it_pair_def keep_key_def)
  next
    case (Inr x)
    obtain s' v where x: "x = (s', v)" by (cases x)
    let ?e = "(fst (?es ! i), v)" and ?m = "it_store m ?it (fst (?es ! i), v)"
    have ch: "chain ?m b = ?es[i := ?e]"
      using Suc.prems by (simp add: it_store_def chain_def)
    have step: "for_each f s m ?it = bnd (it_next ?m ?it) (\<lambda>it'. for_each f s' ?m it')"
      using Suc.prems Inr x by (subst for_each.simps) (simp add: it_live_def it_pair_def Let_def)
    show ?thesis
    proof (cases "Suc i < length ?es")
      case True
      have upd: "?m\<lparr>hm_buckets := (hm_buckets ?m)[b := take (Suc i) (chain ?m b) @ es]\<rparr> =
          m\<lparr>hm_buckets := (hm_buckets m)[b := take i ?es @ ?e # es]\<rparr>" for es
        using Suc.prems unfolding ch
        by (simp add: it_store_def take_Suc_conv_app_nth list_update_append)
      have "for_each f s' ?m \<lparr>it_bucket = b, it_elt = Some (Suc i)\<rparr> =
          bnd (map_acc (keep_key f) s' (drop (Suc i) (chain ?m b))) (\<lambda>(s'', es).
            let m' = ?m\<lparr>hm_buckets := (hm_buckets ?m)[b := take (Suc i) (chain ?m b) @ es]\<rparr>
            in for_each f s'' m' (scan_from m' (Suc b)))"
        using Suc True by (intro Suc.hyps(1)) simp_all
      then have "for_each f s' ?m \<lparr>it_bucket = b, it_elt = Some (Suc i)\<rparr> =
          bnd (map_acc (keep_key f) s' (drop (Suc i) ?es)) (\<lambda>(s'', es).
            let m' = m\<lparr>hm_buckets := (hm_buckets m)[b := take i ?es @ ?e # es]\<rparr>
            in for_each f s'' m' (scan_from m' (Suc b)))"
        unfolding upd by (simp add: ch)
      then show ?thesis
        using True Inr x step es
        by (simp add: it_next_def keep_key_def bnd_assoc case_prod_unfold)
    next
      case False
      then have "drop (Suc i) ?es = []" "take i ?es @ [?e] = ?es[i := ?e]"
        using Suc.prems(2) by (simp_all add: upd_conv_take_nth_drop)
      then show ?thesis
        using False Inr x step es
        by (simp add: it_next_def keep_key_def Let_def) (simp add: it_store_def)
    qed
  qed
qed simp

lemma for_each_from:
  assumes "hm_nbuckets m \<le> length (hm_buckets m)" and "b \<le> hm_nbuckets m"
  shows "for_each f s m (scan_from m b) =
    bnd (map_acc (map_acc (keep_key f)) s (drop b (take (hm_nbuckets m) (hm_buckets m)))) (\<lambda>(s', bs).
      Inr (s', m\<lparr>hm_buckets := take b (hm_buckets m) @ bs @ drop (hm_nbuckets m) (hm_buckets m)\<rparr>))"
  using assms
proof (induction "hm_nbuckets m - b" arbitrary: b s m)
  case 0
  then have "scan_from m b = \<lparr>it_bucket = b, it_elt = None\<rparr>" "drop b (take (hm_nbuckets m) (hm_buckets m)) = []"
    by (simp_all add: scan_from.simps [of m b])
  then show ?case
    using 0 by (subst for_each.simps) (simp add: it_live_def)
next
  case (Suc n)
  let ?bs = "hm_buckets m" and ?nb = "hm_nbuckets m"
  have b: "b < ?nb" "b < length ?bs" using Suc by simp_all
  have d: "drop b (take ?nb ?bs) = ?bs ! b # drop (Suc b) (take ?nb ?bs)"
    using b by (subst Cons_nth_drop_Suc [symmetric]) simp_all
  have ch: "chain m b = ?bs ! b" using b by (simp add: chain_def)
  have IH: "for_each f s' m' (scan_from m' (Suc b)) =
      bnd (map_acc (map_acc (keep_key f)) s' (drop (Suc b) (take ?nb ?bs))) (\<lambda>(s'', bs).
        Inr (s'', m'\<lparr>hm_buckets := take b ?bs @ es # bs @ drop ?nb ?bs\<rparr>))"
    if "m' = m\<lparr>hm_buckets := ?bs[b := es]\<rparr>" for m' es s'
    using Suc.hyps(1) [of m' "Suc b" s'] Suc.hyps(2) Suc.prems b that
    by (simp add: take_Suc_conv_app_nth drop_take)
  show ?case
  proof (cases "?bs ! b = []")
    case True
    with Suc.hyps(2) ch have "scan_from m b = scan_from m (Suc b)"
      by (simp add: scan_from.simps [of m b])
    then show ?thesis
      using IH [of m "[]" s] True d b list_update_id [of ?bs b] by (simp add: bnd_assoc case_prod_unfold)
  next
    case False
    with Suc.hyps(2) ch have "scan_from m b = \<lparr>it_bucket = b, it_elt = Some 0\<rparr>"
      by (simp add: scan_from.simps [of m b])
    then show ?thesis
      using for_each_chain [of b m 0 f s] False b d ch IH [OF refl]
      by (simp add: bnd_assoc case_prod_unfold Let_def)
  qed
qed

lemma for_each_begin:
  assumes "hm_nbuckets m \<le> length (hm_buckets m)"
  shows "for_each f s m (hm_begin m) =
    bnd (map_acc (map_acc (keep_key f)) s (take (hm_nbuckets m) (hm_buckets m))) (\<lambda>(s', bs).
      Inr (s', m\<lparr>hm_buckets := bs @ drop (hm_nbuckets m) (hm_buckets m)\<rparr>))"
  using for_each_from [OF assms, of 0 f s] by (simp add: hm_begin_def)

section \<open>What a table stands for\<close>

definition home :: "('k \<Rightarrow> 64 word) \<Rightarrow> nat \<Rightarrow> 'k \<Rightarrow> nat" where
  "home h nb k = unat (h k) mod nb"

text \<open>Every chain has distinct valid keys, all of them at home in it.\<close>

definition chains_ok :: "('k \<Rightarrow> bool) \<Rightarrow> ('k \<Rightarrow> 64 word) \<Rightarrow> ('k \<times> 'v) list list \<Rightarrow> bool" where
  "chains_ok ok h bs \<longleftrightarrow>
     (\<forall>i<length bs. distinct (map fst (bs ! i)) \<and> (\<forall>e\<in>set (bs ! i). ok (fst e) \<and> home h (length bs) (fst e) = i))"

definition hm_inv :: "('k \<Rightarrow> bool) \<Rightarrow> ('k \<Rightarrow> 64 word) \<Rightarrow> ('k, 'v) HashMap \<Rightarrow> bool" where
  "hm_inv ok h m \<longleftrightarrow> 0 < hm_nbuckets m \<and> hm_nbuckets m \<le> length (hm_buckets m) \<and>
     chains_ok ok h (take (hm_nbuckets m) (hm_buckets m)) \<and>
     hm_n m = length (concat (take (hm_nbuckets m) (hm_buckets m)))"

definition entries :: "('k, 'v) HashMap \<Rightarrow> ('k \<times> 'v) list" where
  "entries m = concat (take (hm_nbuckets m) (hm_buckets m))"

definition hm_abs :: "('k, 'v) HashMap \<Rightarrow> 'k \<Rightarrow> 'v option" where
  "hm_abs m = map_of (entries m)"

lemma home_less [simp]: "0 < nb \<Longrightarrow> home h nb k < nb"
  by (simp add: home_def)

lemma bucket_home [simp]: "0 < nb \<Longrightarrow> bucket h nb k = Inr (home h nb k)"
  by (simp add: bucket_def home_def)

lemma in_concat_nth: "e \<in> set (concat bs) \<longleftrightarrow> (\<exists>i<length bs. e \<in> set (bs ! i))"
  unfolding set_concat UN_iff by (metis in_set_conv_nth)

lemma chains_ok_entry:
  assumes "chains_ok ok h bs" and "e \<in> set (concat bs)"
  shows "ok (fst e) \<and> e \<in> set (bs ! home h (length bs) (fst e)) \<and> home h (length bs) (fst e) < length bs"
proof -
  obtain i where "i < length bs" "e \<in> set (bs ! i)"
    using assms(2) by (metis in_concat_nth)
  with assms(1) show ?thesis
    by (auto simp: chains_ok_def)
qed

lemma chains_ok_distinct:
  assumes "chains_ok ok h bs"
  shows "distinct (map fst (concat bs))"
proof -
  have "distinct (map fst (bs ! i))" if "i < length bs" for i
    using assms that by (simp add: chains_ok_def)
  moreover have "i = j"
    if "i < length bs" "j < length bs" "k \<in> fst ` set (bs ! i)" "k \<in> fst ` set (bs ! j)" for i j k
    using assms that unfolding chains_ok_def by (metis imageE)
  ultimately show ?thesis
  proof (induction bs rule: rev_induct)
    case (snoc b bs)
    have "distinct (map fst (concat bs))"
    proof (rule snoc.IH)
      fix i assume "i < length bs"
      then show "distinct (map fst (bs ! i))"
        using snoc.prems(1) [of i] by (simp add: nth_append)
    next
      fix i j k assume "i < length bs" "j < length bs" "k \<in> fst ` set (bs ! i)" "k \<in> fst ` set (bs ! j)"
      then show "i = j"
        using snoc.prems(2) [of i j k] by (simp add: nth_append)
    qed
    moreover have "distinct (map fst b)"
      using snoc.prems(1) [of "length bs"] by simp
    moreover have "fst ` set b \<inter> fst ` set (concat bs) = {}"
    proof (rule ccontr)
      assume "fst ` set b \<inter> fst ` set (concat bs) \<noteq> {}"
      then obtain x y where xy: "x \<in> set b" "y \<in> set (concat bs)" "fst x = fst y"
        by blast
      moreover from xy(2) obtain i where "i < length bs" "y \<in> set (bs ! i)"
        unfolding in_concat_nth by blast
      ultimately show False
        using snoc.prems(2) [of i "length bs" "fst x"] imageI [of x "set b" fst]
        by (simp add: nth_append)
    qed
    ultimately show ?case by auto
  qed simp
qed

lemma chains_ok_lookup:
  assumes "chains_ok ok h bs" and "bs \<noteq> []"
  shows "map_of (concat bs) k = map_of (bs ! home h (length bs) k) k"
proof (rule option.exhaust [of "map_of (concat bs) k"])
  assume none: "map_of (concat bs) k = None"
  have "home h (length bs) k < length bs" using assms(2) by simp
  then have "set (bs ! home h (length bs) k) \<subseteq> set (concat bs)"
    unfolding subset_iff in_concat_nth by blast
  with none have "map_of (bs ! home h (length bs) k) k = None"
    by (auto simp: map_of_eq_None_iff)
  with none show ?thesis by simp
next
  fix v assume some: "map_of (concat bs) k = Some v"
  then have "(k, v) \<in> set (bs ! home h (length bs) k)" "home h (length bs) k < length bs"
    using chains_ok_entry [OF assms(1) map_of_SomeD] by auto
  with some assms(1) show ?thesis
    by (simp add: chains_ok_def)
qed

lemma length_concat_update:
  assumes "b < length bs"
  shows "length (concat (bs[b := es])) + length (bs ! b) = length (concat bs) + length es"
proof -
  have "length (concat bs) = length (concat (take b bs)) + length (bs ! b) + length (concat (drop (Suc b) bs))"
    by (subst id_take_nth_drop [OF assms]) simp
  then show ?thesis
    using assms by (simp add: upd_conv_take_nth_drop)
qed

lemma hm_inv_chain:
  assumes "hm_inv ok h m" and b_def: "b = home h (hm_nbuckets m) k"
  shows "b < hm_nbuckets m" and "b < length (hm_buckets m)" and "distinct (map fst (hm_buckets m ! b))"
    and "hm_abs m k = map_of (hm_buckets m ! b) k" and "\<And>e. e \<in> set (hm_buckets m ! b) \<Longrightarrow> ok (fst e) \<and> home h (hm_nbuckets m) (fst e) = b"
proof -
  have nb: "0 < hm_nbuckets m" "hm_nbuckets m \<le> length (hm_buckets m)"
    and ok: "chains_ok ok h (take (hm_nbuckets m) (hm_buckets m))"
    using assms(1) by (simp_all add: hm_inv_def)
  show b: "b < hm_nbuckets m" using nb by (simp add: b_def)
  then show "b < length (hm_buckets m)" using nb by simp
  show "distinct (map fst (hm_buckets m ! b))" "\<And>e. e \<in> set (hm_buckets m ! b) \<Longrightarrow> ok (fst e) \<and> home h (hm_nbuckets m) (fst e) = b"
    using ok b nb by (simp_all add: chains_ok_def)
  show "hm_abs m k = map_of (hm_buckets m ! b) k"
    using chains_ok_lookup [OF ok, of k] b nb
    by (cases "hm_buckets m = []") (simp_all add: hm_abs_def entries_def b_def)
qed

text \<open>Replacing one chain by another with distinct valid keys that are at home in it.\<close>

lemma hm_inv_update:
  assumes inv: "hm_inv ok h m" and b: "b = home h (hm_nbuckets m) k"
    and "distinct (map fst es)" and "\<And>e. e \<in> set es \<Longrightarrow> ok (fst e) \<and> home h (hm_nbuckets m) (fst e) = b"
    and n: "n + length (hm_buckets m ! b) = hm_n m + length es"
    and m': "m' = m\<lparr>hm_buckets := (hm_buckets m)[b := es], hm_n := n\<rparr>"
  shows "hm_inv ok h m'"
    and "\<And>k'. hm_abs m' k' = (if home h (hm_nbuckets m) k' = b then map_of es k' else hm_abs m k')"
proof -
  let ?bs = "take (hm_nbuckets m) (hm_buckets m)"
  note ch = hm_inv_chain [OF inv b]
  have nb: "0 < hm_nbuckets m" "hm_nbuckets m \<le> length (hm_buckets m)" "chains_ok ok h ?bs"
    using inv by (simp_all add: hm_inv_def)
  have t: "take (hm_nbuckets m) ((hm_buckets m)[b := es]) = ?bs[b := es]"
    by (rule take_update_swap)
  have "chains_ok ok h (?bs[b := es])"
    using nb assms(3,4) ch(1,2) by (auto simp: chains_ok_def nth_list_update)
  moreover have "length (concat (?bs[b := es])) + length (hm_buckets m ! b) = length (concat ?bs) + length es"
    using length_concat_update [of b ?bs es] ch(1) nb(2) by simp
  then have "n = length (concat (?bs[b := es]))"
    using n inv by (simp add: hm_inv_def)
  ultimately show i: "hm_inv ok h m'"
    using nb by (simp add: hm_inv_def m' t)
  show "hm_abs m' k' = (if home h (hm_nbuckets m) k' = b then map_of es k' else hm_abs m k')" for k'
    using hm_inv_chain(4) [OF i refl, of k'] hm_inv_chain(4) [OF inv refl, of k'] ch(2)
    by (auto simp: m' nth_list_update)
qed

section \<open>Resizing\<close>

lemma grow_bounds:
  assumes "0 < new" and "new \<le> MAX_NBUCKETS" and "new + 1 = 2 ^ j"
  shows "0 < grow want new \<and> grow want new \<le> MAX_NBUCKETS"
  using assms
proof (induction want new arbitrary: j rule: grow.induct)
  case (1 want new)
  show ?case
  proof (cases "new < want \<and> new < MAX_NBUCKETS")
    case True
    then have "(2::nat) ^ j < 2 ^ 22"
      using "1.prems" by (simp add: MAX_NBUCKETS_def)
    then have "j < 22"
      by (rule power_less_imp_less_exp [rotated]) simp
    then have "(2::nat) ^ Suc j \<le> 2 ^ 22"
      by (intro power_increasing) simp_all
    then have "0 < grow want ((new + 1) * 2 - 1) \<and> grow want ((new + 1) * 2 - 1) \<le> MAX_NBUCKETS"
      using "1.prems" by (intro "1.IH" [OF True, of "Suc j"]) (simp_all add: MAX_NBUCKETS_def)
    with True show ?thesis by (simp add: grow.simps [of want new])
  next
    case False
    then have "grow want new = new" by (subst grow.simps) auto
    with "1.prems" show ?thesis by simp
  qed
qed

lemma rehash_all:
  assumes "0 < nb" and "length bs = nb"
  shows "\<exists>bs'. iter_res (rehash_one h nb) bs xs = Inr bs' \<and> length bs' = nb \<and>
    (\<forall>b<nb. bs' ! b = rev (filter (\<lambda>e. home h nb (fst e) = b) xs) @ bs ! b)"
  using assms(2)
proof (induction xs arbitrary: bs)
  case (Cons x xs)
  let ?b = "home h nb (fst x)"
  have step: "rehash_one h nb bs x = Inr (bs[?b := x # bs ! ?b])"
    using assms(1) Cons.prems by (simp add: rehash_one_def)
  show ?case
    using Cons.IH [of "bs[?b := x # bs ! ?b]"] Cons.prems assms(1)
    by (auto simp: step nth_list_update)
qed simp

lemma map_of_rev_filter:
  assumes "distinct (map fst xs)" and "\<And>e. e \<in> set xs \<Longrightarrow> fst e = k \<Longrightarrow> Q e"
  shows "map_of (rev (filter Q xs)) k = map_of xs k"
proof -
  have "distinct (map fst (rev (filter Q xs)))"
    using assms(1) by (simp add: distinct_map_filter flip: rev_map)
  then have "map_of (rev (filter Q xs)) k = Some v \<longleftrightarrow> map_of xs k = Some v" for v
    using assms by (auto simp: map_of_eq_Some_iff)
  then show ?thesis
    by (metis not_None_eq)
qed

lemma resize0_inv:
  assumes inv: "hm_inv ok h m" and nb: "0 < nb"
  obtains m' where "resize0 h m nb = Inr m'" and "hm_inv ok h m'" and "hm_abs m' = hm_abs m"
    and "hm_n m' = hm_n m" and "hm_default_value m' = hm_default_value m"
proof -
  let ?xs = "entries m"
  have ok: "chains_ok ok h (take (hm_nbuckets m) (hm_buckets m))"
    using inv by (simp add: hm_inv_def)
  have d: "distinct (map fst ?xs)"
    using chains_ok_distinct [OF ok] by (simp add: entries_def)
  obtain bs where bs: "iter_res (rehash_one h nb) (replicate nb []) ?xs = Inr bs" "length bs = nb"
    "\<And>b. b < nb \<Longrightarrow> bs ! b = rev (filter (\<lambda>e. home h nb (fst e) = b) ?xs)"
    using rehash_all [OF nb, of "replicate nb []" h ?xs] by auto
  have "ok (fst e)" if "e \<in> set ?xs" for e
    using chains_ok_entry [OF ok, of e] that by (simp add: entries_def)
  then have ok': "chains_ok ok h bs"
    using d by (auto simp: chains_ok_def bs distinct_map_filter simp flip: rev_map)
  obtain m1 where m1: "resize0 h m nb = Inr m1" "hm_nbuckets m1 = nb" "hm_buckets m1 = bs" "hm_n m1 = hm_n m"
    "hm_default_value m1 = hm_default_value m"
    using bs(1) by (simp add: resize0_def entries_def Let_def set_dynamic_resizing_def)
  have ne: "bs \<noteq> []" using bs(2) nb by auto
  have abs: "hm_abs m1 k = hm_abs m k" for k
    using chains_ok_lookup [OF ok' ne, of k] bs(2,3) nb m1 d
    by (simp add: hm_abs_def entries_def map_of_rev_filter)
  have "e \<in> set (concat bs) \<longleftrightarrow> e \<in> set ?xs" for e
    unfolding in_concat_nth using bs(2,3) home_less [OF nb, of h "fst e"]
    by (auto intro: exI [of _ "home h nb (fst e)"])
  then have "set (concat bs) = set ?xs" by blast
  moreover have "distinct ?xs" "distinct (concat bs)"
    using d chains_ok_distinct [OF ok'] distinct_map by blast+
  ultimately have "length (concat bs) = length ?xs"
    by (metis distinct_card)
  with m1 ok' bs nb inv have "hm_inv ok h m1"
    by (simp add: hm_inv_def entries_def)
  with m1 abs show thesis
    by (intro that [of m1]) (auto simp: fun_eq_iff)
qed

lemma resize_inv:
  assumes "hm_inv ok h m"
  obtains m' where "resize h m want = Inr m'" and "hm_inv ok h m'" and "hm_abs m' = hm_abs m"
    and "hm_n m' = hm_n m" and "hm_default_value m' = hm_default_value m"
proof -
  let ?nb = "grow want 1"
  have g: "0 < ?nb" "?nb \<le> MAX_NBUCKETS"
    using grow_bounds [of 1 1 want] by (simp_all add: MAX_NBUCKETS_def)
  show thesis
  proof (cases "hm_nbuckets m = ?nb")
    case True
    with g assms show thesis by (intro that [of m]) (simp_all add: resize_def)
  next
    case False
    obtain m' where "resize0 h m ?nb = Inr m'" "hm_inv ok h m'" "hm_abs m' = hm_abs m"
      "hm_n m' = hm_n m" "hm_default_value m' = hm_default_value m"
      by (rule resize0_inv [OF assms g(1)])
    with False g show thesis by (intro that [of m']) (simp_all add: resize_def)
  qed
qed

lemma hm_n_card:
  assumes "hm_inv ok h m"
  shows "hm_n m = card (dom (hm_abs m))"
proof -
  have "distinct (map fst (entries m))"
    using assms chains_ok_distinct by (fastforce simp: hm_inv_def entries_def)
  then have "card (fst ` set (entries m)) = length (entries m)"
    by (metis distinct_card length_map set_map)
  with assms show ?thesis
    by (simp add: hm_inv_def hm_abs_def dom_map_of_conv_image_fst entries_def)
qed

lemma map_of_update_at:
  "distinct (map fst es) \<Longrightarrow> i < length es \<Longrightarrow> fst (es ! i) = k \<Longrightarrow>
   map_of (es[i := (k, v)]) = (map_of es)(k \<mapsto> v) \<and> map fst (es[i := (k, v)]) = map fst es"
proof (induction es arbitrary: i)
  case (Cons e es)
  show ?case
  proof (cases i)
    case (Suc j)
    then have "fst e \<noteq> k" using Cons.prems by auto
    with Suc Cons show ?thesis by (auto simp: fun_upd_twist simp del: fun_upd_apply)
  qed (use Cons.prems in auto)
qed simp

lemma map_of_remove_at:
  "distinct (map fst es) \<Longrightarrow> i < length es \<Longrightarrow> fst (es ! i) = k \<Longrightarrow>
   map_of (take i es @ drop (Suc i) es) = (map_of es)(k := None)"
proof (induction es arbitrary: i)
  case (Cons e es)
  show ?case
  proof (cases i)
    case 0
    with Cons.prems have "map_of es k = None" by (simp add: map_of_eq_None_iff)
    with 0 Cons.prems show ?thesis by (auto simp: fun_eq_iff)
  next
    case (Suc j)
    then have "fst e \<noteq> k" using Cons.prems by auto
    with Suc Cons show ?thesis by (auto simp: fun_upd_twist simp del: fun_upd_apply)
  qed
qed simp

lemma hm_inv_ctor: "hm_inv ok h (HashMap_ctor d)" and hm_abs_ctor [simp]: "hm_abs (HashMap_ctor d) = Map.empty"
  by (auto simp: HashMap_ctor_def hm_initialize_def set_dynamic_resizing_def hm_inv_def chains_ok_def
      DEFAULT_INITIAL_NBUCKETS_def hm_abs_def entries_def concat_eq_Nil_conv)

lemma hm_inv_set_dynamic_resizing:
  "hm_inv ok h (set_dynamic_resizing on m) \<longleftrightarrow> hm_inv ok h m" "hm_abs (set_dynamic_resizing on m) = hm_abs m"
  by (simp_all add: set_dynamic_resizing_def hm_inv_def hm_abs_def entries_def)

lemma hm_clear_inv:
  assumes "hm_inv ok h m"
  shows "hm_inv ok h (hm_clear m)" and "hm_abs (hm_clear m) = Map.empty"
  using assms by (auto simp: hm_clear_def hm_inv_def chains_ok_def hm_abs_def entries_def concat_eq_Nil_conv)

lemma copy_chains:
  assumes "n \<le> length obs" and "n \<le> length bs"
  shows "iter_res (\<lambda>bs i. bnd (arr_get obs i) (\<lambda>es. arr_set bs i es)) bs [0..<n] = Inr (take n obs @ drop n bs)"
  using assms
proof (induction n)
  case (Suc n)
  then have "take (Suc n) obs = take n obs @ [obs ! n]" "drop n bs = bs ! n # drop (Suc n) bs"
    by (simp_all add: take_Suc_conv_app_nth Cons_nth_drop_Suc)
  with Suc show ?case
    by (simp add: iter_res_append list_update_append)
qed simp

lemma copy_from_inv:
  assumes "hm_inv ok h other" and "hm_nbuckets m = hm_nbuckets other" and "hm_nbuckets m \<le> length (hm_buckets m)"
  obtains m' where "copy_from m other = Inr m'" and "hm_inv ok h m'" and "hm_abs m' = hm_abs other"
proof -
  have "hm_nbuckets m \<le> length (hm_buckets other)"
    using assms(1,2) by (simp add: hm_inv_def)
  note copy_chains [OF this assms(3)]
  then show thesis
    using assms by (intro that [of "m\<lparr>hm_buckets := take (hm_nbuckets m) (hm_buckets other) @
        drop (hm_nbuckets m) (hm_buckets m), hm_n := hm_n other\<rparr>"])
      (simp_all add: copy_from_def hm_inv_def hm_abs_def entries_def)
qed

lemma HashMap_copy_inv:
  assumes "hm_inv ok h other"
  obtains m' where "HashMap_copy other = Inr m'" and "hm_inv ok h m'" and "hm_abs m' = hm_abs other"
  by (rule copy_from_inv [OF assms, of "other\<lparr>hm_buckets := replicate (hm_nbuckets other) [], hm_n := 0\<rparr>"])
    (simp_all add: HashMap_copy_def that)

lemma hm_assign_inv:
  assumes inv: "hm_inv ok h m" and other: "hm_inv ok h other"
  obtains m' where "hm_assign h m other = Inr m'" and "hm_inv ok h m'" and "hm_abs m' = hm_abs other"
proof -
  let ?m1 = "(hm_clear m)\<lparr>hm_default_value := hm_default_value other\<rparr>"
  have m1: "hm_inv ok h ?m1"
    using hm_clear_inv(1) [OF inv] by (simp add: hm_inv_def)
  have nb: "0 < hm_nbuckets other" using other by (simp add: hm_inv_def)
  obtain m0 where m0: "resize0 h ?m1 (hm_nbuckets other) = Inr m0" "hm_inv ok h m0"
    by (rule resize0_inv [OF m1 nb])
  have m0n: "hm_nbuckets m0 = hm_nbuckets other"
    using m0(1) by (auto simp: resize0_def Let_def bnd_eq_Inr set_dynamic_resizing_def)
  define m2 where "m2 = (if hm_nbuckets ?m1 < hm_nbuckets other then m0 else ?m1)"
  have "hm_nbuckets other \<le> length (hm_buckets m2)"
    using m0(2) m0n m1 by (auto simp: m2_def hm_inv_def)
  then obtain m' where "copy_from (m2\<lparr>hm_nbuckets := hm_nbuckets other, hm_capacity := hm_capacity other\<rparr>) other = Inr m'"
    "hm_inv ok h m'" "hm_abs m' = hm_abs other"
    using copy_from_inv [OF other, of "m2\<lparr>hm_nbuckets := hm_nbuckets other, hm_capacity := hm_capacity other\<rparr>"]
    by simp blast
  then show thesis
    using m0(1) by (intro that [of m']) (auto simp: hm_assign_def Let_def m2_def)
qed

section \<open>Sequences of operations\<close>

datatype ('k, 'v) hm_op =
    HInsert 'k 'v | HErase 'k | HFindp 'k | HForce 'k 'v | HStore 'k 'v | HSize | HClear
  | HResize nat | HDynamic bool | HCopy

datatype 'v hm_out = Flag bool | Found "'v option" | Count nat | NoOut

fun hm_step :: "('k \<Rightarrow> 64 word) \<Rightarrow> ('k \<Rightarrow> 'k \<Rightarrow> bool) \<Rightarrow> ('k, 'v) HashMap \<Rightarrow> ('k, 'v) hm_op \<Rightarrow>
    ('v hm_out \<times> ('k, 'v) HashMap) res" where
  "hm_step h eq m (HInsert k v) = bnd (hm_insert h eq m k v) (\<lambda>(r, m'). Inr (Flag r, m'))"
| "hm_step h eq m (HErase k) = bnd (hm_erase h eq m k) (\<lambda>(r, m'). Inr (Flag r, m'))"
| "hm_step h eq m (HFindp k) = bnd (findp h eq m k) (\<lambda>r. Inr (Found r, m))"
| "hm_step h eq m (HForce k v) = bnd (find_pair_force h eq m k v) (\<lambda>(e, m'). Inr (Found (Some (snd e)), m'))"
| "hm_step h eq m (HStore k v) = bnd (findp h eq m k) (\<lambda>r. if r = None then Inr (Flag False, m)
     else bnd (store_value h eq m k v) (\<lambda>m'. Inr (Flag True, m')))"
| "hm_step h eq m HSize = Inr (Count (hm_size m), m)"
| "hm_step h eq m HClear = Inr (NoOut, hm_clear m)"
| "hm_step h eq m (HResize n) = bnd (resize h m n) (\<lambda>m'. Inr (NoOut, m'))"
| "hm_step h eq m (HDynamic b) = Inr (NoOut, set_dynamic_resizing b m)"
| "hm_step h eq m HCopy = bnd (HashMap_copy m) (\<lambda>m'. Inr (NoOut, m'))"

text \<open>The same operations on a finite map.\<close>

fun map_step :: "('k \<rightharpoonup> 'v) \<Rightarrow> ('k, 'v) hm_op \<Rightarrow> ('v hm_out \<times> ('k \<rightharpoonup> 'v)) res" where
  "map_step M (HInsert k v) = Inr (Flag (M k = None), M(k \<mapsto> v))"
| "map_step M (HErase k) = Inr (Flag (M k \<noteq> None), M(k := None))"
| "map_step M (HFindp k) = Inr (Found (M k), M)"
| "map_step M (HForce k v) = (case M k of None \<Rightarrow> Inr (Found (Some v), M(k \<mapsto> v)) | Some w \<Rightarrow> Inr (Found (Some w), M))"
| "map_step M (HStore k v) = (case M k of None \<Rightarrow> Inr (Flag False, M) | Some w \<Rightarrow> Inr (Flag True, M(k \<mapsto> v)))"
| "map_step M HSize = Inr (Count (card (dom M)), M)"
| "map_step M HClear = Inr (NoOut, Map.empty)"
| "map_step M (HResize n) = Inr (NoOut, M)"
| "map_step M (HDynamic b) = Inr (NoOut, M)"
| "map_step M HCopy = Inr (NoOut, M)"

fun op_key :: "('k \<Rightarrow> bool) \<Rightarrow> ('k, 'v) hm_op \<Rightarrow> bool" where
  "op_key ok (HInsert k v) = ok k"
| "op_key ok (HErase k) = ok k"
| "op_key ok (HFindp k) = ok k"
| "op_key ok (HForce k v) = ok k"
| "op_key ok (HStore k v) = ok k"
| "op_key ok _ = True"

section \<open>The contract of a key type\<close>

text \<open>On valid keys \<open>operator==\<close> is equality; equal keys then have the same hash code.\<close>

locale hash_key =
  fixes ok :: "'k \<Rightarrow> bool" and h :: "'k \<Rightarrow> 64 word" and eq :: "'k \<Rightarrow> 'k \<Rightarrow> bool"
  assumes eq_iff: "ok a \<Longrightarrow> ok b \<Longrightarrow> eq a b \<longleftrightarrow> a = b"
begin

lemma chain_pos_None:
  "\<forall>e\<in>set es. ok (fst e) \<Longrightarrow> ok k \<Longrightarrow> chain_pos eq k es = None \<longleftrightarrow> map_of es k = None"
  by (induction es) (auto simp: eq_iff)

lemma chain_pos_Some:
  "\<forall>e\<in>set es. ok (fst e) \<Longrightarrow> ok k \<Longrightarrow> chain_pos eq k es = Some i \<Longrightarrow>
   i < length es \<and> fst (es ! i) = k \<and> map_of es k = Some (snd (es ! i))"
  by (induction es arbitrary: i) (auto simp: eq_iff split: if_splits)

lemma found:
  assumes "hm_inv ok h m" and "ok k" and b: "b = home h (hm_nbuckets m) k"
  shows "bucket h (hm_nbuckets m) k = Inr b" and "arr_get (hm_buckets m) b = Inr (hm_buckets m ! b)"
    and "arr_set (hm_buckets m) b es = Inr ((hm_buckets m)[b := es])"
    and "chain_pos eq k (hm_buckets m ! b) = None \<longleftrightarrow> hm_abs m k = None"
    and "chain_pos eq k (hm_buckets m ! b) = Some i \<Longrightarrow> i < length (hm_buckets m ! b) \<and>
      fst (hm_buckets m ! b ! i) = k \<and> hm_abs m k = Some (snd (hm_buckets m ! b ! i))"
  using hm_inv_chain [OF assms(1) b] assms(1,2) chain_pos_None [of "hm_buckets m ! b" k]
    chain_pos_Some [of "hm_buckets m ! b" k i]
  by (simp_all add: hm_inv_def b)

lemma find_pair_abs:
  assumes "hm_inv ok h m" and "ok k"
  shows "find_pair h eq m k = Inr (map_option (Pair k) (hm_abs m k))"
proof (cases "chain_pos eq k (hm_buckets m ! home h (hm_nbuckets m) k)")
  case None
  then show ?thesis using found [OF assms refl] by (simp add: find_pair_def)
next
  case (Some i)
  with found(5) [OF assms refl Some] found [OF assms refl] show ?thesis
    by (auto simp: find_pair_def prod_eq_iff)
qed

lemma findp_abs: "hm_inv ok h m \<Longrightarrow> ok k \<Longrightarrow> findp h eq m k = Inr (hm_abs m k)"
  by (simp add: findp_def find_pair_abs option.map_comp comp_def option.map_ident)

lemma replaced:
  assumes inv: "hm_inv ok h m" and ok: "ok k" and b: "b = home h (hm_nbuckets m) k"
    and i: "chain_pos eq k (hm_buckets m ! b) = Some i"
    and m': "m' = m\<lparr>hm_buckets := (hm_buckets m)[b := (hm_buckets m ! b)[i := (fst (hm_buckets m ! b ! i), v)]]\<rparr>"
  shows "hm_inv ok h m' \<and> hm_abs m' = (hm_abs m)(k \<mapsto> v)"
proof -
  let ?es = "hm_buckets m ! b" and ?es' = "(hm_buckets m ! b)[i := (k, v)]"
  note ch = hm_inv_chain [OF inv b] and f = found(5) [OF inv ok b i]
  have u: "map_of ?es' = (map_of ?es)(k \<mapsto> v)" "map fst ?es' = map fst ?es"
    using map_of_update_at [OF ch(3)] f by blast+
  have keys: "ok (fst e) \<and> home h (hm_nbuckets m) (fst e) = b" if "e \<in> set ?es'" for e
  proof -
    have "fst e \<in> set (map fst ?es)" using that unfolding u(2) [symmetric] by simp
    then obtain e' where "e' \<in> set ?es" "fst e' = fst e" by auto
    with ch(5) [of e'] show ?thesis by simp
  qed
  have m'': "m' = m\<lparr>hm_buckets := (hm_buckets m)[b := ?es'], hm_n := hm_n m\<rparr>"
    using f m' by (cases m) simp
  have "distinct (map fst ?es')" using u(2) ch(3) by simp
  note upd = hm_inv_update [OF inv b this keys _ m'']
  show ?thesis
    using upd ch(4) hm_inv_chain(4) [OF inv refl] u(1) b by (auto simp: fun_eq_iff)
qed

lemma link_new_abs:
  assumes inv: "hm_inv ok h m" and ok: "ok k" and new: "hm_abs m k = None"
  shows "\<exists>m'. link_new h m k v = Inr m' \<and> hm_inv ok h m' \<and> hm_abs m' = (hm_abs m)(k \<mapsto> v) \<and>
    hm_default_value m' = hm_default_value m"
proof -
  obtain m0 where m0: "resize h m (hm_nbuckets m + 1) = Inr m0" "hm_inv ok h m0" "hm_abs m0 = hm_abs m"
    "hm_n m0 = hm_n m" "hm_default_value m0 = hm_default_value m"
    by (rule resize_inv [OF inv])
  define m1 where "m1 = (if hm_n m \<ge> hm_capacity m then m0 else m)"
  have m1: "(if hm_n m \<ge> hm_capacity m then resize h m (hm_nbuckets m + 1) else Inr m) = Inr m1"
    "hm_inv ok h m1" "hm_abs m1 = hm_abs m" "hm_default_value m1 = hm_default_value m"
    using m0 inv by (simp_all add: m1_def)
  define b where b: "b = home h (hm_nbuckets m1) k"
  let ?es = "hm_buckets m1 ! b"
  let ?m = "m1\<lparr>hm_buckets := (hm_buckets m1)[b := (k, v) # ?es], hm_n := hm_n m1 + 1\<rparr>"
  note ch = hm_inv_chain [OF m1(2) b]
  have k: "map_of ?es k = None" using ch(4) new m1(3) by simp
  have "distinct (map fst ((k, v) # ?es))" using ch(3) k by (simp add: map_of_eq_None_iff)
  moreover have "ok (fst e) \<and> home h (hm_nbuckets m1) (fst e) = b" if "e \<in> set ((k, v) # ?es)" for e
    using that ch(5) [of e] ok b by auto
  moreover have "hm_n m1 + 1 + length ?es = hm_n m1 + length ((k, v) # ?es)" by simp
  ultimately have "hm_inv ok h ?m \<and>
      (\<forall>k'. hm_abs ?m k' = (if home h (hm_nbuckets m1) k' = b then map_of ((k, v) # ?es) k' else hm_abs m1 k'))"
    using hm_inv_update [OF m1(2) b _ _ _ refl] by blast
  then have "hm_inv ok h ?m \<and> hm_abs ?m = (hm_abs m1)(k \<mapsto> v)"
    using hm_inv_chain(4) [OF m1(2) refl] b by (auto simp: fun_eq_iff)
  moreover have "link_new h m k v = Inr ?m"
    unfolding link_new_def m1(1) using found(1-3) [OF m1(2) ok b] by simp
  ultimately show ?thesis using m1(3,4) by simp
qed

lemma hm_insert_abs:
  assumes "hm_inv ok h m" and "ok k"
  shows "\<exists>m'. hm_insert h eq m k v = Inr (hm_abs m k = None, m') \<and> hm_inv ok h m' \<and>
    hm_abs m' = (hm_abs m)(k \<mapsto> v) \<and> hm_default_value m' = hm_default_value m"
proof (cases "hm_abs m k")
  case None
  then have "chain_pos eq k (hm_buckets m ! home h (hm_nbuckets m) k) = None"
    using found(4) [OF assms refl] by simp
  then show ?thesis
    using link_new_abs [OF assms None, of v] None found(1,2) [OF assms refl]
    by (auto simp: hm_insert_def)
next
  case (Some w)
  then obtain i where i: "chain_pos eq k (hm_buckets m ! home h (hm_nbuckets m) k) = Some i"
    using found(4) [OF assms refl] by auto
  show ?thesis
    using replaced [OF assms refl i refl, of v] i found(1-3) [OF assms refl] Some
    by (simp add: hm_insert_def)
qed

lemma store_value_abs:
  assumes "hm_inv ok h m" and "ok k" and "hm_abs m k = Some w"
  shows "\<exists>m'. store_value h eq m k v = Inr m' \<and> hm_inv ok h m' \<and> hm_abs m' = (hm_abs m)(k \<mapsto> v)"
proof -
  obtain i where i: "chain_pos eq k (hm_buckets m ! home h (hm_nbuckets m) k) = Some i"
    using found(4) [OF assms(1,2) refl] assms(3) by auto
  show ?thesis
    using replaced [OF assms(1,2) refl i refl, of v] i found(1-3) [OF assms(1,2) refl]
    by (simp add: store_value_def)
qed

lemma find_pair_force_abs:
  assumes "hm_inv ok h m" and "ok k"
  shows "\<exists>m'. find_pair_force h eq m k d = Inr ((k, case hm_abs m k of None \<Rightarrow> d | Some v \<Rightarrow> v), m') \<and>
    hm_inv ok h m' \<and> hm_abs m' = (if hm_abs m k = None then (hm_abs m)(k \<mapsto> d) else hm_abs m) \<and>
    hm_default_value m' = hm_default_value m"
proof (cases "hm_abs m k")
  case None
  then have "chain_pos eq k (hm_buckets m ! home h (hm_nbuckets m) k) = None"
    using found(4) [OF assms refl] by simp
  then show ?thesis
    using link_new_abs [OF assms None, of d] None found(1,2) [OF assms refl]
    by (auto simp: find_pair_force_def)
next
  case (Some w)
  then obtain i where i: "chain_pos eq k (hm_buckets m ! home h (hm_nbuckets m) k) = Some i"
    using found(4) [OF assms refl] by auto
  show ?thesis
    using found(5) [OF assms refl i] i found(1,2) [OF assms refl] Some assms(1)
    by (simp add: find_pair_force_def prod_eq_iff)
qed

lemma hm_erase_abs:
  assumes inv: "hm_inv ok h m" and ok: "ok k"
  shows "\<exists>m'. hm_erase h eq m k = Inr (hm_abs m k \<noteq> None, m') \<and> hm_inv ok h m' \<and>
    hm_abs m' = (hm_abs m)(k := None) \<and> hm_default_value m' = hm_default_value m"
proof (cases "hm_abs m k")
  case None
  then show ?thesis
    using found [OF assms refl] inv by (auto simp: hm_erase_def fun_upd_idem)
next
  case (Some w)
  define b where b: "b = home h (hm_nbuckets m) k"
  let ?es = "hm_buckets m ! b"
  obtain i where i: "chain_pos eq k ?es = Some i"
    using found(4) [OF assms b] Some by auto
  let ?es' = "take i ?es @ drop (Suc i) ?es"
  let ?m = "m\<lparr>hm_buckets := (hm_buckets m)[b := ?es'], hm_n := hm_n m - 1\<rparr>"
  note ch = hm_inv_chain [OF inv b] and f = found(5) [OF assms b i]
  have sub: "set ?es' \<subseteq> set ?es"
    using set_take_subset [of i ?es] set_drop_subset [of "Suc i" ?es] by simp
  have es: "?es = take i ?es @ ?es ! i # drop (Suc i) ?es"
    using f by (simp add: id_take_nth_drop)
  then have "map fst ?es = map fst (take i ?es) @ fst (?es ! i) # map fst (drop (Suc i) ?es)"
    by (metis list.simps(9) map_append)
  then have "distinct (map fst ?es')"
    using ch(3) by (metis distinct_append distinct.simps(2) disjoint_insert(1) list.simps(15) map_append)
  moreover have "ok (fst e) \<and> home h (hm_nbuckets m) (fst e) = b" if "e \<in> set ?es'" for e
    using that sub ch(5) [of e] by blast
  moreover have "length ?es \<le> hm_n m" "0 < length ?es"
    using length_concat_update [of b "take (hm_nbuckets m) (hm_buckets m)" "[]"] inv ch(1,2) f
    by (auto simp: hm_inv_def)
  then have "hm_n m - 1 + length ?es = hm_n m + length ?es'"
    using f by simp
  ultimately have m: "hm_inv ok h ?m \<and>
      (\<forall>k'. hm_abs ?m k' = (if home h (hm_nbuckets m) k' = b then map_of ?es' k' else hm_abs m k'))"
    using hm_inv_update [OF inv b _ _ _ refl] by blast
  have "map_of ?es' = (map_of ?es)(k := None)"
    using map_of_remove_at [OF ch(3)] f by blast
  with m have "hm_inv ok h ?m \<and> hm_abs ?m = (hm_abs m)(k := None)"
    using hm_inv_chain(4) [OF inv refl] b by (auto simp: fun_eq_iff)
  then show ?thesis
    using Some i found(1-3) [OF assms b] by (simp add: hm_erase_def)
qed

lemma hm_step_sim:
  assumes "hm_inv ok h m \<and> hm_abs m = M" and "op_key ok x"
  shows "sim (\<lambda>m M. hm_inv ok h m \<and> hm_abs m = M) (hm_step h eq m x) (map_step M x)"
proof (cases x)
  case (HInsert k v)
  with hm_insert_abs [of m k v] assms show ?thesis by auto
next
  case (HErase k)
  with hm_erase_abs [of m k] assms show ?thesis by auto
next
  case (HFindp k)
  with findp_abs [of m k] assms show ?thesis by auto
next
  case (HForce k v)
  with find_pair_force_abs [of m k v] assms show ?thesis by (auto split: option.splits)
next
  case (HStore k v)
  with findp_abs [of m k] store_value_abs [of m k _ v] assms show ?thesis
    by (auto split: option.splits)
next
  case HSize
  with hm_n_card [of ok h m] assms show ?thesis by (simp add: hm_size_def)
next
  case HClear
  with hm_clear_inv [of ok h m] assms show ?thesis by simp
next
  case (HResize n)
  obtain m' where "resize h m n = Inr m'" "hm_inv ok h m'" "hm_abs m' = hm_abs m"
    using assms(1) by (auto intro: resize_inv [of ok h m n])
  with HResize assms show ?thesis by simp
next
  case (HDynamic b)
  with hm_inv_set_dynamic_resizing(1) [of ok h b m] hm_inv_set_dynamic_resizing(2) [of b m] assms
  show ?thesis by simp
next
  case HCopy
  obtain m' where "HashMap_copy m = Inr m'" "hm_inv ok h m'" "hm_abs m' = hm_abs m"
    using assms(1) by (auto intro: HashMap_copy_inv [of ok h m])
  with HCopy assms show ?thesis by simp
qed

lemma refines_map:
  assumes "list_all (op_key ok) xs"
  shows "map_sum id (map_prod id hm_abs) (run_ops (hm_step h eq) (HashMap_ctor d) xs) = run_ops map_step Map.empty xs"
proof -
  have "sim (\<lambda>m M. hm_inv ok h m \<and> hm_abs m = M) (run_ops (hm_step h eq) (HashMap_ctor d) xs) (run_ops map_step Map.empty xs)"
    using hm_step_sim hm_inv_ctor [of ok h d] hm_abs_ctor [of d] assms
    by (intro run_ops_sim [where P = "op_key ok"]) auto
  then show ?thesis
    by (cases "run_ops map_step Map.empty xs") auto
qed

end

section \<open>Symbols as keys\<close>

text \<open>
  \<open>ArrayWrapper<char, ORDER_SYMBOL_LEN>\<close>: a fixed array of bytes. A C string is given by the bytes
  before its terminating NUL. The hash code is the first four bytes read as an \<open>int32_t\<close>; two
  symbols are compared by the free \<open>operator==\<close>, with \<open>strcmp\<close>.
\<close>

type_synonym symbol = "byte list"

definition ArrayWrapper_default :: symbol where
  "ArrayWrapper_default = replicate ORDER_SYMBOL_LEN 0"

definition cstr :: "byte list \<Rightarrow> byte list" where
  "cstr bs = takeWhile (\<lambda>c. c \<noteq> 0) bs"

definition aw_assign_str :: "byte list \<Rightarrow> symbol" where
  "aw_assign_str str =
     (let n = length (cstr str)
      in if n \<ge> ORDER_SYMBOL_LEN then replicate ORDER_SYMBOL_LEN 0
         else take n str @ replicate (ORDER_SYMBOL_LEN - n) 0)"

definition aw_hashcode :: "symbol \<Rightarrow> 64 word" where
  "aw_hashcode s = scast (ucast (le_to_word (take 4 s)) :: 32 word)"

definition aw_eq :: "symbol \<Rightarrow> symbol \<Rightarrow> bool" where
  "aw_eq a b \<longleftrightarrow> cstr a = cstr b"

text \<open>A symbol is canonical when it has a NUL and only NULs from its first NUL on.\<close>

definition canonical :: "symbol \<Rightarrow> bool" where
  "canonical s \<longleftrightarrow> length (cstr s) < ORDER_SYMBOL_LEN \<and>
     s = cstr s @ replicate (ORDER_SYMBOL_LEN - length (cstr s)) 0"

interpretation symbol_key: hash_key canonical aw_hashcode aw_eq
  by unfold_locales (metis aw_eq_def canonical_def)

lemma length_cstr_le: "length (cstr bs) \<le> length bs"
  by (simp add: cstr_def length_takeWhile_le)

lemma cstr_no_nul: "\<forall>c\<in>set s. c \<noteq> 0 \<Longrightarrow> cstr (s @ replicate n 0) = s"
  by (cases n) (simp_all add: cstr_def takeWhile_append2 takeWhile_eq_all_conv)

lemma canonical_padded:
  "\<forall>c\<in>set s. c \<noteq> 0 \<Longrightarrow> length s < ORDER_SYMBOL_LEN \<Longrightarrow>
   canonical (s @ replicate (ORDER_SYMBOL_LEN - length s) 0)"
  by (simp add: canonical_def cstr_no_nul)

lemma set_cstr: "c \<in> set (cstr bs) \<Longrightarrow> c \<noteq> 0"
  by (auto simp: cstr_def dest: set_takeWhileD)

lemma take_cstr: "take (length (cstr bs)) bs = cstr bs"
  by (simp add: cstr_def takeWhile_eq_take [symmetric])

lemma canonical_assign_str: "canonical (aw_assign_str str)"
  using canonical_padded [of "cstr str"] canonical_padded [of "[]"] set_cstr [of _ str]
  by (auto simp: aw_assign_str_def Let_def take_cstr ORDER_SYMBOL_LEN_def)

text \<open>
  \<open>SynapseElement::get_or_create\<close>: the value under a symbol, inserted with a default when there is
  none, and whether an entry was created. None is the NULL it returns when the insertion fails.
\<close>

definition get_or_create :: "(symbol, 'v) HashMap \<Rightarrow> bool \<Rightarrow> symbol \<Rightarrow> 'v \<Rightarrow>
    ('v option \<times> bool \<times> (symbol, 'v) HashMap) res" where
  "get_or_create m entry_created s default_value =
     bnd (find_pair aw_hashcode aw_eq m s) (\<lambda>p. case p of
         None \<Rightarrow> bnd (hm_insert aw_hashcode aw_eq m s default_value) (\<lambda>(inserted, m').
           if \<not> inserted then Inr (None, entry_created, m')
           else bnd (find_pair aw_hashcode aw_eq m' s) (\<lambda>p'. case p' of
                    None \<Rightarrow> Inl NullDeref
                  | Some e \<Rightarrow> Inr (Some (snd e), True, m')))
       | Some e \<Rightarrow> Inr (Some (snd e), False, m))"

abbreviation sym_inv :: "(symbol, 'v) HashMap \<Rightarrow> bool" where
  "sym_inv m \<equiv> hm_inv canonical aw_hashcode m"

lemma get_or_create_abs:
  assumes "sym_inv m" and "canonical s"
  shows "\<exists>m'. get_or_create m c s d =
      Inr (Some (case hm_abs m s of None \<Rightarrow> d | Some v \<Rightarrow> v), hm_abs m s = None, m') \<and> sym_inv m' \<and>
    hm_abs m' = (case hm_abs m s of None \<Rightarrow> (hm_abs m)(s \<mapsto> d) | Some v \<Rightarrow> hm_abs m) \<and>
    hm_default_value m' = hm_default_value m"
proof (cases "hm_abs m s")
  case None
  obtain m' where m': "hm_insert aw_hashcode aw_eq m s d = Inr (True, m')" "sym_inv m'"
    "hm_abs m' = (hm_abs m)(s \<mapsto> d)" "hm_default_value m' = hm_default_value m"
    using symbol_key.hm_insert_abs [OF assms, of d] None by auto
  then show ?thesis
    using symbol_key.find_pair_abs [OF assms] symbol_key.find_pair_abs [OF m'(2) assms(2)] None
    by (simp add: get_or_create_def)
next
  case (Some v)
  then show ?thesis
    using symbol_key.find_pair_abs [OF assms] assms(1) by (simp add: get_or_create_def)
qed

section \<open>Properties\<close>

text \<open>
  Property C30. A symbol table behaves as a finite map: over any sequence of insertions, erasures,
  lookups, forced lookups, stores through a found pointer, clearing, resizing and copying, with
  canonical symbols as keys, every operation succeeds and returns what it would return on the map,
  and the table ends up standing for that map, whatever chains collide and whenever it grows.
\<close>

theorem hash_map_refines_map:
  assumes "list_all (op_key canonical) xs"
  shows "map_sum id (map_prod id hm_abs) (run_ops (hm_step aw_hashcode aw_eq) (HashMap_ctor d) xs) =
    run_ops map_step Map.empty xs"
  using assms by (rule symbol_key.refines_map)

theorem hash_map_refines_map_witness:
  "let k = aw_assign_str [65, 66]; xs = [HInsert k (7::nat), HResize 1, HFindp k, HErase k, HSize]
   in list_all (op_key canonical) xs \<and>
     map_sum id (map_prod id hm_abs) (run_ops (hm_step aw_hashcode aw_eq) (HashMap_ctor 0) xs) =
       Inr ([Flag True, NoOut, Found (Some 7), Flag True, Count 0], Map.empty)"
  unfolding Let_def
proof (intro conjI)
  have ran: "run_ops map_step Map.empty [HInsert k v, HResize 1, HFindp k, HErase k, HSize] =
      Inr ([Flag True, NoOut, Found (Some v), Flag True, Count 0], Map.empty)" for k :: symbol and v :: nat
    by simp
  let ?k = "aw_assign_str [65, 66]"
  let ?xs = "[HInsert ?k (7::nat), HResize 1, HFindp ?k, HErase ?k, HSize]"
  show ok: "list_all (op_key canonical) ?xs"
    by (simp add: canonical_assign_str)
  show "map_sum id (map_prod id hm_abs) (run_ops (hm_step aw_hashcode aw_eq) (HashMap_ctor 0) ?xs) =
      Inr ([Flag True, NoOut, Found (Some 7), Flag True, Count 0], Map.empty)"
    unfolding hash_map_refines_map [OF ok] by (rule ran)
qed

text \<open>
  The hash code does not agree with \<open>operator==\<close> on symbols that are not canonical: of two
  symbols that compare equal, one inserted, the other is not found.
\<close>

theorem non_canonical_symbol_is_lost:
  "aw_eq [65, 0, 1, 0, 0, 0, 0, 0, 0, 0] [65, 0, 0, 0, 0, 0, 0, 0, 0, 0] \<and>
   bnd (hm_insert aw_hashcode aw_eq (HashMap_ctor (0::nat)) [65, 0, 1, 0, 0, 0, 0, 0, 0, 0] 7)
     (\<lambda>(_, m). findp aw_hashcode aw_eq m [65, 0, 0, 0, 0, 0, 0, 0, 0, 0]) = Inr None"
proof -
  let ?a = "[65, 0, 1, 0, 0, 0, 0, 0, 0, 0] :: symbol" and ?b = "[65, 0, 0, 0, 0, 0, 0, 0, 0, 0] :: symbol"
  let ?m = "HashMap_ctor 0 :: (symbol, nat) HashMap"
  have h: "aw_hashcode ?a = 65601" "aw_hashcode ?b = 65"
    by (simp_all add: aw_hashcode_def le_to_word_def)
  have b: "bucket aw_hashcode 127 ?a = Inr 69" "bucket aw_hashcode 127 ?b = Inr 65"
    by (simp_all add: bucket_def h)
  have m: "hm_nbuckets ?m = 127" "hm_buckets ?m = replicate 127 []" "hm_n ?m = 0" "hm_capacity ?m = 254"
    by (simp_all add: HashMap_ctor_def hm_initialize_def set_dynamic_resizing_def DEFAULT_INITIAL_NBUCKETS_def
        MAX_NBUCKETS_def DEFAULT_RESIZE_THRESHOLD_def)
  have "hm_insert aw_hashcode aw_eq ?m ?a 7 = Inr (True, ?m\<lparr>hm_buckets := (replicate 127 [])[69 := [(?a, 7)]], hm_n := 1\<rparr>)"
    by (simp add: hm_insert_def link_new_def m b arr_get_def arr_set_def)
  then show ?thesis
    by (simp add: findp_def find_pair_def m b arr_get_def aw_eq_def cstr_def)
qed

end
