(* ===== verification/Stream_Elements.thy ===== *)
theory Stream_Elements
  imports Hash_Map
begin

text \<open>
  The elements around the indicators (elements/standard): \<open>SourceSplit\<close>, which turns a source message
  into one value message per field, the two tees, the \<open>Timestamper\<close> and the symbol filter. An element
  that can emit several packets returns the list of actions in the order the code takes them. A
  packet given to \<open>Timestamper\<close> is taken to be unshared, so that \<open>put(0)\<close> returns the same packet.
\<close>

section \<open>SourceSplit\<close>

record SourceSplit =
  close_port :: int
  high_port :: int
  low_port :: int
  open_port :: int
  volume_port :: int

definition SourceSplit_ctor :: SourceSplit where
  "SourceSplit_ctor = \<lparr>close_port = - 1, high_port = - 1, low_port = - 1, open_port = - 1, volume_port = - 1\<rparr>"

text \<open>
  \<open>configure\<close>: what \<open>Args\<close> read for each keyword, None for an absent one; an incomplete parse stores
  nothing.
\<close>

definition ss_configure :: "(int option \<times> int option \<times> int option \<times> int option \<times> int option) option \<Rightarrow>
    SourceSplit \<Rightarrow> int \<times> SourceSplit" where
  "ss_configure args ss =
     (case args of None \<Rightarrow> (0, ss)
      | Some (c, h, l, op, v) \<Rightarrow>
          (0, \<lparr>close_port = (case c of None \<Rightarrow> close_port ss | Some x \<Rightarrow> x),
               high_port = (case h of None \<Rightarrow> high_port ss | Some x \<Rightarrow> x),
               low_port = (case l of None \<Rightarrow> low_port ss | Some x \<Rightarrow> x),
               open_port = (case op of None \<Rightarrow> open_port ss | Some x \<Rightarrow> x),
               volume_port = (case v of None \<Rightarrow> volume_port ss | Some x \<Rightarrow> x)\<rparr>))"

definition split_type :: "PacketAppType \<Rightarrow> PacketAppType" where
  "split_type t = (if t = MSG_ADD_SOURCE then MSG_ADD else if t = MSG_UPDATE_SOURCE then MSG_UPDATE
     else if t = MSG_INIT_SOURCE then MSG_INIT else MSG_UPDATE)"

definition sendMsg :: "nat \<Rightarrow> Packet \<Rightarrow> int \<Rightarrow> fixedpt \<Rightarrow> 64 word \<Rightarrow> PacketAppType \<Rightarrow> action" where
  "sendMsg nout p out_port value timestamp msg_type =
     (if length (pdata p) < sizeof_MsgValue then discard_packet p
      else checked_output_push nout out_port (set_packet_app_type (split_type msg_type)
             (p\<lparr>pdata := overwrite (pdata p)
                 (put_MsgValue \<lparr>mv_value = fromC value, mv_timestamp = timestamp\<rparr>)\<rparr>)))"

definition ss_push :: "nat \<Rightarrow> SourceSplit \<Rightarrow> Packet \<Rightarrow> action list res" where
  "ss_push nout ss p =
     (if get_packet_app_type p \<noteq> MSG_ADD_SOURCE \<and> get_packet_app_type p \<noteq> MSG_UPDATE_SOURCE \<and>
         get_packet_app_type p \<noteq> MSG_INIT_SOURCE
      then Inr [discard_packet p]
      else bnd (get_MsgSource (pdata p)) (\<lambda>m.
        let send = (\<lambda>port value. if port > - 1
              then [sendMsg nout p port value (ms_timestamp m) (get_packet_app_type p)] else [])
        in Inr (send (open_port ss) (ms_open m) @ send (high_port ss) (ms_high m) @
                send (close_port ss) (ms_close m) @ send (low_port ss) (ms_low m) @
                send (volume_port ss) (fixedpt_fromint (sint (ms_volume m))) @ [discard_packet p])))"

section \<open>Tees\<close>

definition COPY_MSG_MAX_LEN :: nat where "COPY_MSG_MAX_LEN = 256"

text \<open>
  \<open>configure\<close> of both tees: the number of arms read, None on a parse error, against the number of
  outputs; \<open>errh->error\<close> returns a negative number.
\<close>

definition tee_configure :: "nat \<Rightarrow> nat option option \<Rightarrow> int" where
  "tee_configure nout args =
     (case args of None \<Rightarrow> - 1
      | Some n \<Rightarrow> if (case n of None \<Rightarrow> nout | Some k \<Rightarrow> k) \<noteq> nout then - 22 else 0)"

text \<open>\<open>output(i).push\<close>: an output that does not exist fails the assertion in \<open>Element::port\<close>.\<close>

definition output_push :: "nat \<Rightarrow> int \<Rightarrow> Packet \<Rightarrow> action res" where
  "output_push nout i p = (if 0 \<le> i \<and> i < int nout then Inr (PushOut (nat i) p) else Inl AssertFailed)"

text \<open>
  \<open>ReuseTee::push\<close>: the data is kept in a buffer and written again into every packet that goes out.
\<close>

definition rewrite_packet :: "byte list \<Rightarrow> nat \<Rightarrow> PacketAppType \<Rightarrow> Packet \<Rightarrow> Packet res" where
  "rewrite_packet buf copy_len type_copy q =
     (if \<not> length (pdata q) < COPY_MSG_MAX_LEN then Inl AssertFailed
      else Inr (set_packet_app_type type_copy (q\<lparr>pdata := overwrite (pdata q) (take copy_len buf)\<rparr>)))"

definition ReuseTee_push :: "nat \<Rightarrow> Packet \<Rightarrow> action list res" where
  "ReuseTee_push n p =
     (if \<not> length (pdata p) < COPY_MSG_MAX_LEN then Inl AssertFailed
      else let copy_len = length (pdata p);
               copy_buffer = pdata p @ replicate (COPY_MSG_MAX_LEN - copy_len) 0;
               type_copy = get_packet_app_type p
           in bnd (iter_res (\<lambda>acts i. bnd (rewrite_packet copy_buffer copy_len type_copy p) (\<lambda>q.
                      bnd (output_push n (int i) q) (\<lambda>a. Inr (acts @ [a])))) [] [0..<n - 1]) (\<lambda>acts.
              bnd (rewrite_packet copy_buffer copy_len type_copy p) (\<lambda>q.
              bnd (output_push n (int n - 1) q) (\<lambda>a. Inr (acts @ [a])))))"

definition UniqueTee_push :: "nat \<Rightarrow> Packet \<Rightarrow> action list res" where
  "UniqueTee_push n p =
     bnd (iter_res (\<lambda>acts i. bnd (output_push n (int i) p) (\<lambda>a. Inr (acts @ [a]))) [] [0..<n - 1]) (\<lambda>acts.
     bnd (output_push n (int n - 1) p) (\<lambda>a. Inr (acts @ [a])))"

section \<open>Timestamper\<close>

record Timestamper =
  tst_active :: bool
  tst_print_avg :: bool
  tst_replace_tstamp :: bool
  tst_total_cycles :: "64 word"
  tst_running_count :: "64 word"

definition Timestamper_ctor :: Timestamper where
  "Timestamper_ctor = \<lparr>tst_active = True, tst_print_avg = False, tst_replace_tstamp = True,
     tst_total_cycles = 0, tst_running_count = 0\<rparr>"

definition tst_configure :: "(bool option \<times> bool option) option \<Rightarrow> Timestamper \<Rightarrow> int \<times> Timestamper" where
  "tst_configure args t =
     (case args of None \<Rightarrow> (0, t)
      | Some (pa, rt) \<Rightarrow> (0, t\<lparr>tst_print_avg := (case pa of None \<Rightarrow> tst_print_avg t | Some b \<Rightarrow> b),
                               tst_replace_tstamp := (case rt of None \<Rightarrow> tst_replace_tstamp t | Some b \<Rightarrow> b)\<rparr>))"

text \<open>\<open>print_avg_latency\<close>: \<open>tsc\<close> is the counter reading; the average it prints is the first result.\<close>

definition print_avg_latency :: "64 word \<Rightarrow> 64 word \<Rightarrow> Timestamper \<Rightarrow> (64 word \<times> Timestamper) res" where
  "print_avg_latency tsc tstamp t =
     (let t' = t\<lparr>tst_total_cycles := tst_total_cycles t + (tsc - tstamp), tst_running_count := tst_running_count t + 1\<rparr>
      in if tst_running_count t' = 0 then Inl DivByZero
         else Inr (tst_total_cycles t' div tst_running_count t', t'))"

text \<open>The 64-bit timestamp field at an offset of the data.\<close>

definition put64_at :: "byte list \<Rightarrow> nat \<Rightarrow> 64 word \<Rightarrow> byte list" where
  "put64_at bs off w = take off bs @ word_to_le w @ drop (off + 8) bs"

definition stamp_at :: "64 word \<Rightarrow> 64 word \<Rightarrow> Timestamper \<Rightarrow> Packet \<Rightarrow> nat \<Rightarrow> (Packet \<times> Timestamper) res" where
  "stamp_at tsc tsc2 t p off =
     bnd (if tst_print_avg t then bnd (get64 (pdata p) off) (\<lambda>ts. bnd (print_avg_latency tsc ts t) (\<lambda>(_, t'). Inr t'))
          else Inr t) (\<lambda>t'.
       if tst_replace_tstamp t'
       then (if off + 8 \<le> length (pdata p) then Inr (p\<lparr>pdata := put64_at (pdata p) off tsc2\<rparr>, t')
             else Inl OutOfBounds)
       else Inr (p, t'))"

definition tst_simple_action :: "64 word \<Rightarrow> 64 word \<Rightarrow> Timestamper \<Rightarrow> Packet \<Rightarrow> (Packet \<times> Timestamper) res" where
  "tst_simple_action tsc tsc2 t p =
     (if \<not> tst_active t then Inr (p, t)
      else if get_packet_app_type p = MSG_UPDATE_SOURCE then stamp_at tsc tsc2 t p 32
      else if get_packet_app_type p = MSG_UPDATE then stamp_at tsc tsc2 t p 16
      else Inr (p, t))"

section \<open>MsgFilterSymbol\<close>

datatype FilterMode = ALLOWING | RESTRICTIVE

record MsgFilterSymbol =
  mfs_symbol_map :: "(symbol, bool) HashMap"
  mfs_filter_mode :: FilterMode
  mfs_active :: bool

definition MsgFilterSymbol_ctor :: MsgFilterSymbol where
  "MsgFilterSymbol_ctor = \<lparr>mfs_symbol_map = HashMap_ctor False, mfs_filter_mode = RESTRICTIVE, mfs_active = True\<rparr>"

primrec insert_symbols :: "(symbol, bool) HashMap \<Rightarrow> byte list list \<Rightarrow> (int \<times> (symbol, bool) HashMap) res" where
  "insert_symbols m [] = Inr (0, m)"
| "insert_symbols m (w # ws) =
     bnd (hm_insert aw_hashcode aw_eq m (aw_assign_str w) True) (\<lambda>(inserted, m').
       if \<not> inserted then Inr (- 1, m') else insert_symbols m' ws)"

text \<open>
  \<open>configure\<close>: the ACTIVE flag if it was read, and the words of ALLOW_SYMBOLS and RESTRICT_SYMBOLS as
  \<open>cp_spacevec\<close> splits them.
\<close>

definition mfs_configure :: "bool option \<Rightarrow> byte list list \<Rightarrow> byte list list \<Rightarrow> MsgFilterSymbol \<Rightarrow>
    (int \<times> MsgFilterSymbol) res" where
  "mfs_configure act allow restrict f =
     (let f1 = f\<lparr>mfs_active := (case act of None \<Rightarrow> mfs_active f | Some b \<Rightarrow> b)\<rparr>;
          f2 = (if allow \<noteq> [] then f1\<lparr>mfs_filter_mode := ALLOWING\<rparr>
                else if restrict \<noteq> [] then f1\<lparr>mfs_filter_mode := RESTRICTIVE\<rparr> else f1)
      in bnd (insert_symbols (mfs_symbol_map f2) (if allow \<noteq> [] then allow else restrict)) (\<lambda>(rc, m).
           Inr (rc, f2\<lparr>mfs_symbol_map := m\<rparr>)))"

text \<open>\<open>msg_trade->_symbol\<close> of the trade message at the beginning of the data.\<close>

definition trade_symbol :: "byte list \<Rightarrow> symbol res" where
  "trade_symbol bs = (if 26 \<le> length bs then Inr (take ORDER_SYMBOL_LEN (drop 16 bs)) else Inl OutOfBounds)"

definition mfs_push :: "nat \<Rightarrow> MsgFilterSymbol \<Rightarrow> int \<Rightarrow> Packet \<Rightarrow> action res" where
  "mfs_push nout f port p =
     (if \<not> mfs_active f then Inr (checked_output_push nout port p)
      else if get_packet_app_type p \<noteq> MSG_TRADE then Inr (checked_output_push nout port p)
      else bnd (trade_symbol (pdata p)) (\<lambda>sy. bnd (find_pair aw_hashcode aw_eq (mfs_symbol_map f) sy) (\<lambda>pair.
             Inr (case mfs_filter_mode f of
                    RESTRICTIVE \<Rightarrow> if pair = None then checked_output_push nout port p else discard_packet p
                  | ALLOWING \<Rightarrow> if pair = None then discard_packet p else checked_output_push nout port p))))"

section \<open>What the elements do\<close>

lemma ss_push_values:
  assumes "t \<in> {MSG_ADD_SOURCE, MSG_UPDATE_SOURCE, MSG_INIT_SOURCE}"
  shows "ss_push nout ss \<lparr>pdata = put_MsgSource m @ rest, packet_app_type = t\<rparr> =
    Inr (map (\<lambda>(port, v). checked_output_push nout port
           \<lparr>pdata = put_MsgValue \<lparr>mv_value = fromC v, mv_timestamp = ms_timestamp m\<rparr> @ drop 24 (put_MsgSource m) @ rest,
            packet_app_type = split_type t\<rparr>)
         (filter (\<lambda>(port, v). port \<ge> 0)
           [(open_port ss, ms_open m), (high_port ss, ms_high m), (close_port ss, ms_close m), (low_port ss, ms_low m),
            (volume_port ss, fixedpt_fromint (sint (ms_volume m)))]) @
         [KillPkt \<lparr>pdata = put_MsgSource m @ rest, packet_app_type = t\<rparr>])"
  using assms
  by (auto simp: ss_push_def get_packet_app_type_def sendMsg_def sizeof_MsgValue_def discard_packet_def
      set_packet_app_type_def overwrite_def Let_def)

text \<open>
  \<open>SourceSplit\<close> sends each field where it is configured to go: for a source message of any
  of the three kinds, the value messages sent are those of the fields with a port, in the order
  open, high, close, low, volume, each with the timestamp of the source and the value type that
  belongs to its kind, and the source packet is discarded at the end.
\<close>

theorem source_split_fans_out:
  assumes "t \<in> {MSG_ADD_SOURCE, MSG_UPDATE_SOURCE, MSG_INIT_SOURCE}"
  shows "ss_push nout ss \<lparr>pdata = put_MsgSource m @ rest, packet_app_type = t\<rparr> =
    Inr (map (\<lambda>(port, v). checked_output_push nout port
           \<lparr>pdata = put_MsgValue \<lparr>mv_value = fromC v, mv_timestamp = ms_timestamp m\<rparr> @ drop 24 (put_MsgSource m) @ rest,
            packet_app_type = split_type t\<rparr>)
         (filter (\<lambda>(port, v). port \<ge> 0)
           [(open_port ss, ms_open m), (high_port ss, ms_high m), (close_port ss, ms_close m), (low_port ss, ms_low m),
            (volume_port ss, fixedpt_fromint (sint (ms_volume m)))]) @
         [KillPkt \<lparr>pdata = put_MsgSource m @ rest, packet_app_type = t\<rparr>])"
  using assms by (rule ss_push_values)

theorem source_split_fans_out_witness:
  "ss_push 1 (SourceSplit_ctor\<lparr>close_port := 0\<rparr>)
     \<lparr>pdata = put_MsgSource (MsgSource_ctor\<lparr>ms_close := 7\<rparr>), packet_app_type = MSG_UPDATE_SOURCE\<rparr> =
   Inr [PushOut 0 \<lparr>pdata = put_MsgValue \<lparr>mv_value = fromC 7, mv_timestamp = 0\<rparr> @
                     drop 24 (put_MsgSource (MsgSource_ctor\<lparr>ms_close := 7\<rparr>)), packet_app_type = MSG_UPDATE\<rparr>,
        KillPkt \<lparr>pdata = put_MsgSource (MsgSource_ctor\<lparr>ms_close := 7\<rparr>), packet_app_type = MSG_UPDATE_SOURCE\<rparr>]"
  using source_split_fans_out [of MSG_UPDATE_SOURCE 1 "SourceSplit_ctor\<lparr>close_port := 0\<rparr>" "MsgSource_ctor\<lparr>ms_close := 7\<rparr>" "[]"]
  by (simp add: SourceSplit_ctor_def checked_output_push_def split_type_def MsgSource_ctor_def)

lemma output_loop:
  "k \<le> n \<Longrightarrow> iter_res (\<lambda>acts i. bnd (output_push n (int i) p) (\<lambda>a. Inr (acts @ [a]))) acts [0..<k] =
   Inr (acts @ map (\<lambda>i. PushOut i p) [0..<k])"
  by (induction k) (simp_all add: iter_res_append output_push_def)

lemma tees_push:
  assumes "0 < n"
  shows "UniqueTee_push n p = Inr (map (\<lambda>i. PushOut i p) [0..<n]) \<and>
    ReuseTee_push n p = (if length (pdata p) < COPY_MSG_MAX_LEN then UniqueTee_push n p else Inl AssertFailed)"
proof -
  obtain k where n: "n = Suc k" using assms by (cases n) auto
  have u: "UniqueTee_push n p = Inr (map (\<lambda>i. PushOut i p) [0..<n])"
    by (simp add: UniqueTee_push_def n output_loop) (simp add: output_push_def)
  have "rewrite_packet (pdata p @ replicate (COPY_MSG_MAX_LEN - length (pdata p)) 0) (length (pdata p))
      (get_packet_app_type p) p = Inr p" if "length (pdata p) < COPY_MSG_MAX_LEN"
    using that by (cases p) (simp add: rewrite_packet_def overwrite_def set_packet_app_type_def get_packet_app_type_def)
  then have "ReuseTee_push n p = UniqueTee_push n p" if "length (pdata p) < COPY_MSG_MAX_LEN"
    using that by (simp add: ReuseTee_push_def UniqueTee_push_def)
  with u show ?thesis
    by (simp add: ReuseTee_push_def)
qed

text \<open>
  The two tees do the same: with at least one output and data shorter than the copy
  buffer, \<open>ReuseTee\<close> and \<open>UniqueTee\<close> push one packet with the data and type of the original to every
  output, in order; \<open>ReuseTee\<close> fails its assertion on longer packets.
\<close>

theorem tees_agree:
  assumes "0 < n"
  shows "UniqueTee_push n p = Inr (map (\<lambda>i. PushOut i p) [0..<n]) \<and>
    ReuseTee_push n p = (if length (pdata p) < COPY_MSG_MAX_LEN then UniqueTee_push n p else Inl AssertFailed)"
  using assms by (rule tees_push)

theorem tees_agree_witness:
  "let p = \<lparr>pdata = [1, 2], packet_app_type = MSG_ADD\<rparr>
   in UniqueTee_push 2 p = Inr [PushOut 0 p, PushOut 1 p] \<and> ReuseTee_push 2 p = Inr [PushOut 0 p, PushOut 1 p]"
  using tees_agree [of 2 "\<lparr>pdata = [1, 2], packet_app_type = MSG_ADD\<rparr>"]
  by (simp add: COPY_MSG_MAX_LEN_def numeral_2_eq_2)

lemma put64_at_MsgValue: "put64_at (put_MsgValue m @ rest) 16 w = put_MsgValue (m\<lparr>mv_timestamp := w\<rparr>) @ rest"
  by (simp add: put64_at_def put_MsgValue_def)

lemma put64_at_MsgSource: "put64_at (put_MsgSource m @ rest) 32 w = put_MsgSource (m\<lparr>ms_timestamp := w\<rparr>) @ rest"
  by (simp add: put64_at_def put_MsgSource_def)

text \<open>
  The \<open>Timestamper\<close> writes the time-stamp counter into update messages and changes
  nothing else: not their other fields, not the bytes behind the message, and no other message.
\<close>

theorem timestamper_stamps_updates:
  assumes "tst_active t" and "\<not> tst_print_avg t" and "tst_replace_tstamp t"
  shows "tst_simple_action a b t \<lparr>pdata = put_MsgValue v @ rest, packet_app_type = MSG_UPDATE\<rparr> =
      Inr (\<lparr>pdata = put_MsgValue (v\<lparr>mv_timestamp := b\<rparr>) @ rest, packet_app_type = MSG_UPDATE\<rparr>, t) \<and>
    tst_simple_action a b t \<lparr>pdata = put_MsgSource m @ rest, packet_app_type = MSG_UPDATE_SOURCE\<rparr> =
      Inr (\<lparr>pdata = put_MsgSource (m\<lparr>ms_timestamp := b\<rparr>) @ rest, packet_app_type = MSG_UPDATE_SOURCE\<rparr>, t) \<and>
    (packet_app_type p \<notin> {MSG_UPDATE, MSG_UPDATE_SOURCE} \<longrightarrow> tst_simple_action a b t p = Inr (p, t))"
  using assms by (simp add: tst_simple_action_def stamp_at_def get_packet_app_type_def put64_at_MsgValue put64_at_MsgSource)

theorem timestamper_stamps_updates_witness:
  "tst_simple_action 1 2 Timestamper_ctor \<lparr>pdata = put_MsgValue MsgValue_ctor @ [9], packet_app_type = MSG_UPDATE\<rparr> =
     Inr (\<lparr>pdata = put_MsgValue (MsgValue_ctor\<lparr>mv_timestamp := 2\<rparr>) @ [9], packet_app_type = MSG_UPDATE\<rparr>, Timestamper_ctor) \<and>
   tst_simple_action 1 2 Timestamper_ctor \<lparr>pdata = [], packet_app_type = MSG_ADD\<rparr> =
     Inr (\<lparr>pdata = [], packet_app_type = MSG_ADD\<rparr>, Timestamper_ctor)"
  using timestamper_stamps_updates [of Timestamper_ctor 1 2 MsgValue_ctor "[9]" MsgSource_ctor
      "\<lparr>pdata = [], packet_app_type = MSG_ADD\<rparr>"]
  by (simp add: Timestamper_ctor_def)

lemma insert_symbols_abs:
  assumes "sym_inv m" and "distinct (map aw_assign_str ws)" and "dom (hm_abs m) \<inter> aw_assign_str ` set ws = {}"
  shows "\<exists>m'. insert_symbols m ws = Inr (0, m') \<and> sym_inv m' \<and> dom (hm_abs m') = dom (hm_abs m) \<union> aw_assign_str ` set ws"
  using assms
proof (induction ws arbitrary: m)
  case (Cons w ws)
  then have none: "hm_abs m (aw_assign_str w) = None" by auto
  obtain m1 where m1: "hm_insert aw_hashcode aw_eq m (aw_assign_str w) True = Inr (True, m1)" "sym_inv m1"
    "hm_abs m1 = (hm_abs m)(aw_assign_str w \<mapsto> True)"
    using symbol_key.hm_insert_abs [OF Cons.prems(1) canonical_assign_str, of w True] none by auto
  have d: "dom (hm_abs m1) = insert (aw_assign_str w) (dom (hm_abs m))" using m1(3) by simp
  have "\<exists>m'. insert_symbols m1 ws = Inr (0, m') \<and> sym_inv m' \<and>
      dom (hm_abs m') = dom (hm_abs m1) \<union> aw_assign_str ` set ws"
    using Cons.prems(2,3) m1(2) by (intro Cons.IH) (simp_all add: d)
  with m1(1) d show ?case by auto
qed auto

text \<open>
  The symbol filter passes what it is told to: configured with distinct symbols to allow,
  it forwards exactly the trades of those symbols; configured with symbols to restrict, exactly the
  others; every other message is forwarded unchanged.
\<close>

theorem filter_passes_configured_symbols:
  assumes "distinct (map aw_assign_str ws)" and "ws \<noteq> []" and "canonical (mt_symbol m)"
  shows "\<exists>fa fr. mfs_configure None ws rs MsgFilterSymbol_ctor = Inr (0, fa) \<and>
    mfs_configure None [] ws MsgFilterSymbol_ctor = Inr (0, fr) \<and>
    (let p = \<lparr>pdata = put_MsgTrade m @ rest, packet_app_type = MSG_TRADE\<rparr>;
         listed = (mt_symbol m \<in> set (map aw_assign_str ws))
     in mfs_push nout fa port p = Inr (if listed then checked_output_push nout port p else KillPkt p) \<and>
        mfs_push nout fr port p = Inr (if listed then KillPkt p else checked_output_push nout port p)) \<and>
    (packet_app_type q \<noteq> MSG_TRADE \<longrightarrow> mfs_push nout fa port q = Inr (checked_output_push nout port q))"
proof -
  obtain m' where m': "insert_symbols (HashMap_ctor False) ws = Inr (0, m')" "sym_inv m'"
    "dom (hm_abs m') = aw_assign_str ` set ws"
    using insert_symbols_abs [OF hm_inv_ctor assms(1), of False] by auto
  have f: "find_pair aw_hashcode aw_eq m' (mt_symbol m) = Inr (map_option (Pair (mt_symbol m)) (hm_abs m' (mt_symbol m)))"
    by (rule symbol_key.find_pair_abs [OF m'(2) assms(3)])
  have l: "hm_abs m' (mt_symbol m) = None \<longleftrightarrow> mt_symbol m \<notin> aw_assign_str ` set ws"
    using m'(3) by (auto simp: domIff)
  have "length (mt_symbol m) = ORDER_SYMBOL_LEN"
    using assms(3) by (metis add_diff_inverse_nat canonical_def length_append length_replicate less_imp_not_less)
  then have t: "trade_symbol (put_MsgTrade m @ rest) = Inr (mt_symbol m)"
    by (simp add: trade_symbol_def put_MsgTrade_def ORDER_SYMBOL_LEN_def)
  let ?f = "\<lambda>mode. \<lparr>mfs_symbol_map = m', mfs_filter_mode = mode, mfs_active = True\<rparr>"
  have "mfs_configure None ws rs MsgFilterSymbol_ctor = Inr (0, ?f ALLOWING)"
    "mfs_configure None [] ws MsgFilterSymbol_ctor = Inr (0, ?f RESTRICTIVE)"
    using assms(2) m'(1) by (simp_all add: mfs_configure_def MsgFilterSymbol_ctor_def)
  then show ?thesis
    using t f l by (intro exI [of _ "?f ALLOWING"] exI [of _ "?f RESTRICTIVE"])
      (auto simp: mfs_push_def get_packet_app_type_def discard_packet_def Let_def)
qed

theorem filter_passes_configured_symbols_witness:
  "\<exists>fa. mfs_configure None [[65]] [] MsgFilterSymbol_ctor = Inr (0, fa) \<and>
    (let p = \<lparr>pdata = put_MsgTrade (MsgTrade_ctor\<lparr>mt_symbol := aw_assign_str [65]\<rparr>), packet_app_type = MSG_TRADE\<rparr>
     in mfs_push 1 fa 0 p = Inr (PushOut 0 p))"
  using filter_passes_configured_symbols [of "[[65]]" "MsgTrade_ctor\<lparr>mt_symbol := aw_assign_str [65]\<rparr>" "[]" "[]" 1 0]
  by (auto simp: canonical_assign_str Let_def checked_output_push_def)

end
