(* ===== verification/Circ_Array.thy ===== *)
theory Circ_Array
  imports Synapse_Prelude
begin

text \<open>
  The ring buffer of \<open>include/click/circ_array.hpp\<close>, class template \<open>CircArray<T>\<close>. The record holds
  the four members; \<open>contents\<close> reads a buffer as the list of its elements, front first, and every
  operation is shown to be the list operation it is meant to be, on every branch. The locale
  \<open>bounded_deque\<close> is the contract its clients (the port buffers, the window caches of the
  indicators) rely on, and the class is its interpretation \<open>ring\<close>.

  Lengths and indices are \<open>size_t\<close> in the source and naturals here: no index exceeds twice the
  number of elements of an allocated array, so nothing wraps. The loop counters of the copying loops are \<open>int\<close> in
  the source; the model is that of buffers with fewer than \<open>2 ^ 31\<close> elements.
\<close>

section \<open>The class\<close>

datatype RC = SUCCESS | NO_SPACE_ERROR | BUFFER_EMPTY_ERROR

record 'a CircArray =
  ca_array :: "'a list"
  ca_start :: nat
  ca_size :: nat
  ca_capacity :: nat

definition occupancy :: "'a CircArray \<Rightarrow> nat" where
  "occupancy ca = ca_size ca"

definition capacity :: "'a CircArray \<Rightarrow> nat" where
  "capacity ca = ca_capacity ca"

definition is_full :: "'a CircArray \<Rightarrow> bool" where
  "is_full ca \<longleftrightarrow> ca_size ca = ca_capacity ca"

definition empty :: "'a CircArray \<Rightarrow> bool" where
  "empty ca \<longleftrightarrow> ca_size ca = 0"

text \<open>\<open>new T[capacity]\<close> default-constructs every cell: \<open>d\<close> is what the default constructor builds.\<close>

definition set_initial_values :: "'a \<Rightarrow> nat \<Rightarrow> 'a CircArray" where
  "set_initial_values d c =
     \<lparr>ca_array = replicate c d, ca_start = 0, ca_size = 0, ca_capacity = c\<rparr>"

definition CircArray_default :: "'a \<Rightarrow> 'a CircArray" where
  "CircArray_default d = set_initial_values d 10"

definition CircArray_ctor :: "'a \<Rightarrow> nat \<Rightarrow> 'a CircArray" where
  "CircArray_ctor d c = set_initial_values d c"

text \<open>The cell an index denotes; the remainder traps on an array without cells.\<close>

definition slot :: "'a CircArray \<Rightarrow> nat \<Rightarrow> nat res" where
  "slot ca i =
     (if ca_capacity ca = 0 then Inl DivByZero else Inr ((ca_start ca + i) mod ca_capacity ca))"

text \<open>\<open>operator[]\<close> yields a reference: \<open>ca_at\<close> reads through it and \<open>ca_put\<close> assigns through it.\<close>

definition ca_at :: "'a CircArray \<Rightarrow> nat \<Rightarrow> 'a res" where
  "ca_at ca i =
     (if i < ca_size ca then bnd (slot ca i) (arr_get (ca_array ca)) else Inl AssertFailed)"

definition ca_put :: "'a CircArray \<Rightarrow> nat \<Rightarrow> 'a \<Rightarrow> 'a CircArray res" where
  "ca_put ca i v =
     (if i < ca_size ca
      then bnd (slot ca i) (\<lambda>j. bnd (arr_set (ca_array ca) j v) (\<lambda>xs. Inr (ca\<lparr>ca_array := xs\<rparr>)))
      else Inl AssertFailed)"

text \<open>The reference-taking pops leave \<open>value\<close> alone when the buffer is empty: None.\<close>

definition pop_front_into :: "'a CircArray \<Rightarrow> (RC \<times> 'a option \<times> 'a CircArray) res" where
  "pop_front_into ca =
     (if ca_size ca = 0 then Inr (BUFFER_EMPTY_ERROR, None, ca)
      else bnd (arr_get (ca_array ca) (ca_start ca)) (\<lambda>v.
           bnd (slot ca 1) (\<lambda>st.
             Inr (SUCCESS, Some v, ca\<lparr>ca_size := ca_size ca - 1, ca_start := st\<rparr>))))"

definition pop_front :: "'a CircArray \<Rightarrow> ('a \<times> 'a CircArray) res" where
  "pop_front ca =
     bnd (pop_front_into ca) (\<lambda>(rc, v, ca').
       case v of Some x \<Rightarrow> if rc = SUCCESS then Inr (x, ca') else Inl AssertFailed
               | None \<Rightarrow> Inl AssertFailed)"

definition pop_back_into :: "'a CircArray \<Rightarrow> (RC \<times> 'a option \<times> 'a CircArray) res" where
  "pop_back_into ca =
     (if ca_size ca = 0 then Inr (BUFFER_EMPTY_ERROR, None, ca)
      else bnd (slot ca (ca_size ca - 1)) (\<lambda>j.
           bnd (arr_get (ca_array ca) j) (\<lambda>v.
             Inr (SUCCESS, Some v, ca\<lparr>ca_size := ca_size ca - 1\<rparr>))))"

definition pop_back :: "'a CircArray \<Rightarrow> ('a \<times> 'a CircArray) res" where
  "pop_back ca =
     bnd (pop_back_into ca) (\<lambda>(rc, v, ca').
       case v of Some x \<Rightarrow> if rc = SUCCESS then Inr (x, ca') else Inl AssertFailed
               | None \<Rightarrow> Inl AssertFailed)"

definition store_back :: "'a CircArray \<Rightarrow> 'a \<Rightarrow> (RC \<times> 'a CircArray) res" where
  "store_back ca v =
     bnd (slot ca (ca_size ca)) (\<lambda>j. bnd (arr_set (ca_array ca) j v) (\<lambda>xs.
       Inr (SUCCESS, ca\<lparr>ca_array := xs, ca_size := ca_size ca + 1\<rparr>)))"

definition push_back :: "'a CircArray \<Rightarrow> 'a \<Rightarrow> bool \<Rightarrow> (RC \<times> 'a CircArray) res" where
  "push_back ca v overwrite_when_full =
     (if ca_size ca = ca_capacity ca
      then if \<not> overwrite_when_full then Inr (NO_SPACE_ERROR, ca)
           else bnd (pop_front ca) (\<lambda>(_, ca').
                  if ca_size ca' < ca_capacity ca' then store_back ca' v else Inl AssertFailed)
      else store_back ca v)"

definition store_front :: "'a CircArray \<Rightarrow> 'a \<Rightarrow> (RC \<times> 'a CircArray) res" where
  "store_front ca v =
     (let st = (if ca_start ca = 0 then ca_capacity ca - 1 else ca_start ca - 1)
      in bnd (arr_set (ca_array ca) st v) (\<lambda>xs.
           Inr (SUCCESS, ca\<lparr>ca_array := xs, ca_start := st, ca_size := ca_size ca + 1\<rparr>)))"

definition push_front :: "'a CircArray \<Rightarrow> 'a \<Rightarrow> bool \<Rightarrow> (RC \<times> 'a CircArray) res" where
  "push_front ca v overwrite_when_full =
     (if ca_size ca = ca_capacity ca
      then if \<not> overwrite_when_full then Inr (NO_SPACE_ERROR, ca)
           else bnd (pop_back ca) (\<lambda>(_, ca').
                  if ca_size ca' < ca_capacity ca' then store_front ca' v else Inl AssertFailed)
      else store_front ca v)"

text \<open>The copy loop \<open>for (i = 0; i < rhs._size; ++i) lhs[i] = rhs[i]\<close>, from index \<open>i\<close> on.\<close>

function copy_loop :: "nat \<Rightarrow> 'a CircArray \<Rightarrow> 'a CircArray \<Rightarrow> 'a CircArray res" where
  "copy_loop i lhs rhs =
     (if i < ca_size rhs
      then bnd (ca_at rhs i) (\<lambda>v. bnd (ca_put lhs i v) (\<lambda>lhs'. copy_loop (Suc i) lhs' rhs))
      else Inr lhs)"
  by pat_completeness auto
termination
  by (relation "measure (\<lambda>(i, l, r). ca_size r - i)") auto

declare copy_loop.simps [simp del]

text \<open>\<open>deep_copy\<close> into an object; None is an object whose \<open>_array\<close> is NULL, as in the copy constructor.\<close>

definition deep_copy :: "'a \<Rightarrow> 'a CircArray option \<Rightarrow> 'a CircArray \<Rightarrow> 'a CircArray res" where
  "deep_copy d lhs rhs =
     (case lhs of
        Some l \<Rightarrow>
          if ca_capacity l = ca_capacity rhs
          then copy_loop 0 (l\<lparr>ca_start := ca_start rhs, ca_size := ca_size rhs,
                              ca_capacity := ca_capacity rhs\<rparr>) rhs
          else copy_loop 0 \<lparr>ca_array = replicate (ca_capacity rhs) d, ca_start = ca_start rhs,
                            ca_size = ca_size rhs, ca_capacity = ca_capacity rhs\<rparr> rhs
      | None \<Rightarrow>
          copy_loop 0 \<lparr>ca_array = replicate (ca_capacity rhs) d, ca_start = ca_start rhs,
                       ca_size = ca_size rhs, ca_capacity = ca_capacity rhs\<rparr> rhs)"

definition CircArray_copy :: "'a \<Rightarrow> 'a CircArray \<Rightarrow> 'a CircArray res" where
  "CircArray_copy d copy = deep_copy d None copy"

definition ca_assign :: "'a \<Rightarrow> 'a CircArray \<Rightarrow> 'a CircArray \<Rightarrow> 'a CircArray res" where
  "ca_assign d lhs rhs = deep_copy d (Some lhs) rhs"

text \<open>\<open>resize_by_two\<close>: the loop fills \<open>temp\<close> from index \<open>i\<close> on.\<close>

function resize_loop :: "nat \<Rightarrow> 'a list \<Rightarrow> 'a CircArray \<Rightarrow> 'a list res" where
  "resize_loop i temp ca =
     (if i < ca_size ca
      then bnd (ca_at ca i) (\<lambda>v. bnd (arr_set temp i v) (\<lambda>temp'. resize_loop (Suc i) temp' ca))
      else Inr temp)"
  by pat_completeness auto
termination
  by (relation "measure (\<lambda>(i, t, ca). ca_size ca - i)") auto

declare resize_loop.simps [simp del]

definition resize_by_two :: "'a \<Rightarrow> 'a CircArray \<Rightarrow> 'a CircArray res" where
  "resize_by_two d ca =
     bnd (resize_loop 0 (replicate (ca_capacity ca * 2) d) ca) (\<lambda>temp.
       Inr (ca\<lparr>ca_array := temp, ca_start := 0, ca_capacity := ca_capacity ca * 2\<rparr>))"

lemma pop_back_size: "pop_back ca = Inr (v, ca') \<Longrightarrow> ca_size ca' = ca_size ca - 1"
  by (auto simp: pop_back_def pop_back_into_def bnd_eq_Inr split: if_splits)

lemma ca_put_size: "ca_put ca i v = Inr ca' \<Longrightarrow> ca_size ca' = ca_size ca"
  by (auto simp: ca_put_def bnd_eq_Inr split: if_splits)

text \<open>The shifting loop of \<open>pop_at\<close>, from index \<open>i\<close> on: its last round pops the last element.\<close>

function shift_loop :: "nat \<Rightarrow> 'a CircArray \<Rightarrow> 'a CircArray res" where
  "shift_loop i ca =
     (if i < ca_size ca
      then if i = ca_size ca - 1
           then bnd (pop_back ca) (\<lambda>r. shift_loop (Suc i) (snd r))
           else bnd (ca_at ca (i + 1)) (\<lambda>v. bnd (ca_put ca i v) (\<lambda>ca'. shift_loop (Suc i) ca'))
      else Inr ca)"
  by pat_completeness auto
termination
  by (relation "measure (\<lambda>(i, ca). ca_size ca - i)") (auto dest: pop_back_size ca_put_size)

declare shift_loop.simps [simp del]

definition pop_at :: "'a CircArray \<Rightarrow> nat \<Rightarrow> ('a \<times> 'a CircArray) res" where
  "pop_at ca index =
     (if index < ca_size ca
      then bnd (ca_at ca index) (\<lambda>element.
           bnd (shift_loop index ca) (\<lambda>ca'. Inr (element, ca')))
      else Inl AssertFailed)"

section \<open>The contents as a list\<close>

definition contents :: "'a CircArray \<Rightarrow> 'a list" where
  "contents ca =
     map (\<lambda>i. ca_array ca ! ((ca_start ca + i) mod ca_capacity ca)) [0..<ca_size ca]"

definition ca_inv :: "'a CircArray \<Rightarrow> bool" where
  "ca_inv ca \<longleftrightarrow>
     length (ca_array ca) = ca_capacity ca \<and> ca_size ca \<le> ca_capacity ca \<and>
     (ca_start ca < ca_capacity ca \<or> ca_start ca = 0)"

lemma length_contents [simp]: "length (contents ca) = ca_size ca"
  by (simp add: contents_def)

lemma nth_contents:
  "i < ca_size ca \<Longrightarrow> contents ca ! i = ca_array ca ! ((ca_start ca + i) mod ca_capacity ca)"
  by (simp add: contents_def)

lemma ca_inv_size: "ca_inv ca \<Longrightarrow> length (contents ca) \<le> ca_capacity ca"
  by (simp add: ca_inv_def)

lemma slot_ok: "ca_inv ca \<Longrightarrow> 0 < ca_capacity ca \<Longrightarrow> slot ca i = Inr ((ca_start ca + i) mod ca_capacity ca)"
  by (simp add: slot_def)

text \<open>Distinct indices below the capacity denote distinct cells.\<close>

lemma slot_inj:
  fixes s i j c :: nat
  assumes "i < c" and "j < c"
  shows "(s + i) mod c = (s + j) mod c \<longleftrightarrow> i = j"
proof
  assume "(s + i) mod c = (s + j) mod c"
  then obtain q r where "s + i + c * q = s + j + c * r"
    unfolding nat_mod_eq_iff by blast
  then have "i + c * q = j + c * r" by simp
  then have "i mod c = j mod c"
    unfolding nat_mod_eq_iff by blast
  with assms show "i = j" by simp
qed simp

text \<open>A buffer represents a list of at most \<open>c\<close> elements.\<close>

definition rep :: "'a CircArray \<Rightarrow> nat \<Rightarrow> 'a list \<Rightarrow> bool" where
  "rep ca c xs \<longleftrightarrow> ca_inv ca \<and> ca_capacity ca = c \<and> contents ca = xs"

lemma repI: "ca_inv ca \<Longrightarrow> ca_capacity ca = c \<Longrightarrow> contents ca = xs \<Longrightarrow> rep ca c xs"
  by (simp add: rep_def)

lemma rep_size: "rep ca c xs \<Longrightarrow> ca_size ca = length xs"
  by (auto simp: rep_def)

lemma rep_length: "rep ca c xs \<Longrightarrow> length xs \<le> c"
  by (auto simp: rep_def dest: ca_inv_size)

lemma rep_contents: "ca_inv ca \<Longrightarrow> rep ca (ca_capacity ca) (contents ca)"
  by (simp add: rep_def)

lemma rep_is_full: "rep ca c xs \<Longrightarrow> is_full ca \<longleftrightarrow> length xs = c"
  by (auto simp: rep_def is_full_def)

lemma rep_occupancy: "rep ca c xs \<Longrightarrow> occupancy ca = length xs"
  by (auto simp: rep_def occupancy_def)

lemma rep_ctor: "rep (CircArray_ctor d c) c []"
  by (simp add: rep_def CircArray_ctor_def set_initial_values_def ca_inv_def contents_def)

lemma rep_at:
  assumes "rep ca c xs" and "i < length xs"
  shows "ca_at ca i = Inr (xs ! i)"
  using assms by (auto simp: rep_def ca_at_def slot_def ca_inv_def nth_contents)

lemma rep_at_beyond: "rep ca c xs \<Longrightarrow> \<not> i < length xs \<Longrightarrow> ca_at ca i = Inl AssertFailed"
  by (simp add: ca_at_def rep_size)

lemma rep_put:
  assumes "rep ca c xs" and "i < length xs"
  obtains ca' where "ca_put ca i v = Inr ca'" and "rep ca' c (xs[i := v])"
proof
  let ?j = "(ca_start ca + i) mod ca_capacity ca"
  let ?ca = "ca\<lparr>ca_array := (ca_array ca)[?j := v]\<rparr>"
  from assms have inv: "ca_inv ca" and i: "i < ca_size ca" and xs: "xs = contents ca"
    and c: "ca_capacity ca = c"
    by (auto simp: rep_def)
  then show "ca_put ca i v = Inr ?ca"
    by (auto simp: ca_put_def slot_def ca_inv_def)
  have "contents ?ca ! k = xs[i := v] ! k" if "k < ca_size ca" for k
    using that inv i
    by (auto simp: xs nth_contents contents_def ca_inv_def nth_list_update slot_inj)
  then have "contents ?ca = xs[i := v]"
    by (intro nth_equalityI) (simp_all add: xs)
  then show "rep ?ca c (xs[i := v])"
    using inv c by (simp add: rep_def ca_inv_def)
qed

section \<open>What the operations do to the listed contents\<close>

lemma rep_pop_front:
  assumes "rep ca c (x # xs)"
  obtains ca' where "pop_front ca = Inr (x, ca')" and "rep ca' c xs"
proof
  let ?ca = "ca\<lparr>ca_size := ca_size ca - 1, ca_start := (ca_start ca + 1) mod ca_capacity ca\<rparr>"
  have inv: "ca_inv ca" and con: "contents ca = x # xs" and c: "ca_capacity ca = c"
    using assms by (auto simp: rep_def)
  have n: "ca_size ca = Suc (length xs)"
    using rep_size [OF assms] by simp
  with inv have pos: "0 < ca_capacity ca" and st: "ca_start ca < ca_capacity ca"
    by (auto simp: ca_inv_def)
  have "x = ca_array ca ! ca_start ca"
    using nth_contents [of 0 ca] n con st by simp
  with inv n pos st show "pop_front ca = Inr (x, ?ca)"
    by (simp add: pop_front_def pop_front_into_def slot_def ca_inv_def)
  have "contents ?ca ! k = xs ! k" if "k < length xs" for k
    using that nth_contents [of "Suc k" ca] n con
    by (simp add: contents_def mod_add_left_eq)
  then have "contents ?ca = xs"
    by (intro nth_equalityI) (simp_all add: n)
  then show "rep ?ca c xs"
    using inv c pos n by (simp add: rep_def ca_inv_def)
qed

lemma rep_pop_back:
  assumes "rep ca c (xs @ [x])"
  obtains ca' where "pop_back ca = Inr (x, ca')" and "rep ca' c xs"
proof
  let ?ca = "ca\<lparr>ca_size := ca_size ca - 1\<rparr>"
  have inv: "ca_inv ca" and con: "contents ca = xs @ [x]" and c: "ca_capacity ca = c"
    using assms by (auto simp: rep_def)
  have n: "ca_size ca = Suc (length xs)"
    using rep_size [OF assms] by simp
  with inv have pos: "0 < ca_capacity ca"
    by (auto simp: ca_inv_def)
  have "x = ca_array ca ! ((ca_start ca + length xs) mod ca_capacity ca)"
    using nth_contents [of "length xs" ca] n con by simp
  with inv n pos show "pop_back ca = Inr (x, ?ca)"
    by (simp add: pop_back_def pop_back_into_def slot_def ca_inv_def)
  have "contents ?ca ! k = xs ! k" if "k < length xs" for k
    using that nth_contents [of k ca] n con by (simp add: contents_def nth_append)
  then have "contents ?ca = xs"
    by (intro nth_equalityI) (simp_all add: n)
  then show "rep ?ca c xs"
    using inv c n by (simp add: rep_def ca_inv_def)
qed

lemma rep_pop_empty:
  assumes "rep ca c []"
  shows "pop_front ca = Inl AssertFailed" and "pop_back ca = Inl AssertFailed"
    and "pop_front_into ca = Inr (BUFFER_EMPTY_ERROR, None, ca)"
    and "pop_back_into ca = Inr (BUFFER_EMPTY_ERROR, None, ca)"
  using rep_size [OF assms]
  by (simp_all add: pop_front_def pop_back_def pop_front_into_def pop_back_into_def)

lemma rep_store_back:
  assumes "rep ca c xs" and "length xs < c"
  obtains ca' where "store_back ca v = Inr (SUCCESS, ca')" and "rep ca' c (xs @ [v])"
proof
  let ?j = "(ca_start ca + ca_size ca) mod ca_capacity ca"
  let ?ca = "ca\<lparr>ca_array := (ca_array ca)[?j := v], ca_size := ca_size ca + 1\<rparr>"
  have inv: "ca_inv ca" and con: "contents ca = xs" and c: "ca_capacity ca = c"
    using assms by (auto simp: rep_def)
  have n: "ca_size ca = length xs" and lt: "length xs < ca_capacity ca"
    using rep_size [OF assms(1)] assms(2) c by auto
  with inv show "store_back ca v = Inr (SUCCESS, ?ca)"
    by (simp add: store_back_def slot_def ca_inv_def)
  have "contents ?ca ! k = (xs @ [v]) ! k" if "k < Suc (length xs)" for k
    using that lt inv
    by (auto simp: con [symmetric] nth_contents nth_append nth_list_update slot_inj ca_inv_def
        less_Suc_eq)
  then have "contents ?ca = xs @ [v]"
    by (intro nth_equalityI) (simp_all add: n)
  then show "rep ?ca c (xs @ [v])"
    using inv c lt n by (simp add: rep_def ca_inv_def)
qed

lemma pred_start:
  fixes s c :: nat
  assumes "0 < c" and "s < c \<or> s = 0"
  shows "((if s = 0 then c - 1 else s - 1) + Suc k) mod c = (s + k) mod c"
proof (cases "s = 0")
  case True
  then have "(if s = 0 then c - 1 else s - 1) + Suc k = s + k + c"
    using assms(1) by simp
  then show ?thesis by (metis mod_add_self2)
qed simp

lemma rep_store_front:
  assumes "rep ca c xs" and "length xs < c"
  obtains ca' where "store_front ca v = Inr (SUCCESS, ca')" and "rep ca' c (v # xs)"
proof
  define st where "st = (if ca_start ca = 0 then ca_capacity ca - 1 else ca_start ca - 1)"
  let ?ca = "ca\<lparr>ca_array := (ca_array ca)[st := v], ca_start := st, ca_size := ca_size ca + 1\<rparr>"
  have inv: "ca_inv ca" and con: "contents ca = xs" and c: "ca_capacity ca = c"
    using assms by (auto simp: rep_def)
  have n: "ca_size ca = length xs" and lt: "length xs < ca_capacity ca"
    using rep_size [OF assms(1)] assms(2) c by auto
  have st: "st < ca_capacity ca"
    using inv lt by (auto simp: st_def ca_inv_def)
  with inv show "store_front ca v = Inr (SUCCESS, ?ca)"
    by (simp add: store_front_def st_def [symmetric] ca_inv_def Let_def)
  have "(st + Suc k) mod ca_capacity ca = (ca_start ca + k) mod ca_capacity ca" for k
    unfolding st_def using inv lt by (intro pred_start) (auto simp: ca_inv_def)
  then have "contents ?ca ! Suc k = xs ! k" if "k < length xs" for k
    using that lt st inv slot_inj [of 0 "ca_capacity ca" "Suc k" st]
    by (auto simp: con [symmetric] nth_contents nth_list_update ca_inv_def)
  moreover have "contents ?ca ! 0 = v"
    using st inv by (simp add: contents_def ca_inv_def del: upt_Suc)
  ultimately have "contents ?ca ! k = (v # xs) ! k" if "k < Suc (length xs)" for k
    using that by (cases k) auto
  then have "contents ?ca = v # xs"
    by (intro nth_equalityI) (simp_all add: n)
  then show "rep ?ca c (v # xs)"
    using inv c lt n st by (simp add: rep_def ca_inv_def)
qed

lemma rep_push_back:
  assumes "rep ca c xs" and "0 < c"
  obtains ca' where "push_back ca v True = Inr (SUCCESS, ca')"
    and "rep ca' c ((if length xs = c then tl xs else xs) @ [v])"
proof (cases "length xs = c")
  case True
  then obtain y ys where xs: "xs = y # ys"
    using assms(2) by (cases xs) auto
  with assms(1) obtain ca1 where 1: "pop_front ca = Inr (y, ca1)" "rep ca1 c ys"
    by (auto elim: rep_pop_front)
  moreover have "length ys < c"
    using True xs by simp
  ultimately obtain ca2 where "store_back ca1 v = Inr (SUCCESS, ca2)" "rep ca2 c (ys @ [v])"
    by (auto elim: rep_store_back)
  with 1 assms(1) True xs show thesis
    by (intro that [of ca2]) (auto simp: push_back_def rep_size rep_def)
next
  case False
  then have "length xs < c"
    using rep_length [OF assms(1)] by simp
  with assms(1) obtain ca2 where "store_back ca v = Inr (SUCCESS, ca2)" "rep ca2 c (xs @ [v])"
    by (rule rep_store_back)
  with False assms(1) show thesis
    by (intro that [of ca2]) (auto simp: push_back_def rep_def)
qed

lemma rep_push_front:
  assumes "rep ca c xs" and "0 < c"
  obtains ca' where "push_front ca v True = Inr (SUCCESS, ca')" and "rep ca' c (take c (v # xs))"
proof (cases "length xs = c")
  case True
  then obtain y ys where xs: "xs = ys @ [y]"
    using assms(2) by (cases xs rule: rev_cases) auto
  with assms(1) obtain ca1 where 1: "pop_back ca = Inr (y, ca1)" "rep ca1 c ys"
    by (auto elim: rep_pop_back)
  moreover have "length ys < c"
    using True xs by simp
  ultimately obtain ca2 where "store_front ca1 v = Inr (SUCCESS, ca2)" "rep ca2 c (v # ys)"
    by (auto elim: rep_store_front)
  with 1 assms True xs show thesis
    by (intro that [of ca2]) (auto simp: push_front_def rep_size rep_def take_Cons_full)
next
  case False
  then have lt: "length xs < c"
    using rep_length [OF assms(1)] by simp
  with assms(1) obtain ca2 where "store_front ca v = Inr (SUCCESS, ca2)" "rep ca2 c (v # xs)"
    by (rule rep_store_front)
  with False lt assms(1) show thesis
    by (intro that [of ca2]) (auto simp: push_front_def rep_def take_Cons_length_le)
qed

lemma rep_push_room:
  assumes "rep ca c xs" and "length xs < c"
  obtains ca1 ca2 where "push_front ca v False = Inr (SUCCESS, ca1)" and "rep ca1 c (v # xs)"
    and "push_back ca v False = Inr (SUCCESS, ca2)" and "rep ca2 c (xs @ [v])"
proof -
  from assms obtain ca1 where 1: "store_front ca v = Inr (SUCCESS, ca1)" "rep ca1 c (v # xs)"
    by (rule rep_store_front)
  from assms obtain ca2 where 2: "store_back ca v = Inr (SUCCESS, ca2)" "rep ca2 c (xs @ [v])"
    by (rule rep_store_back)
  from 1 2 assms show thesis
    by (intro that [of ca1 ca2]) (auto simp: push_front_def push_back_def rep_def)
qed

lemma rep_push_full:
  assumes "rep ca c xs" and "length xs = c"
  shows "push_front ca v False = Inr (NO_SPACE_ERROR, ca)"
    and "push_back ca v False = Inr (NO_SPACE_ERROR, ca)"
  using assms by (auto simp: push_front_def push_back_def rep_def)

lemma rep_push_no_cells:
  assumes "rep ca 0 xs"
  shows "push_front ca v True = Inl AssertFailed" and "push_back ca v True = Inl AssertFailed"
  using assms rep_length [OF assms] rep_size [OF assms] rep_pop_empty [of ca 0]
  by (auto simp: push_front_def push_back_def rep_def)

section \<open>Copying, growing and removing in the middle\<close>

lemma copy_loop_rep:
  assumes "rep rhs c xs" and "rep lhs c ys" and "length ys = length xs" and "take i ys = take i xs"
  shows "\<exists>l. copy_loop i lhs rhs = Inr l \<and> rep l c xs"
  using assms
proof (induction i lhs rhs arbitrary: ys rule: copy_loop.induct)
  case (1 i lhs rhs)
  show ?case
  proof (cases "i < length xs")
    case True
    then obtain l where l: "ca_put lhs i (xs ! i) = Inr l" "rep l c (ys[i := xs ! i])"
      using 1 by (metis rep_put)
    have "take (Suc i) (ys[i := xs ! i]) = take (Suc i) xs"
      using True 1 by (simp add: take_Suc_conv_app_nth)
    moreover have "i < ca_size rhs" "ca_at rhs i = Inr (xs ! i)"
      using True 1 by (simp_all add: rep_size rep_at)
    ultimately have "\<exists>r. copy_loop (Suc i) l rhs = Inr r \<and> rep r c xs"
      using "1.prems" by (intro "1.IH" [OF _ _ l(1) _ l(2)]) simp_all
    with True 1 l show ?thesis
      by (simp add: copy_loop.simps [of i] rep_size rep_at)
  next
    case False
    with 1 show ?thesis
      by (auto simp: copy_loop.simps [of i] rep_size)
  qed
qed

lemma rep_deep_copy:
  assumes "rep rhs c xs" and "\<And>l. lhs = Some l \<Longrightarrow> ca_inv l"
  obtains l where "deep_copy d lhs rhs = Inr l" and "rep l c xs"
proof -
  let ?fresh = "\<lparr>ca_array = replicate (ca_capacity rhs) d, ca_start = ca_start rhs,
    ca_size = ca_size rhs, ca_capacity = ca_capacity rhs\<rparr>"
  let ?reuse = "\<lambda>l. l\<lparr>ca_start := ca_start rhs, ca_size := ca_size rhs,
    ca_capacity := ca_capacity rhs\<rparr>"
  have inv: "ca_inv rhs"
    using assms(1) by (simp add: rep_def)
  have sized: "\<exists>r. copy_loop 0 l rhs = Inr r \<and> rep r c xs"
    if "ca_inv l" "ca_size l = ca_size rhs" "ca_capacity l = ca_capacity rhs" for l
    using that assms(1) by (intro copy_loop_rep [of rhs c xs l "contents l"]) (auto simp: rep_def)
  have "ca_inv ?fresh"
    using inv by (simp add: ca_inv_def)
  then have fresh: "\<exists>r. copy_loop 0 ?fresh rhs = Inr r \<and> rep r c xs"
    by (intro sized) simp_all
  have "\<exists>r. deep_copy d lhs rhs = Inr r \<and> rep r c xs"
  proof (cases lhs)
    case None
    with fresh show ?thesis by (simp add: deep_copy_def)
  next
    case (Some l)
    have "\<exists>r. copy_loop 0 (?reuse l) rhs = Inr r \<and> rep r c xs" if "ca_capacity l = ca_capacity rhs"
      using inv assms(2) [OF Some] that by (intro sized) (simp_all add: ca_inv_def)
    with fresh Some show ?thesis by (simp add: deep_copy_def)
  qed
  then show thesis using that by blast
qed

lemma resize_loop_rep:
  assumes "rep ca c xs" and "length xs \<le> length t" and "take i t = take i xs"
  shows "\<exists>t'. resize_loop i t ca = Inr t' \<and> length t' = length t \<and> take (length xs) t' = xs"
  using assms
proof (induction i t ca rule: resize_loop.induct)
  case (1 i t ca)
  show ?case
  proof (cases "i < length xs")
    case True
    then have "take (Suc i) (t[i := xs ! i]) = take (Suc i) xs"
      using 1 by (simp add: take_Suc_conv_app_nth)
    then have "\<exists>t'. resize_loop (Suc i) (t[i := xs ! i]) ca = Inr t' \<and>
        length t' = length (t[i := xs ! i]) \<and> take (length xs) t' = xs"
      using True 1 by (intro "1.IH") (simp_all add: rep_size rep_at)
    with True 1 show ?thesis
      by (simp add: resize_loop.simps [of i] rep_size rep_at)
  next
    case False
    then have "take (length xs) t = xs"
      using arg_cong [OF "1.prems"(3), of "take (length xs)"] by (simp add: min_absorb1)
    with False "1.prems"  show ?thesis
      by (simp add: resize_loop.simps [of i] rep_size)
  qed
qed

lemma rep_resize_by_two:
  assumes "rep ca c xs"
  obtains ca' where "resize_by_two d ca = Inr ca'" and "rep ca' (c * 2) xs"
proof -
  have c: "ca_capacity ca = c" and n: "ca_size ca = length xs" and le: "length xs \<le> c"
    using assms rep_size [OF assms] rep_length [OF assms] by (simp_all add: rep_def)
  obtain t where t: "resize_loop 0 (replicate (c * 2) d) ca = Inr t"
    "length t = c * 2" "take (length xs) t = xs"
    using resize_loop_rep [OF assms, of "replicate (c * 2) d" 0] le by auto
  let ?ca = "ca\<lparr>ca_array := t, ca_start := 0, ca_capacity := c * 2\<rparr>"
  have "contents ?ca = take (length xs) t"
    using t(2) le by (auto simp: contents_def n intro!: nth_equalityI)
  with t n le have "rep ?ca (c * 2) xs"
    by (simp add: rep_def ca_inv_def)
  with t c show thesis
    by (intro that [of ?ca]) (simp_all add: resize_by_two_def)
qed

lemma shift_loop_rep:
  assumes "rep ca c xs" and "i < length xs"
  shows "\<exists>ca'. shift_loop i ca = Inr ca' \<and> rep ca' c (take i xs @ drop (Suc i) xs)"
  using assms
proof (induction i ca arbitrary: xs rule: shift_loop.induct)
  case (1 i ca)
  note n = rep_size [OF "1.prems"(1)]
  show ?case
  proof (cases "i = length xs - 1")
    case True
    then have xs: "xs = take i xs @ [xs ! i]"
      using "1.prems"(2) by (simp flip: take_Suc_conv_app_nth)
    then obtain ca' where "pop_back ca = Inr (xs ! i, ca')" "rep ca' c (take i xs)"
      using "1.prems"(1) by (metis rep_pop_back)
    moreover from this(2) have "shift_loop (Suc i) ca' = Inr ca'"
      by (simp add: shift_loop.simps [of "Suc i"] rep_size)
    ultimately have "shift_loop i ca = Inr ca'"
      using True "1.prems"(2) n by (subst shift_loop.simps) simp
    with \<open>rep ca' c (take i xs)\<close> True show ?thesis by auto
  next
    case False
    let ?v = "xs ! (i + 1)"
    have lt: "i + 1 < length xs"
      using False "1.prems"(2) by simp
    obtain ca' where put: "ca_put ca i ?v = Inr ca'" "rep ca' c (xs[i := ?v])"
      using "1.prems" by (metis rep_put)
    have get: "ca_at ca (i + 1) = Inr ?v"
      using "1.prems" lt by (simp add: rep_at)
    have "\<exists>r. shift_loop (Suc i) ca' = Inr r \<and>
        rep r c (take (Suc i) (xs[i := ?v]) @ drop (Suc (Suc i)) (xs[i := ?v]))"
      using "1.prems" False n lt put get by (intro "1.IH"(2)) simp_all
    moreover have "take (Suc i) (xs[i := ?v]) @ drop (Suc (Suc i)) (xs[i := ?v]) =
        take i xs @ drop (Suc i) xs"
      using lt by (simp add: take_Suc_conv_app_nth Cons_nth_drop_Suc)
    ultimately show ?thesis
      using "1.prems" False n put get by (simp add: shift_loop.simps [of i ca])
  qed
qed

lemma rep_pop_at:
  assumes "rep ca c xs" and "i < length xs"
  obtains ca' where "pop_at ca i = Inr (xs ! i, ca')" and "rep ca' c (take i xs @ drop (Suc i) xs)"
  using shift_loop_rep [OF assms] assms that by (auto simp: pop_at_def rep_size rep_at)

section \<open>The contract clients rely on\<close>

locale bounded_deque =
  fixes represents :: "'q \<Rightarrow> nat \<Rightarrow> 'a list \<Rightarrow> bool"
    and pushf pushb :: "'q \<Rightarrow> 'a \<Rightarrow> bool \<Rightarrow> (RC \<times> 'q) res"
    and popf popb :: "'q \<Rightarrow> ('a \<times> 'q) res"
    and get :: "'q \<Rightarrow> nat \<Rightarrow> 'a res"
  assumes bounded: "represents q c xs \<Longrightarrow> length xs \<le> c"
    and pushf_law: "represents q c xs \<Longrightarrow> 0 < c \<Longrightarrow>
      \<exists>q'. pushf q v True = Inr (SUCCESS, q') \<and> represents q' c (take c (v # xs))"
    and pushb_law: "represents q c xs \<Longrightarrow> 0 < c \<Longrightarrow>
      \<exists>q'. pushb q v True = Inr (SUCCESS, q') \<and>
        represents q' c ((if length xs = c then tl xs else xs) @ [v])"
    and popf_law: "represents q c (x # xs) \<Longrightarrow> \<exists>q'. popf q = Inr (x, q') \<and> represents q' c xs"
    and popb_law: "represents q c (xs @ [x]) \<Longrightarrow> \<exists>q'. popb q = Inr (x, q') \<and> represents q' c xs"
    and get_law: "represents q c xs \<Longrightarrow> i < length xs \<Longrightarrow> get q i = Inr (xs ! i)"
begin

text \<open>Pushing at the front with overwriting keeps the latest elements, newest first.\<close>

lemma push_all_window:
  assumes "represents q c xs" and "0 < c"
  shows "\<exists>q'. iter_res (\<lambda>q v. bnd (pushf q v True) (\<lambda>(_, q'). Inr q')) q vs = Inr q' \<and>
    represents q' c (take c (rev vs @ xs))"
  using assms(1)
proof (induction vs arbitrary: q xs)
  case Nil
  then show ?case using bounded [OF Nil] by auto
next
  case (Cons v vs)
  obtain q1 where q1: "pushf q v True = Inr (SUCCESS, q1)" "represents q1 c (take c (v # xs))"
    using pushf_law [OF Cons.prems assms(2)] by blast
  have "take c (rev vs @ take c (v # xs)) = take c (rev vs @ v # xs)"
    by (simp add: min_def)
  with Cons.IH [OF q1(2)] q1(1) show ?case by simp
qed

text \<open>A push that found room is undone by popping the front.\<close>

lemma undo_push:
  assumes "represents q c xs" and "length xs < c"
  obtains q1 q2 where "pushf q v True = Inr (SUCCESS, q1)" and "represents q1 c (v # xs)"
    and "popf q1 = Inr (v, q2)" and "represents q2 c xs"
proof -
  obtain q1 where q1: "pushf q v True = Inr (SUCCESS, q1)" "represents q1 c (take c (v # xs))"
    using pushf_law [OF assms(1), of v] assms(2) by auto
  then have "represents q1 c (v # xs)"
    using assms(2) by (simp add: take_Cons_length_le)
  with popf_law obtain q2 where "popf q1 = Inr (v, q2)" "represents q2 c xs"
    by blast
  with q1(1) \<open>represents q1 c (v # xs)\<close> show thesis by (rule that)
qed

text \<open>A push that overwrote is undone by popping the front and putting the lost element back.\<close>

lemma undo_overwrite:
  assumes "represents q c xs" and "length xs = c" and "0 < c"
  obtains q1 q2 q3 where "get q (c - 1) = Inr (last xs)"
    and "pushf q v True = Inr (SUCCESS, q1)" and "represents q1 c (v # butlast xs)"
    and "popf q1 = Inr (v, q2)" and "represents q2 c (butlast xs)"
    and "pushb q2 (last xs) True = Inr (SUCCESS, q3)" and "represents q3 c xs"
proof -
  obtain q1 where q1: "pushf q v True = Inr (SUCCESS, q1)" "represents q1 c (v # butlast xs)"
    using pushf_law [OF assms(1,3), of v] assms by (auto simp: take_Cons_full)
  with popf_law obtain q2 where q2: "popf q1 = Inr (v, q2)" "represents q2 c (butlast xs)"
    by blast
  have ne: "xs \<noteq> []" and short: "length (butlast xs) \<noteq> c"
    using assms by auto
  obtain q3 where q3: "pushb q2 (last xs) True = Inr (SUCCESS, q3)" "represents q3 c xs"
    using pushb_law [OF q2(2) assms(3), of "last xs"] ne short by auto
  have "get q (c - 1) = Inr (last xs)"
    using get_law [OF assms(1), of "c - 1"] assms ne by (simp add: last_conv_nth)
  then show thesis
    using q1 q2 q3 by (rule that)
qed

end

interpretation ring: bounded_deque rep push_front push_back pop_front pop_back ca_at
proof
  fix q :: "'a CircArray" and c xs v x i
  show "rep q c xs \<Longrightarrow> length xs \<le> c"
    by (rule rep_length)
  show "rep q c xs \<Longrightarrow> 0 < c \<Longrightarrow>
      \<exists>q'. push_front q v True = Inr (SUCCESS, q') \<and> rep q' c (take c (v # xs))"
    by (erule (1) rep_push_front [where v = v]) simp
  show "rep q c xs \<Longrightarrow> 0 < c \<Longrightarrow> \<exists>q'. push_back q v True = Inr (SUCCESS, q') \<and>
      rep q' c ((if length xs = c then tl xs else xs) @ [v])"
    by (erule (1) rep_push_back [where v = v]) simp
  show "rep q c (x # xs) \<Longrightarrow> \<exists>q'. pop_front q = Inr (x, q') \<and> rep q' c xs"
    by (erule rep_pop_front) simp
  show "rep q c (xs @ [x]) \<Longrightarrow> \<exists>q'. pop_back q = Inr (x, q') \<and> rep q' c xs"
    by (erule rep_pop_back) simp
  show "rep q c xs \<Longrightarrow> i < length xs \<Longrightarrow> ca_at q i = Inr (xs ! i)"
    by (rule rep_at)
qed

section \<open>Sequences of operations\<close>

text \<open>Every public operation, as one step on a buffer, and what it means for a bounded list.\<close>

datatype 'a ca_op =
    PushFront 'a bool | PushBack 'a bool | PopFront | PopBack | PopFrontInto | PopBackInto
  | Index nat | Assign nat 'a | PopAt nat | ResizeByTwo | Copy

datatype 'a ca_out = Code RC "'a option" | Value 'a | Done

fun ca_step :: "'a \<Rightarrow> 'a CircArray \<Rightarrow> 'a ca_op \<Rightarrow> ('a ca_out \<times> 'a CircArray) res" where
  "ca_step d ca (PushFront v ow) = bnd (push_front ca v ow) (\<lambda>(rc, ca'). Inr (Code rc None, ca'))"
| "ca_step d ca (PushBack v ow) = bnd (push_back ca v ow) (\<lambda>(rc, ca'). Inr (Code rc None, ca'))"
| "ca_step d ca PopFront = bnd (pop_front ca) (\<lambda>(v, ca'). Inr (Value v, ca'))"
| "ca_step d ca PopBack = bnd (pop_back ca) (\<lambda>(v, ca'). Inr (Value v, ca'))"
| "ca_step d ca PopFrontInto = bnd (pop_front_into ca) (\<lambda>(rc, v, ca'). Inr (Code rc v, ca'))"
| "ca_step d ca PopBackInto = bnd (pop_back_into ca) (\<lambda>(rc, v, ca'). Inr (Code rc v, ca'))"
| "ca_step d ca (Index i) = bnd (ca_at ca i) (\<lambda>v. Inr (Value v, ca))"
| "ca_step d ca (Assign i v) = bnd (ca_put ca i v) (\<lambda>ca'. Inr (Done, ca'))"
| "ca_step d ca (PopAt i) = bnd (pop_at ca i) (\<lambda>(v, ca'). Inr (Value v, ca'))"
| "ca_step d ca ResizeByTwo = bnd (resize_by_two d ca) (\<lambda>ca'. Inr (Done, ca'))"
| "ca_step d ca Copy = bnd (CircArray_copy d ca) (\<lambda>ca'. Inr (Done, ca'))"

text \<open>The specification: a capacity and a list, a push onto a full one refused or displacing.\<close>

fun spec_step :: "nat \<times> 'a list \<Rightarrow> 'a ca_op \<Rightarrow> ('a ca_out \<times> nat \<times> 'a list) res" where
  "spec_step (c, xs) (PushFront v ow) =
     (if length xs < c then Inr (Code SUCCESS None, c, v # xs)
      else if \<not> ow then Inr (Code NO_SPACE_ERROR None, c, xs)
      else if c = 0 then Inl AssertFailed else Inr (Code SUCCESS None, c, v # butlast xs))"
| "spec_step (c, xs) (PushBack v ow) =
     (if length xs < c then Inr (Code SUCCESS None, c, xs @ [v])
      else if \<not> ow then Inr (Code NO_SPACE_ERROR None, c, xs)
      else if c = 0 then Inl AssertFailed else Inr (Code SUCCESS None, c, tl xs @ [v]))"
| "spec_step (c, xs) PopFront =
     (if xs = [] then Inl AssertFailed else Inr (Value (hd xs), c, tl xs))"
| "spec_step (c, xs) PopBack =
     (if xs = [] then Inl AssertFailed else Inr (Value (last xs), c, butlast xs))"
| "spec_step (c, xs) PopFrontInto =
     Inr (if xs = [] then (Code BUFFER_EMPTY_ERROR None, c, xs)
          else (Code SUCCESS (Some (hd xs)), c, tl xs))"
| "spec_step (c, xs) PopBackInto =
     Inr (if xs = [] then (Code BUFFER_EMPTY_ERROR None, c, xs)
          else (Code SUCCESS (Some (last xs)), c, butlast xs))"
| "spec_step (c, xs) (Index i) =
     (if i < length xs then Inr (Value (xs ! i), c, xs) else Inl AssertFailed)"
| "spec_step (c, xs) (Assign i v) =
     (if i < length xs then Inr (Done, c, xs[i := v]) else Inl AssertFailed)"
| "spec_step (c, xs) (PopAt i) =
     (if i < length xs then Inr (Value (xs ! i), c, take i xs @ drop (Suc i) xs)
      else Inl AssertFailed)"
| "spec_step (c, xs) ResizeByTwo = Inr (Done, c * 2, xs)"
| "spec_step (c, xs) Copy = Inr (Done, c, xs)"

text \<open>The capacity and the listed contents an array stands for.\<close>

definition ca_abs :: "'a CircArray \<Rightarrow> nat \<times> 'a list" where
  "ca_abs ca = (ca_capacity ca, contents ca)"

definition refines :: "('r \<times> 'a CircArray) res \<Rightarrow> ('r \<times> nat \<times> 'a list) res \<Rightarrow> bool" where
  "refines r s \<longleftrightarrow>
     (case s of Inl e \<Rightarrow> r = Inl e
              | Inr (out, c, xs) \<Rightarrow> \<exists>ca. r = Inr (out, ca) \<and> rep ca c xs)"

lemma refines_simps [simp]:
  "refines r (Inl e) \<longleftrightarrow> r = Inl e"
  "refines r (Inr (out, c, xs)) \<longleftrightarrow> (\<exists>ca. r = Inr (out, ca) \<and> rep ca c xs)"
  by (simp_all add: refines_def)

lemma push_refines:
  assumes "rep ca c xs"
  shows "refines (ca_step d ca (PushFront v ow)) (spec_step (c, xs) (PushFront v ow))"
    and "refines (ca_step d ca (PushBack v ow)) (spec_step (c, xs) (PushBack v ow))"
proof -
  consider (room) "length xs < c" | (full) "length xs = c" "0 < c" | (none) "length xs = c" "c = 0"
    using rep_length [OF assms] by linarith
  then have "refines (ca_step d ca (PushFront v ow)) (spec_step (c, xs) (PushFront v ow)) \<and>
      refines (ca_step d ca (PushBack v ow)) (spec_step (c, xs) (PushBack v ow))"
  proof cases
    case room
    with assms obtain ca1 ca2 where
      "push_front ca v False = Inr (SUCCESS, ca1)" "rep ca1 c (v # xs)"
      "push_back ca v False = Inr (SUCCESS, ca2)" "rep ca2 c (xs @ [v])"
      by (rule rep_push_room)
    moreover have "push_front ca v ow = push_front ca v False" "push_back ca v ow = push_back ca v False"
      using assms room by (auto simp: push_front_def push_back_def rep_def)
    ultimately show ?thesis using room by simp
  next
    case full
    obtain ca1 where "push_front ca v True = Inr (SUCCESS, ca1)" "rep ca1 c (take c (v # xs))"
      using assms full(2) by (rule rep_push_front)
    moreover obtain ca2 where "push_back ca v True = Inr (SUCCESS, ca2)" "rep ca2 c (tl xs @ [v])"
      using rep_push_back [OF assms full(2), of v] full by auto
    ultimately show ?thesis
      using full assms rep_push_full [OF assms full(1), of v] by (cases ow) (simp_all add: take_Cons_full)
  next
    case none
    then show ?thesis
      using assms rep_push_full [OF assms none(1), of v] rep_push_no_cells [of ca xs v]
      by (cases ow) simp_all
  qed
  then show "refines (ca_step d ca (PushFront v ow)) (spec_step (c, xs) (PushFront v ow))"
    and "refines (ca_step d ca (PushBack v ow)) (spec_step (c, xs) (PushBack v ow))"
    by simp_all
qed

lemma pop_into:
  "pop_front ca = Inr (v, ca') \<longleftrightarrow> pop_front_into ca = Inr (SUCCESS, Some v, ca')"
  "pop_back ca = Inr (v, ca') \<longleftrightarrow> pop_back_into ca = Inr (SUCCESS, Some v, ca')"
  by (auto simp: pop_front_def pop_back_def bnd_eq_Inr split: option.splits if_splits)

lemma pop_refines:
  assumes "rep ca c xs" and "oper \<in> {PopFront, PopBack, PopFrontInto, PopBackInto}"
  shows "refines (ca_step d ca oper) (spec_step (c, xs) oper)"
proof (cases xs rule: list.exhaust)
  case Nil
  then show ?thesis
    using assms rep_pop_empty [of ca c] by auto
next
  case (Cons y ys)
  with assms(1) obtain ca1 where f: "pop_front ca = Inr (hd xs, ca1)" "rep ca1 c (tl xs)"
    by (auto elim: rep_pop_front)
  have "rep ca c (butlast xs @ [last xs])"
    using assms(1) Cons by (subst append_butlast_last_id) simp_all
  then obtain ca2 where b: "pop_back ca = Inr (last xs, ca2)" "rep ca2 c (butlast xs)"
    by (rule rep_pop_back)
  have "xs \<noteq> []" using Cons by simp
  then show ?thesis
    using assms(2) f b f(1) [unfolded pop_into] b(1) [unfolded pop_into] by auto
qed

lemma ca_step_refines:
  assumes "rep ca c xs"
  shows "refines (ca_step d ca oper) (spec_step (c, xs) oper)"
proof (cases oper)
  case (Index i)
  then show ?thesis
    using assms by (cases "i < length xs") (simp_all add: rep_at rep_at_beyond)
next
  case (Assign i v)
  show ?thesis
  proof (cases "i < length xs")
    case True
    with assms obtain ca' where "ca_put ca i v = Inr ca'" "rep ca' c (xs[i := v])"
      by (rule rep_put)
    with Assign True show ?thesis by simp
  next
    case False
    with Assign assms show ?thesis by (simp add: ca_put_def rep_size)
  qed
next
  case (PopAt i)
  show ?thesis
  proof (cases "i < length xs")
    case True
    with assms obtain ca' where "pop_at ca i = Inr (xs ! i, ca')"
      "rep ca' c (take i xs @ drop (Suc i) xs)"
      by (rule rep_pop_at)
    with PopAt True show ?thesis by simp
  next
    case False
    with PopAt assms show ?thesis by (simp add: pop_at_def rep_size)
  qed
next
  case ResizeByTwo
  then show ?thesis
    by (auto intro: rep_resize_by_two [OF assms, of d])
next
  case Copy
  obtain l where "deep_copy d None ca = Inr l" "rep l c xs"
    by (rule rep_deep_copy [OF assms, of None d]) simp_all
  with Copy show ?thesis
    by (simp add: CircArray_copy_def)
qed (auto intro: push_refines pop_refines assms simp del: ca_step.simps spec_step.simps)

lemma run_ops_refines:
  "rep ca c xs \<Longrightarrow> refines (run_ops (ca_step d) ca opers) (run_ops spec_step (c, xs) opers)"
proof (induction opers arbitrary: ca c xs)
  case (Cons oper opers)
  note step = ca_step_refines [OF Cons.prems, of d oper]
  show ?case
  proof (cases "spec_step (c, xs) oper")
    case (Inl e)
    with step show ?thesis by simp
  next
    case (Inr r)
    obtain out c' xs' where r: "r = (out, c', xs')" by (cases r)
    with step Inr obtain ca' where ca': "ca_step d ca oper = Inr (out, ca')" "rep ca' c' xs'"
      by auto
    show ?thesis
      using Cons.IH [OF ca'(2)] Inr r ca'(1)
      by (cases "run_ops spec_step (c', xs') opers") auto
  qed
qed simp

text \<open>
  Property C1. The ring buffer is a bounded list. Whatever sequence of the public operations is
  run on a newly built buffer (pushes and pops at both ends with and without overwriting, indexing
  and assigning through an index, removal in the middle, growing, copying), the outputs, the
  return codes, the failed assertion if there is one, the final capacity and the final contents
  are those of the list specification.
\<close>

theorem circ_array_refines_list:
  "map_sum id (map_prod id ca_abs) (run_ops (ca_step d) (CircArray_ctor d c) opers) =
   run_ops spec_step (c, []) opers"
  using run_ops_refines [OF rep_ctor, of d d c opers]
  by (auto simp: refines_def ca_abs_def rep_def split: sum.splits prod.splits)

text \<open>
  Pushing values at the front of a new buffer, overwriting when full, never fails and
  leaves the latest ones, newest first: the sliding window every indicator reads.
\<close>

theorem push_front_sliding_window:
  assumes "0 < c"
  shows "\<exists>ca. iter_res (\<lambda>ca v. bnd (push_front ca v True) (\<lambda>(_, ca'). Inr ca'))
      (CircArray_ctor d c) vs = Inr ca \<and> contents ca = take c (rev vs) \<and> ca_inv ca"
  using ring.push_all_window [OF rep_ctor assms, of d vs] by (auto simp: rep_def)

theorem push_front_sliding_window_witness:
  "\<exists>ca. iter_res (\<lambda>ca v. bnd (push_front ca v True) (\<lambda>(_, ca'). Inr ca'))
      (CircArray_ctor (0::nat) 2) [5, 6, 7] = Inr ca \<and> contents ca = [7, 6] \<and> ca_inv ca"
  using push_front_sliding_window [of 2 "0::nat" "[5, 6, 7]"] by simp

text \<open>
  Assigning one buffer to another (\<open>operator=\<close>), with equal capacities or not, gives
  the target the capacity and the contents of the source, whatever the target held.
\<close>

theorem assign_copies:
  assumes "ca_inv lhs" and "ca_inv rhs"
  shows "\<exists>l. ca_assign d lhs rhs = Inr l \<and> ca_abs l = ca_abs rhs \<and> ca_inv l"
proof -
  obtain l where "deep_copy d (Some lhs) rhs = Inr l" "rep l (ca_capacity rhs) (contents rhs)"
    by (rule rep_deep_copy [OF rep_contents [OF assms(2)], of "Some lhs" d]) (auto simp: assms(1))
  then show ?thesis
    by (simp add: ca_assign_def ca_abs_def rep_def)
qed

theorem assign_copies_witness:
  "\<exists>l. ca_assign 0 (CircArray_ctor (0::nat) 3)
      \<lparr>ca_array = [4, 5], ca_start = 1, ca_size = 2, ca_capacity = 2\<rparr> = Inr l \<and>
    ca_abs l = (2, [5, 4]) \<and> ca_inv l"
  using assign_copies [of "CircArray_ctor (0::nat) 3"
      "\<lparr>ca_array = [4, 5], ca_start = 1, ca_size = 2, ca_capacity = 2\<rparr>" 0]
  by (simp add: CircArray_ctor_def set_initial_values_def ca_inv_def ca_abs_def contents_def
      upt_rec [of _ 2])

end
