(* ===== verification/Port_Buffers.thy ===== *)
theory Port_Buffers
  imports Circ_Array Fixed_Point
begin

text \<open>
  Class \<open>Buffers\<close> of \<open>include/click/buffers.hh\<close> and \<open>lib/buffers.cc\<close>: one ring buffer per input port
  of an indicator, the state machine that collects one value per port for a time stamp, and the
  temporary values that an update puts in front and that the next time stamp takes back.

  The model follows the source operation by operation; \<open>click_chatter\<close> output is left out. The
  lemmas lead to one statement: over any sequence of complete rounds with growing time stamps the
  buffers hold what was added, with at most the latest update in front.
\<close>

section \<open>The class\<close>

datatype BufferStates =
    INITIAL | ACCUMULATING | ACCUMULATING_POP | ACCUMULATED | ACCUMULATED_TEMP
  | ACCUMULATED_TEMP_POP

type_synonym RingBuffer = "FixedPt CircArray"

record Buffers =
  bufs :: "RingBuffer list"
  updated :: string
  temp_updates :: "FixedPt list"
  tstamp :: "64 word"
  num_ports :: nat
  bstate :: BufferStates

definition reset :: "Buffers \<Rightarrow> Buffers" where
  "reset b = b\<lparr>updated := replicate (num_ports b) CHR ''N''\<rparr>"

definition Buffers_ctor :: "nat \<Rightarrow> nat \<Rightarrow> Buffers" where
  "Buffers_ctor n buf_len =
     (reset \<lparr>bufs = replicate n (CircArray_ctor FixedPt_ctor buf_len),
             updated = replicate n (CHR 0x00), temp_updates = replicate n FixedPt_ctor,
             tstamp = 0, num_ports = n, bstate = INITIAL\<rparr>)\<lparr>bstate := INITIAL\<rparr>"

primrec check_updated :: "string \<Rightarrow> bool" where
  "check_updated [] = True"
| "check_updated (u # us) = (if u \<noteq> CHR ''Y'' then False else check_updated us)"

definition is_update_complete :: "Buffers \<Rightarrow> bool" where
  "is_update_complete b \<longleftrightarrow>
     bstate b = ACCUMULATED \<or> bstate b = ACCUMULATED_TEMP \<or> bstate b = ACCUMULATED_TEMP_POP"

text \<open>The loops over all ports that change one buffer after the other.\<close>

definition each_port :: "(nat \<Rightarrow> RingBuffer \<Rightarrow> RingBuffer res) \<Rightarrow> nat \<Rightarrow> RingBuffer list \<Rightarrow> RingBuffer list res" where
  "each_port f n bs =
     iter_res (\<lambda>bs i. bnd (arr_get bs i) (\<lambda>ca. bnd (f i ca) (arr_set bs i))) bs [0..<n]"

definition pop_temps :: "Buffers \<Rightarrow> Buffers res" where
  "pop_temps b =
     bnd (each_port (\<lambda>i ca. bnd (pop_front ca) (\<lambda>(_, ca'). Inr ca')) (num_ports b) (bufs b))
       (\<lambda>bs. Inr (b\<lparr>bufs := bs\<rparr>))"

definition restore_saved :: "Buffers \<Rightarrow> Buffers res" where
  "restore_saved b =
     bnd (each_port (\<lambda>i ca. bnd (arr_get (temp_updates b) i) (\<lambda>v.
            bnd (push_back ca v True) (\<lambda>(_, ca'). Inr ca'))) (num_ports b) (bufs b))
       (\<lambda>bs. Inr (b\<lparr>bufs := bs\<rparr>))"

definition new_value_check :: "Buffers \<Rightarrow> int \<Rightarrow> 64 word \<Rightarrow> (bool \<times> Buffers) res" where
  "new_value_check b port ts =
     (if port < 0 \<or> int (num_ports b) - 1 < port then Inr (False, b)
      else if tstamp b < ts
      then let b1 = (reset b)\<lparr>tstamp := ts\<rparr>
           in bnd (if bstate b1 = ACCUMULATED_TEMP \<or> bstate b1 = ACCUMULATED_TEMP_POP
                   then bnd (pop_temps b1) (\<lambda>b2.
                          if bstate b2 = ACCUMULATED_TEMP_POP then restore_saved b2 else Inr b2)
                   else Inr b1)
                (\<lambda>b3. Inr (True, b3\<lparr>bstate := ACCUMULATING\<rparr>))
      else Inr (True, b))"

text \<open>\<open>_buffers[port]->push_front (value, true); _updated[port] = 'Y';\<close>\<close>

definition put_port :: "Buffers \<Rightarrow> FixedPt \<Rightarrow> nat \<Rightarrow> Buffers res" where
  "put_port b value p =
     bnd (arr_get (bufs b) p) (\<lambda>ca. bnd (push_front ca value True) (\<lambda>(_, ca').
     bnd (arr_set (bufs b) p ca') (\<lambda>bs. bnd (arr_set (updated b) p CHR ''Y'') (\<lambda>us.
       Inr (b\<lparr>bufs := bs, updated := us\<rparr>)))))"

definition add_new_value :: "Buffers \<Rightarrow> FixedPt \<Rightarrow> 64 word \<Rightarrow> int \<Rightarrow> Buffers res" where
  "add_new_value b value ts port =
     bnd (new_value_check b port ts) (\<lambda>(ok, b1).
       if \<not> ok then Inr b1
       else bnd (put_port b1 value (nat port)) (\<lambda>b2.
              Inr (if check_updated (updated b2) then b2\<lparr>bstate := ACCUMULATED\<rparr> else b2)))"

definition save_last :: "Buffers \<Rightarrow> nat \<Rightarrow> Buffers res" where
  "save_last b p =
     bnd (arr_get (bufs b) p) (\<lambda>ca.
       if occupancy ca = capacity ca
       then bnd (pop_back ca) (\<lambda>(v, ca').
            bnd (arr_set (temp_updates b) p v) (\<lambda>tu. bnd (arr_set (bufs b) p ca') (\<lambda>bs.
              Inr (b\<lparr>bufs := bs, temp_updates := tu, bstate := ACCUMULATING_POP\<rparr>))))
       else Inr b)"

definition add_new_value_temp :: "Buffers \<Rightarrow> FixedPt \<Rightarrow> 64 word \<Rightarrow> int \<Rightarrow> Buffers res" where
  "add_new_value_temp b value ts port =
     bnd (new_value_check b port ts) (\<lambda>(ok, b1).
       if \<not> ok then Inr b1
       else bnd (save_last b1 (nat port)) (\<lambda>b2. bnd (put_port b2 value (nat port)) (\<lambda>b3.
              Inr (if check_updated (updated b3)
                   then if bstate b3 = ACCUMULATING then b3\<lparr>bstate := ACCUMULATED_TEMP\<rparr>
                        else b3\<lparr>bstate := ACCUMULATED_TEMP_POP\<rparr>
                   else b3))))"

definition buffers_at :: "Buffers \<Rightarrow> int \<Rightarrow> RingBuffer res" where
  "buffers_at b index =
     (if \<not> 0 \<le> index then Inl AssertFailed
      else if \<not> index < int (num_ports b) then Inl AssertFailed
      else arr_get (bufs b) (nat index))"

section \<open>What the buffers hold\<close>

text \<open>Port \<open>p\<close> holds the list \<open>X p\<close>, newest first, in a ring of \<open>c\<close> cells.\<close>

definition holds :: "Buffers \<Rightarrow> nat \<Rightarrow> (nat \<Rightarrow> FixedPt list) \<Rightarrow> bool" where
  "holds b c X \<longleftrightarrow>
     length (bufs b) = num_ports b \<and> length (updated b) = num_ports b \<and>
     length (temp_updates b) = num_ports b \<and> (\<forall>p < num_ports b. rep (bufs b ! p) c (X p))"

lemma check_updated_iff: "check_updated us \<longleftrightarrow> (\<forall>i < length us. us ! i = CHR ''Y'')"
  by (induction us) (auto simp: nth_Cons less_Suc_eq_0_disj split: nat.split)

lemma each_port_upto:
  assumes "n \<le> length bs" and "\<And>i. i < n \<Longrightarrow> \<exists>ca. f i (bs ! i) = Inr ca \<and> Q i ca"
  shows "\<exists>bs'. each_port f n bs = Inr bs' \<and> length bs' = length bs \<and>
    (\<forall>i < n. Q i (bs' ! i)) \<and> (\<forall>i. n \<le> i \<longrightarrow> bs' ! i = bs ! i)"
  using assms
proof (induction n)
  case 0
  then show ?case by (simp add: each_port_def)
next
  case (Suc n)
  then obtain bs' where bs': "each_port f n bs = Inr bs'" "length bs' = length bs"
    "\<forall>i < n. Q i (bs' ! i)" "\<forall>i. n \<le> i \<longrightarrow> bs' ! i = bs ! i"
    by auto
  obtain ca where "f n (bs ! n) = Inr ca" "Q n ca"
    using Suc.prems(2) [of n] by auto
  with bs' Suc.prems(1) show ?case
    by (auto simp: each_port_def iter_res_append less_Suc_eq)
qed

lemma each_port_holds:
  assumes "holds b c X"
    and "\<And>i ca. i < num_ports b \<Longrightarrow> rep ca c (X i) \<Longrightarrow> \<exists>ca'. f i ca = Inr ca' \<and> rep ca' c (Y i)"
  obtains bs where "each_port f (num_ports b) (bufs b) = Inr bs" and "holds (b\<lparr>bufs := bs\<rparr>) c Y"
proof -
  have "\<exists>bs. each_port f (num_ports b) (bufs b) = Inr bs \<and> length bs = length (bufs b) \<and>
      (\<forall>i < num_ports b. rep (bs ! i) c (Y i)) \<and> (\<forall>i. num_ports b \<le> i \<longrightarrow> bs ! i = bufs b ! i)"
    using assms by (intro each_port_upto [where Q = "\<lambda>i ca. rep ca c (Y i)"]) (auto simp: holds_def)
  then obtain bs where bs: "each_port f (num_ports b) (bufs b) = Inr bs" "length bs = length (bufs b)"
    "\<forall>i < num_ports b. rep (bs ! i) c (Y i)"
    by blast
  then have "holds (b\<lparr>bufs := bs\<rparr>) c Y"
    using assms(1) by (simp add: holds_def)
  with bs(1) show thesis by (rule that)
qed

lemma pop_temps_holds:
  assumes "holds b c (\<lambda>p. v p # X p)"
  obtains bs where "pop_temps b = Inr (b\<lparr>bufs := bs\<rparr>)" and "holds (b\<lparr>bufs := bs\<rparr>) c X"
proof -
  have "\<exists>ca'. bnd (pop_front ca) (\<lambda>(_, ca'). Inr ca') = Inr ca' \<and> rep ca' c (X i)"
    if "rep ca c (v i # X i)" for i ca
    using that by (rule rep_pop_front) simp
  then obtain bs where "each_port (\<lambda>i ca. bnd (pop_front ca) (\<lambda>(_, ca'). Inr ca')) (num_ports b)
      (bufs b) = Inr bs" "holds (b\<lparr>bufs := bs\<rparr>) c X"
    by (rule each_port_holds [OF assms])
  then show thesis
    by (intro that [of bs]) (simp_all add: pop_temps_def)
qed

lemma restore_saved_holds:
  assumes "holds b c (\<lambda>p. butlast (X p))" and "0 < c"
    and "\<And>p. p < num_ports b \<Longrightarrow> length (X p) = c \<and> temp_updates b ! p = last (X p)"
  obtains bs where "restore_saved b = Inr (b\<lparr>bufs := bs\<rparr>)" and "holds (b\<lparr>bufs := bs\<rparr>) c X"
proof -
  let ?f = "\<lambda>i ca. bnd (arr_get (temp_updates b) i)
    (\<lambda>v. bnd (push_back ca v True) (\<lambda>(_, ca'). Inr ca'))"
  have "\<exists>ca'. ?f i ca = Inr ca' \<and> rep ca' c (X i)"
    if i: "i < num_ports b" and r: "rep ca c (butlast (X i))" for i ca
  proof -
    have len: "length (X i) = c" "temp_updates b ! i = last (X i)" "i < length (temp_updates b)"
      using assms(1) assms(3) [OF i] i by (simp_all add: holds_def)
    then have "butlast (X i) @ [last (X i)] = X i" "length (butlast (X i)) \<noteq> c"
      using assms(2) by (auto intro: append_butlast_last_id)
    moreover obtain ca' where "push_back ca (last (X i)) True = Inr (SUCCESS, ca')"
      "rep ca' c ((if length (butlast (X i)) = c then tl (butlast (X i)) else butlast (X i)) @
        [last (X i)])"
      using r assms(2) by (rule rep_push_back)
    ultimately show ?thesis
      using len by (simp del: length_butlast)
  qed
  then obtain bs where "each_port ?f (num_ports b) (bufs b) = Inr bs" "holds (b\<lparr>bufs := bs\<rparr>) c X"
    by (rule each_port_holds [OF assms(1)])
  then show thesis
    by (intro that [of bs]) (simp_all add: restore_saved_def)
qed

lemma put_port_holds:
  assumes "holds b c Y" and "0 < c" and "p < num_ports b"
  obtains bs where "put_port b v p = Inr (b\<lparr>bufs := bs, updated := (updated b)[p := CHR ''Y'']\<rparr>)"
    and "holds (b\<lparr>bufs := bs, updated := (updated b)[p := CHR ''Y'']\<rparr>) c (Y(p := take c (v # Y p)))"
proof -
  have "rep (bufs b ! p) c (Y p)"
    using assms by (simp add: holds_def)
  then obtain ca where ca: "push_front (bufs b ! p) v True = Inr (SUCCESS, ca)"
    "rep ca c (take c (v # Y p))"
    using assms(2) by (rule rep_push_front)
  show thesis
    by (rule that [of "(bufs b)[p := ca]"])
      (use assms ca in \<open>auto simp: put_port_def holds_def nth_list_update\<close>)
qed

lemma save_last_room: "holds b c Y \<Longrightarrow> p < num_ports b \<Longrightarrow> length (Y p) < c \<Longrightarrow> save_last b p = Inr b"
  by (auto simp: save_last_def holds_def rep_occupancy capacity_def rep_def)

lemma save_last_full:
  assumes "holds b c Y" and "0 < c" and "p < num_ports b" and "length (Y p) = c"
  obtains bs where "save_last b p = Inr (b\<lparr>bufs := bs, temp_updates := (temp_updates b)[p := last (Y p)],
      bstate := ACCUMULATING_POP\<rparr>)"
    and "holds (b\<lparr>bufs := bs, temp_updates := (temp_updates b)[p := last (Y p)],
      bstate := ACCUMULATING_POP\<rparr>) c (Y(p := butlast (Y p)))"
proof -
  have r: "rep (bufs b ! p) c (Y p)"
    using assms by (simp add: holds_def)
  moreover have "Y p = butlast (Y p) @ [last (Y p)]"
    using assms by (intro append_butlast_last_id [symmetric]) auto
  ultimately obtain ca where ca: "pop_back (bufs b ! p) = Inr (last (Y p), ca)" "rep ca c (butlast (Y p))"
    by (metis rep_pop_back)
  have full: "occupancy (bufs b ! p) = capacity (bufs b ! p)"
    using r assms(4) by (auto simp: rep_occupancy capacity_def rep_def)
  show thesis
    by (rule that [of "(bufs b)[p := ca]"])
      (use assms ca full in \<open>auto simp: save_last_def holds_def nth_list_update\<close>)
qed

section \<open>Rounds\<close>

text \<open>
  What a buffer set will hold once the temporary values are taken back: \<open>X p\<close> at port \<open>p\<close>.
\<close>

definition committed :: "Buffers \<Rightarrow> nat \<Rightarrow> (nat \<Rightarrow> FixedPt list) \<Rightarrow> bool" where
  "committed b c X \<longleftrightarrow>
     (if bstate b = ACCUMULATED_TEMP then \<exists>v. holds b c (\<lambda>p. v p # X p)
      else if bstate b = ACCUMULATED_TEMP_POP
      then (\<exists>v. holds b c (\<lambda>p. v p # butlast (X p))) \<and>
           (\<forall>p < num_ports b. length (X p) = c \<and> temp_updates b ! p = last (X p))
      else holds b c X)"

lemma holds_cong:
  "bufs b = bufs b' \<Longrightarrow> length (updated b) = length (updated b') \<Longrightarrow>
   length (temp_updates b) = length (temp_updates b') \<Longrightarrow> num_ports b = num_ports b' \<Longrightarrow>
   holds b c X = holds b' c X"
  by (simp add: holds_def)

text \<open>A later time stamp opens a round on the committed values.\<close>

lemma new_value_check_opens:
  assumes "committed b c X" and "0 < c" and "tstamp b < ts" and "p < num_ports b"
  obtains b' where "new_value_check b (int p) ts = Inr (True, b')" and "holds b' c X"
    and "bstate b' = ACCUMULATING" and "tstamp b' = ts" and "num_ports b' = num_ports b"
    and "updated b' = replicate (num_ports b) CHR ''N''"
proof -
  let ?b1 = "(reset b)\<lparr>tstamp := ts\<rparr>"
  have tb: "holds ?b1 c Y" if "holds b c Y" for Y
    using that by (simp add: holds_def reset_def)
  have st: "bstate ?b1 = bstate b" and np: "num_ports ?b1 = num_ports b"
    and tu: "temp_updates ?b1 = temp_updates b"
    by (simp_all add: reset_def)
  have rng: "\<not> (int p < 0 \<or> int (num_ports b) - 1 < int p)"
    using assms(4) by simp
  consider (temp) "bstate b = ACCUMULATED_TEMP" | (popped) "bstate b = ACCUMULATED_TEMP_POP"
    | (other) "bstate b \<noteq> ACCUMULATED_TEMP" "bstate b \<noteq> ACCUMULATED_TEMP_POP"
    by blast
  then show thesis
  proof cases
    case temp
    with assms(1) obtain v where "holds ?b1 c (\<lambda>p. v p # X p)"
      using tb by (auto simp: committed_def)
    then obtain bs where "pop_temps ?b1 = Inr (?b1\<lparr>bufs := bs\<rparr>)" "holds (?b1\<lparr>bufs := bs\<rparr>) c X"
      by (rule pop_temps_holds)
    with temp assms(3) rng st show thesis
      by (intro that [of "?b1\<lparr>bufs := bs, bstate := ACCUMULATING\<rparr>"])
        (simp_all add: new_value_check_def Let_def reset_def holds_def)
  next
    case popped
    with assms(1) obtain v where "holds ?b1 c (\<lambda>p. v p # butlast (X p))"
      using tb by (auto simp: committed_def)
    then obtain bs where bs: "pop_temps ?b1 = Inr (?b1\<lparr>bufs := bs\<rparr>)"
      "holds (?b1\<lparr>bufs := bs\<rparr>) c (\<lambda>p. butlast (X p))"
      by (rule pop_temps_holds)
    have "length (X p) = c \<and> temp_updates (?b1\<lparr>bufs := bs\<rparr>) ! p = last (X p)"
      if "p < num_ports (?b1\<lparr>bufs := bs\<rparr>)" for p
      using that popped assms(1) by (simp add: committed_def reset_def)
    with bs(2) assms(2) obtain cs where "restore_saved (?b1\<lparr>bufs := bs\<rparr>) = Inr (?b1\<lparr>bufs := cs\<rparr>)"
      "holds (?b1\<lparr>bufs := cs\<rparr>) c X"
      by (auto elim: restore_saved_holds)
    with popped bs(1) assms(3) rng st show thesis
      by (intro that [of "?b1\<lparr>bufs := cs, bstate := ACCUMULATING\<rparr>"])
        (simp_all add: new_value_check_def Let_def reset_def holds_def)
  next
    case other
    with assms rng tb show thesis
      by (intro that [of "?b1\<lparr>bstate := ACCUMULATING\<rparr>"])
        (simp_all add: new_value_check_def Let_def reset_def holds_def committed_def)
  qed
qed

lemma new_value_check_goes_on:
  "p < num_ports b \<Longrightarrow> tstamp b = ts \<Longrightarrow> new_value_check b (int p) ts = Inr (True, b)"
  by (simp add: new_value_check_def)

text \<open>
  The state in the middle of a round, the ports in \<open>D\<close> having delivered: \<open>temp\<close> tells updates from
  additions, \<open>fl\<close> whether the rings were full when the round began.
\<close>

definition marked :: "Buffers \<Rightarrow> nat set \<Rightarrow> bool" where
  "marked b D \<longleftrightarrow> (\<forall>p < num_ports b. updated b ! p = CHR ''Y'' \<longleftrightarrow> p \<in> D)"

definition fronted :: "nat \<Rightarrow> (nat \<Rightarrow> FixedPt list) \<Rightarrow> (nat \<Rightarrow> FixedPt) \<Rightarrow> nat set \<Rightarrow> nat \<Rightarrow> FixedPt list" where
  "fronted c X v D = (\<lambda>p. if p \<in> D then take c (v p # X p) else X p)"

definition collected :: "bool \<Rightarrow> bool \<Rightarrow> Buffers \<Rightarrow> nat \<Rightarrow> (nat \<Rightarrow> FixedPt list) \<Rightarrow> (nat \<Rightarrow> FixedPt) \<Rightarrow>
    nat set \<Rightarrow> bool" where
  "collected temp fl b c X v D \<longleftrightarrow>
     holds b c (fronted c X v D) \<and> marked b D \<and>
     (temp \<and> fl \<longrightarrow> (\<forall>p \<in> D. temp_updates b ! p = last (X p))) \<and>
     bstate b =
       (if D = {..<num_ports b}
        then if \<not> temp then ACCUMULATED else if fl then ACCUMULATED_TEMP_POP else ACCUMULATED_TEMP
        else if temp \<and> fl \<and> D \<noteq> {} then ACCUMULATING_POP else ACCUMULATING)"

lemma all_updated:
  assumes "holds b c Y" and "D \<subseteq> {..<num_ports b}" and "marked b D"
  shows "check_updated (updated b) \<longleftrightarrow> D = {..<num_ports b}"
  using assms by (auto simp: check_updated_iff holds_def marked_def)

lemma put_port_collects:
  assumes "holds b c (\<lambda>q. if q = p then Z else fronted c X v D q)"
    and "take c (v p # Z) = take c (v p # X p)"
    and "marked b D" and "0 < c" and "D \<subseteq> {..<num_ports b}" and "p < num_ports b" and "p \<notin> D"
  obtains bs us where "put_port b (v p) p = Inr (b\<lparr>bufs := bs, updated := us\<rparr>)"
    and "holds (b\<lparr>bufs := bs, updated := us\<rparr>) c (fronted c X v (insert p D))"
    and "marked (b\<lparr>bufs := bs, updated := us\<rparr>) (insert p D)"
    and "check_updated us \<longleftrightarrow> insert p D = {..<num_ports b}"
proof -
  let ?us = "(updated b)[p := CHR ''Y'']"
  let ?Y = "\<lambda>q. if q = p then Z else fronted c X v D q"
  obtain bs where bs: "put_port b (v p) p = Inr (b\<lparr>bufs := bs, updated := ?us\<rparr>)"
    "holds (b\<lparr>bufs := bs, updated := ?us\<rparr>) c (?Y(p := take c (v p # ?Y p)))"
    using assms(1,4,6) by (rule put_port_holds)
  have "?Y(p := take c (v p # ?Y p)) = fronted c X v (insert p D)"
    using assms(2) by (auto simp: fun_eq_iff fronted_def)
  with bs(2) have h: "holds (b\<lparr>bufs := bs, updated := ?us\<rparr>) c (fronted c X v (insert p D))"
    by simp
  have m: "marked (b\<lparr>bufs := bs, updated := ?us\<rparr>) (insert p D)"
    using assms(1,3,6) by (auto simp: marked_def holds_def nth_list_update)
  have "check_updated ?us \<longleftrightarrow> insert p D = {..<num_ports b}"
    using all_updated [OF h _ m] assms(5,6) by simp
  with bs(1) h m show thesis by (rule that)
qed

lemma save_last_collects:
  assumes "holds b c (fronted c X v D)" and "0 < c" and "p < num_ports b" and "p \<notin> D"
    and "if fl then length (X p) = c else length (X p) < c"
  obtains bs where "save_last b p = Inr (if fl then
      b\<lparr>bufs := bs, temp_updates := (temp_updates b)[p := last (X p)], bstate := ACCUMULATING_POP\<rparr>
      else b)"
    and "holds (b\<lparr>bufs := if fl then bs else bufs b\<rparr>) c
      (\<lambda>q. if q = p then if fl then butlast (X p) else X p else fronted c X v D q)"
proof (cases fl)
  case True
  let ?tu = "(temp_updates b)[p := last (fronted c X v D p)]"
  have Xp: "fronted c X v D p = X p" using assms(4) by (simp add: fronted_def)
  then have "length (fronted c X v D p) = c" using True assms(5) by simp
  with assms(1-3) obtain bs where "save_last b p = Inr (b\<lparr>bufs := bs, temp_updates := ?tu,
      bstate := ACCUMULATING_POP\<rparr>)"
    "holds (b\<lparr>bufs := bs, temp_updates := ?tu, bstate := ACCUMULATING_POP\<rparr>) c
      ((fronted c X v D)(p := butlast (fronted c X v D p)))"
    by (rule save_last_full)
  with True Xp show thesis
    by (intro that [of bs]) (auto simp: holds_def)
next
  case False
  then have "length (fronted c X v D p) < c" using assms(4,5) by (simp add: fronted_def)
  with assms(1,3) have "save_last b p = Inr b" by (rule save_last_room)
  moreover have "fronted c X v D = (\<lambda>q. if q = p then X p else fronted c X v D q)"
    using assms(4) by (auto simp: fun_eq_iff fronted_def)
  ultimately show thesis
    using False assms(1) by (intro that [of "bufs b"]) simp_all
qed

text \<open>One value arriving at a port: an addition or a temporary update.\<close>

definition deliver :: "bool \<Rightarrow> 64 word \<Rightarrow> Buffers \<Rightarrow> nat \<times> FixedPt \<Rightarrow> Buffers res" where
  "deliver temp ts b a =
     (if temp then add_new_value_temp b (snd a) ts (int (fst a))
      else add_new_value b (snd a) ts (int (fst a)))"

lemma holds_bstate [simp]: "holds (b\<lparr>bstate := s\<rparr>) c Y = holds b c Y"
  by (simp add: holds_def)

lemma marked_bstate [simp]: "marked (b\<lparr>bstate := s\<rparr>) D = marked b D"
  by (simp add: marked_def)

lemma deliver_collects:
  assumes "collected temp fl b c X v D" and "0 < c" and "tstamp b = ts"
    and "D \<subseteq> {..<num_ports b}" and "p < num_ports b" and "p \<notin> D"
    and "if fl then length (X p) = c else length (X p) < c"
  shows "\<exists>b'. deliver temp ts b (p, v p) = Inr b' \<and> collected temp fl b' c X v (insert p D) \<and>
    tstamp b' = ts \<and> num_ports b' = num_ports b"
proof -
  have h: "holds b c (fronted c X v D)" and m: "marked b D"
    and st: "bstate b = (if temp \<and> fl \<and> D \<noteq> {} then ACCUMULATING_POP else ACCUMULATING)"
    and tu: "temp \<and> fl \<longrightarrow> (\<forall>p \<in> D. temp_updates b ! p = last (X p))"
    using assms(1,5,6) by (auto simp: collected_def)
  note go = new_value_check_goes_on [OF assms(5,3)]
  show ?thesis
  proof (cases temp)
    case False
    have "(\<lambda>q. if q = p then X p else fronted c X v D q) = fronted c X v D"
      using assms(6) by (auto simp: fun_eq_iff fronted_def)
    with h have pre: "holds b c (\<lambda>q. if q = p then X p else fronted c X v D q)"
      by simp
    obtain bs us where *: "put_port b (v p) p = Inr (b\<lparr>bufs := bs, updated := us\<rparr>)"
      "holds (b\<lparr>bufs := bs, updated := us\<rparr>) c (fronted c X v (insert p D))"
      "marked (b\<lparr>bufs := bs, updated := us\<rparr>) (insert p D)"
      "check_updated us \<longleftrightarrow> insert p D = {..<num_ports b}"
      by (rule put_port_collects [OF pre refl m assms(2,4-6)])
    let ?b2 = "b\<lparr>bufs := bs, updated := us\<rparr>"
    let ?b3 = "if check_updated us then ?b2\<lparr>bstate := ACCUMULATED\<rparr> else ?b2"
    have "deliver temp ts b (p, v p) = Inr ?b3"
      using False go *(1) by (simp add: deliver_def add_new_value_def)
    moreover have "collected temp fl ?b3 c X v (insert p D)"
      using False * st by (cases "insert p D = {..<num_ports b}") (simp_all add: collected_def)
    ultimately show ?thesis
      using assms(3) by (intro exI [of _ ?b3]) simp
  next
    case True
    obtain bs where sv: "save_last b p = Inr (if fl then
        b\<lparr>bufs := bs, temp_updates := (temp_updates b)[p := last (X p)], bstate := ACCUMULATING_POP\<rparr>
        else b)"
      "holds (b\<lparr>bufs := if fl then bs else bufs b\<rparr>) c
        (\<lambda>q. if q = p then if fl then butlast (X p) else X p else fronted c X v D q)"
      using h assms(2,5,6,7) by (rule save_last_collects)
    define b2 where "b2 = (if fl then
      b\<lparr>bufs := bs, temp_updates := (temp_updates b)[p := last (X p)], bstate := ACCUMULATING_POP\<rparr>
      else b)"
    have b2: "holds b2 c (\<lambda>q. if q = p then if fl then butlast (X p) else X p else fronted c X v D q)"
      "marked b2 D" "num_ports b2 = num_ports b" "tstamp b2 = tstamp b"
      using sv(2) m by (auto simp: b2_def holds_def marked_def)
    have "take c (v p # (if fl then butlast (X p) else X p)) = take c (v p # X p)"
      using assms(2,7) by (auto simp: take_Cons_full take_Cons_length_le)
    note pre = put_port_collects [OF b2(1) this b2(2) assms(2), unfolded b2(3), OF assms(4-6)]
    obtain cs us where *: "put_port b2 (v p) p = Inr (b2\<lparr>bufs := cs, updated := us\<rparr>)"
      "holds (b2\<lparr>bufs := cs, updated := us\<rparr>) c (fronted c X v (insert p D))"
      "marked (b2\<lparr>bufs := cs, updated := us\<rparr>) (insert p D)"
      "check_updated us \<longleftrightarrow> insert p D = {..<num_ports b}"
      by (rule pre)
    have tu2: "temp_updates b2 ! q = last (X q)" if "fl" "q \<in> insert p D" for q
      using that h tu True assms(5) by (auto simp: b2_def nth_list_update holds_def)
    have st2: "bstate b2 = (if fl then ACCUMULATING_POP else ACCUMULATING)"
      using st by (auto simp: b2_def)
    let ?b3 = "b2\<lparr>bufs := cs, updated := us\<rparr>"
    let ?b4 = "if check_updated us then if bstate b2 = ACCUMULATING
      then ?b3\<lparr>bstate := ACCUMULATED_TEMP\<rparr> else ?b3\<lparr>bstate := ACCUMULATED_TEMP_POP\<rparr> else ?b3"
    have "deliver temp ts b (p, v p) = Inr ?b4"
      using True go sv(1) [folded b2_def] *(1) by (simp add: deliver_def add_new_value_temp_def)
    moreover have "collected temp fl ?b4 c X v (insert p D)"
      using True * st2 tu2 b2(3)
      by (cases fl; cases "insert p D = {..<num_ports b}") (simp_all add: collected_def)
    ultimately show ?thesis
      using assms(3) b2(3,4) by (intro exI [of _ ?b4]) simp
  qed
qed

lemma deliver_first:
  assumes "new_value_check b (int p) ts = Inr (True, b0)" and "p < num_ports b0" and "tstamp b0 = ts"
  shows "deliver temp ts b (p, x) = deliver temp ts b0 (p, x)"
  using assms by (simp add: deliver_def add_new_value_def add_new_value_temp_def new_value_check_goes_on)

text \<open>
  A round: one value for every port, in any order of arrival, all with the same time stamp.
\<close>

type_synonym round = "bool \<times> 64 word \<times> (nat \<times> FixedPt) list"

definition run_round :: "Buffers \<Rightarrow> round \<Rightarrow> Buffers res" where
  "run_round b r = (case r of (temp, ts, arr) \<Rightarrow> iter_res (deliver temp ts) b arr)"

definition all_ports :: "nat \<Rightarrow> (nat \<times> FixedPt) list \<Rightarrow> bool" where
  "all_ports n arr \<longleftrightarrow> distinct (map fst arr) \<and> set (map fst arr) = {..<n}"

definition level :: "nat \<Rightarrow> nat \<Rightarrow> bool \<Rightarrow> (nat \<Rightarrow> FixedPt list) \<Rightarrow> bool" where
  "level n c fl X \<longleftrightarrow> (\<forall>p < n. if fl then length (X p) = c else length (X p) < c)"

lemma gather:
  assumes "committed b c X" and "0 < c" and "tstamp b < ts" and "level (num_ports b) c fl X"
    and "distinct (map fst arr)" and "set (map fst arr) \<subseteq> {..<num_ports b}" and "arr \<noteq> []"
    and "\<And>p x. (p, x) \<in> set arr \<Longrightarrow> v p = x"
  shows "\<exists>b'. run_round b (temp, ts, arr) = Inr b' \<and> tstamp b' = ts \<and> num_ports b' = num_ports b \<and>
    collected temp fl b' c X v (set (map fst arr))"
  using assms(5-8)
proof (induction arr rule: rev_induct)
  case (snoc a arr)
  obtain p where a: "a = (p, v p)" and p: "p < num_ports b"
    using snoc.prems by (cases a) auto
  have len: "if fl then length (X p) = c else length (X p) < c"
    using assms(4) p by (simp add: level_def)
  show ?case
  proof (cases "arr = []")
    case True
    obtain b0 where b0: "new_value_check b (int p) ts = Inr (True, b0)" "holds b0 c X"
      "bstate b0 = ACCUMULATING" "tstamp b0 = ts" "num_ports b0 = num_ports b"
      "updated b0 = replicate (num_ports b) CHR ''N''"
      using assms(1-3) p by (rule new_value_check_opens)
    then have "collected temp fl b0 c X v {}"
      using p by (auto simp: collected_def fronted_def marked_def)
    then have "\<exists>b'. deliver temp ts b0 (p, v p) = Inr b' \<and> collected temp fl b' c X v (insert p {}) \<and>
        tstamp b' = ts \<and> num_ports b' = num_ports b0"
      using assms(2) b0(4,5) p len by (intro deliver_collects) auto
    then show ?thesis
      using True a b0 p deliver_first [OF b0(1)] by (auto simp: run_round_def)
  next
    case False
    have pre: "distinct (map fst arr)" "set (map fst arr) \<subseteq> {..<num_ports b}"
      and new: "p \<notin> set (map fst arr)"
      using snoc.prems(1,2) a by auto
    have "v q = x" if "(q, x) \<in> set arr" for q x
      using that snoc.prems(4) by simp
    from snoc.IH [OF pre False this] obtain b1 where b1: "run_round b (temp, ts, arr) = Inr b1" "tstamp b1 = ts"
      "num_ports b1 = num_ports b" "collected temp fl b1 c X v (set (map fst arr))"
      by blast
    have "\<exists>b'. deliver temp ts b1 (p, v p) = Inr b' \<and>
        collected temp fl b' c X v (insert p (set (map fst arr))) \<and>
        tstamp b' = ts \<and> num_ports b' = num_ports b1"
      using b1 assms(2) snoc.prems(2) p new len by (intro deliver_collects) auto
    then show ?thesis
      using b1 a by (auto simp: run_round_def iter_res_append)
  qed
qed simp

text \<open>The list a port holds once the round \<open>arr\<close> is in front of it.\<close>

definition in_front :: "nat \<Rightarrow> (nat \<times> FixedPt) list \<Rightarrow> (nat \<Rightarrow> FixedPt list) \<Rightarrow> nat \<Rightarrow> FixedPt list" where
  "in_front c arr X = (\<lambda>p. take c (the (map_of arr p) # X p))"

lemma round_complete:
  assumes "committed b c X" and "0 < c" and "tstamp b < ts" and "level (num_ports b) c fl X"
    and "all_ports (num_ports b) arr" and "0 < num_ports b"
  obtains b' where "run_round b (temp, ts, arr) = Inr b'" and "tstamp b' = ts"
    and "num_ports b' = num_ports b" and "is_update_complete b'" and "holds b' c (in_front c arr X)"
    and "committed b' c (if temp then X else in_front c arr X)"
    and "temp \<or> bstate b' = ACCUMULATED"
proof -
  let ?v = "\<lambda>p. the (map_of arr p)"
  let ?n = "num_ports b"
  have D: "set (map fst arr) = {..<?n}" and dist: "distinct (map fst arr)"
    using assms(5) by (simp_all add: all_ports_def)
  then have ne: "arr \<noteq> []"
    using assms(6) by auto
  have val: "?v p = x" if "(p, x) \<in> set arr" for p x
    using dist that by simp
  obtain b' where b': "run_round b (temp, ts, arr) = Inr b'" "tstamp b' = ts"
    "num_ports b' = ?n" "collected temp fl b' c X ?v {..<?n}"
    using gather [OF assms(1-4) dist _ ne, where v = ?v and temp = temp] D val by auto
  have eq: "holds b' c (in_front c arr X)"
    using b'(3,4) by (auto simp: collected_def holds_def fronted_def in_front_def)
  have st: "bstate b' = (if \<not> temp then ACCUMULATED else if fl then ACCUMULATED_TEMP_POP
      else ACCUMULATED_TEMP)"
    using b'(3,4) by (simp add: collected_def)
  have shape: "in_front c arr X p = ?v p # (if fl then butlast (X p) else X p)" if "p < ?n" for p
    using assms(2,4) that by (auto simp: in_front_def level_def take_Cons_full take_Cons_length_le)
  have "holds b' c (\<lambda>p. ?v p # (if fl then butlast (X p) else X p))"
    using eq shape b'(3) by (simp add: holds_def)
  moreover have "\<forall>p < num_ports b'. length (X p) = c \<and> temp_updates b' ! p = last (X p)" if fl temp
    using that b'(3,4) assms(4) by (auto simp: collected_def level_def)
  ultimately have "committed b' c (if temp then X else in_front c arr X)"
    using st eq by (cases fl) (auto simp: committed_def)
  with b' eq show thesis
    by (intro that [of b']) (auto simp: is_update_complete_def st)
qed

lemma round_incomplete:
  assumes "committed b c X" and "0 < c" and "tstamp b < ts" and "level (num_ports b) c fl X"
    and "all_ports (num_ports b) arr" and "arr = xs @ ys" and "xs \<noteq> []" and "ys \<noteq> []"
  shows "\<exists>b'. run_round b (temp, ts, xs) = Inr b' \<and> \<not> is_update_complete b'"
proof -
  have dist: "distinct (map fst xs)" and sub: "set (map fst xs) \<subseteq> {..<num_ports b}"
    using assms(5,6) by (auto simp: all_ports_def)
  have "set (map fst xs) \<inter> set (map fst ys) = {}" "set (map fst ys) \<noteq> {}"
    "set (map fst ys) \<subseteq> {..<num_ports b}"
    using assms(5,6,8) by (auto simp: all_ports_def)
  then have part: "set (map fst xs) \<noteq> {..<num_ports b}"
    using Int_absorb1 by metis
  have val: "the (map_of xs p) = x" if "(p, x) \<in> set xs" for p x
    using dist that by simp
  obtain b' where "run_round b (temp, ts, xs) = Inr b'" "num_ports b' = num_ports b"
    "collected temp fl b' c X (\<lambda>p. the (map_of xs p)) (set (map fst xs))"
    using gather [OF assms(1-4) dist sub assms(7), of "\<lambda>p. the (map_of xs p)" temp] val by blast
  then show ?thesis
    using part by (auto simp: collected_def is_update_complete_def)
qed

section \<open>Sequences of rounds\<close>

fun rounds_ok :: "nat \<Rightarrow> 64 word \<Rightarrow> round list \<Rightarrow> bool" where
  "rounds_ok n t [] \<longleftrightarrow> True"
| "rounds_ok n t ((temp, ts, arr) # rs) \<longleftrightarrow> t < ts \<and> all_ports n arr \<and> rounds_ok n ts rs"

text \<open>The values a sequence of rounds adds at a port, newest first; updates add nothing.\<close>

definition added :: "round list \<Rightarrow> nat \<Rightarrow> FixedPt list" where
  "added rs p = rev (map (\<lambda>(_, _, arr). the (map_of arr p)) (filter (\<lambda>(temp, _, _). \<not> temp) rs))"

lemma added_simps [simp]:
  "added [] p = []"
  "added ((temp, ts, arr) # rs) p = added rs p @ (if temp then [] else [the (map_of arr p)])"
  by (simp_all add: added_def)

lemma rounds_run:
  assumes "0 < c" and "0 < num_ports b" and "committed b c (\<lambda>p. take c (H p))"
    and "\<And>p. p < num_ports b \<Longrightarrow> length (H p) = k" and "rounds_ok (num_ports b) (tstamp b) (rs @ rs')"
  shows "\<exists>b' k'. iter_res run_round b rs = Inr b' \<and> num_ports b' = num_ports b \<and>
    committed b' c (\<lambda>p. take c (added rs p @ H p)) \<and>
    (\<forall>p < num_ports b. length (added rs p @ H p) = k') \<and> rounds_ok (num_ports b) (tstamp b') rs'"
  using assms(2-)
proof (induction rs arbitrary: b H k)
  case (Cons r rs)
  obtain temp ts arr where r: "r = (temp, ts, arr)" by (cases r)
  let ?X = "\<lambda>p. take c (H p)"
  let ?H = "\<lambda>p. (if temp then [] else [the (map_of arr p)]) @ H p"
  have ok: "tstamp b < ts" "all_ports (num_ports b) arr" "rounds_ok (num_ports b) ts (rs @ rs')"
    using Cons.prems(4) r by simp_all
  have lev: "level (num_ports b) c (c \<le> k) ?X"
    using Cons.prems(3) by (auto simp: level_def)
  obtain b1 where b1: "run_round b (temp, ts, arr) = Inr b1" "tstamp b1 = ts"
    "num_ports b1 = num_ports b" "committed b1 c (if temp then ?X else in_front c arr ?X)"
    using Cons.prems(2) assms(1) ok(1) lev ok(2) Cons.prems(1) by (rule round_complete)
  have "(if temp then ?X else in_front c arr ?X) = (\<lambda>p. take c (?H p))"
    using assms(1) by (auto simp: in_front_def fun_eq_iff take_Cons' min_def)
  with b1 ok(3) Cons.prems(1,3) have
    "\<exists>b' k'. iter_res run_round b1 rs = Inr b' \<and> num_ports b' = num_ports b1 \<and>
      committed b' c (\<lambda>p. take c (added rs p @ ?H p)) \<and>
      (\<forall>p < num_ports b1. length (added rs p @ ?H p) = k') \<and> rounds_ok (num_ports b1) (tstamp b') rs'"
    by (intro Cons.IH [where k = "if temp then k else Suc k"]) simp_all
  with b1 r show ?case by simp
qed auto

lemma Buffers_ctor_simps [simp]:
  "num_ports (Buffers_ctor n c) = n" "tstamp (Buffers_ctor n c) = 0" "bstate (Buffers_ctor n c) = INITIAL"
  by (simp_all add: Buffers_ctor_def reset_def)

lemma committed_ctor: "committed (Buffers_ctor n c) c (\<lambda>_. [])"
  by (auto simp: committed_def) (simp add: holds_def Buffers_ctor_def reset_def rep_ctor)

text \<open>
  Property C24. Updates are provisional. After any sequence of complete rounds with growing time
  stamps, each delivering one value to every port in any order, the last delivery completes the
  round and every port holds its value of the last round, addition or update, in front of the
  values of the earlier additions, newest first and cut to the capacity: no earlier update leaves
  a trace and no addition is lost to one.
\<close>

theorem updates_are_provisional:
  assumes "0 < c" and "0 < n" and "rounds_ok n 0 (rs @ [(temp, ts, arr)])"
  shows "\<exists>b. iter_res run_round (Buffers_ctor n c) (rs @ [(temp, ts, arr)]) = Inr b \<and>
    is_update_complete b \<and>
    (\<forall>p < n. \<exists>ca. buffers_at b (int p) = Inr ca \<and> ca_inv ca \<and>
      contents ca = take c (the (map_of arr p) # added rs p))"
proof -
  obtain b k where b: "iter_res run_round (Buffers_ctor n c) rs = Inr b" "num_ports b = n"
    "committed b c (\<lambda>p. take c (added rs p))" "\<forall>p < n. length (added rs p) = k"
    "tstamp b < ts" "all_ports n arr"
    using rounds_run [OF assms(1), of "Buffers_ctor n c" "\<lambda>_. []" 0 rs "[(temp, ts, arr)]"]
      assms committed_ctor by auto
  have lev: "level (num_ports b) c (c \<le> k) (\<lambda>p. take c (added rs p))"
    using b(2,4) by (auto simp: level_def)
  obtain b' where b': "run_round b (temp, ts, arr) = Inr b'" "num_ports b' = num_ports b"
    "is_update_complete b'" "holds b' c (in_front c arr (\<lambda>p. take c (added rs p)))"
    using b(3) assms(1) b(5) lev b(6) [folded b(2)] assms(2) [folded b(2)] by (rule round_complete)
  have "take c (x # take c (added rs p)) = take c (x # added rs p)" for x p
    using assms(1) by (simp add: take_Cons' min_def)
  then have "\<exists>ca. buffers_at b' (int p) = Inr ca \<and> ca_inv ca \<and>
      contents ca = take c (the (map_of arr p) # added rs p)" if "p < n" for p
    using that b(2) b'(2,4) by (auto simp: buffers_at_def holds_def rep_def in_front_def)
  with b(1) b'(1,3) show ?thesis
    by (simp add: iter_res_append)
qed

theorem updates_are_provisional_witness:
  "\<exists>b. iter_res run_round (Buffers_ctor 2 2)
      ([(False, 1, [(1, fromInt 5), (0, fromInt 7)]), (True, 2, [(0, fromInt 8), (1, fromInt 6)])] @
       [(True, 3, [(0, fromInt 9), (1, fromInt 4)])]) = Inr b \<and> is_update_complete b \<and>
    (\<forall>p < 2. \<exists>ca. buffers_at b (int p) = Inr ca \<and> ca_inv ca \<and>
      contents ca = take 2 (the (map_of [(0, fromInt 9), (1, fromInt 4)] p) #
        added [(False, 1, [(1, fromInt 5), (0, fromInt 7)]), (True, 2, [(0, fromInt 8), (1, fromInt 6)])] p))"
  by (rule updates_are_provisional) (auto simp: all_ports_def)

text \<open>
  A round is complete only with its last port: after every shorter sequence of
  deliveries of the round the buffers do not report a complete update, so an element computes and
  sends exactly one result per round.
\<close>

theorem round_waits_for_every_port:
  assumes "0 < c" and "0 < n" and "rounds_ok n 0 (rs @ [(temp, ts, arr)])"
    and "arr = xs @ ys" and "xs \<noteq> []" and "ys \<noteq> []"
  shows "\<exists>b. bnd (iter_res run_round (Buffers_ctor n c) rs) (\<lambda>b. run_round b (temp, ts, xs)) = Inr b \<and>
    \<not> is_update_complete b"
proof -
  obtain b k where b: "iter_res run_round (Buffers_ctor n c) rs = Inr b" "num_ports b = n"
    "committed b c (\<lambda>p. take c (added rs p))" "\<forall>p < n. length (added rs p) = k"
    "tstamp b < ts" "all_ports n arr"
    using rounds_run [OF assms(1), of "Buffers_ctor n c" "\<lambda>_. []" 0 rs "[(temp, ts, arr)]"]
      assms committed_ctor by auto
  have lev: "level (num_ports b) c (c \<le> k) (\<lambda>p. take c (added rs p))"
    using b(2,4) by (auto simp: level_def)
  have "\<exists>b'. run_round b (temp, ts, xs) = Inr b' \<and> \<not> is_update_complete b'"
    using b(3) assms(1) b(5) lev b(6) [folded b(2)] assms(4-6) by (rule round_incomplete)
  with b(1) show ?thesis by auto
qed

theorem round_waits_for_every_port_witness:
  "\<exists>b. bnd (iter_res run_round (Buffers_ctor 2 2) []) (\<lambda>b. run_round b (True, 1, [(1, fromInt 5)])) = Inr b \<and>
    \<not> is_update_complete b"
  by (rule round_waits_for_every_port [where arr = "[(1, fromInt 5), (0, fromInt 7)]" and ys = "[(0, fromInt 7)]"])
    (auto simp: all_ports_def)

text \<open>
  In newly built buffers of one port, an update with the time stamp 0, which is not later than the initial one, is recorded as
  having displaced a value although it displaced none: the next round then puts the
  default-constructed contents of \<open>_temp_updates\<close> behind the buffered values, a zero nobody sent.
\<close>

theorem stale_update_leaves_a_zero:
  "bnd (add_new_value_temp (Buffers_ctor 1 2) v 0 0) (\<lambda>b1. bnd (add_new_value b1 w 1 0) (\<lambda>b2.
     bnd (buffers_at b2 0) (\<lambda>ca. Inr (bstate b1, contents ca)))) =
   Inr (ACCUMULATED_TEMP_POP, [w, FixedPt_ctor])"
  by (simp add: add_new_value_temp_def add_new_value_def new_value_check_def save_last_def put_port_def
      Buffers_ctor_def reset_def CircArray_ctor_def set_initial_values_def occupancy_def capacity_def
      push_front_def store_front_def pop_temps_def restore_saved_def each_port_def pop_front_def
      pop_front_into_def push_back_def store_back_def slot_def buffers_at_def contents_def Let_def
      numeral_2_eq_2)

end
