(* ===== verification/Indicator_Base.thy ===== *)
theory Indicator_Base
  imports Port_Buffers Packets
begin

text \<open>
  \<open>elements/standard/indicator_base.{hh,cc}\<close>: the element every indicator derives from. Its \<open>push\<close> is
  modelled whole: the guards on activity and message type, the initialisation path, and the three
  operation modes. The virtual functions of the derived class are a record of operations.

  The locale \<open>incremental_indicator\<close> is the contract between the base class and a derived element:
  what \<open>process_ext\<close> and \<open>process_opt_ext\<close> owe to \<open>process_naive\<close>. Inside it, the naive mode and the
  startup/normal mode are shown to send the same packets.
\<close>

section \<open>The class\<close>

datatype OpMode = STARTUP | NORMAL | NAIVE

record CacheStruct =
  cs_value :: FixedPt
  cs_ring_buffer :: RingBuffer

definition CacheStruct_ctor :: CacheStruct where
  "CacheStruct_ctor = \<lparr>cs_value = FixedPt_ctor, cs_ring_buffer = CircArray_default FixedPt_ctor\<rparr>"

type_synonym VectorCache = "CacheStruct list"

text \<open>
  The virtual functions. \<open>process_ext\<close> and \<open>process_opt_ext\<close> return a reference to the derived class's
  \<open>_local_cache\<close>: they take its current value and return its new one.
\<close>

record indicator_ops =
  initialize_element :: "Buffers \<Rightarrow> FixedPt res"
  process_naive :: "Buffers \<Rightarrow> FixedPt res"
  process_ext :: "VectorCache \<Rightarrow> Buffers \<Rightarrow> VectorCache res"
  process_opt_ext :: "VectorCache \<Rightarrow> FixedPt list \<Rightarrow> VectorCache \<Rightarrow> VectorCache res"

record IndicatorBase =
  active :: bool
  op_mode :: OpMode
  buffers :: "Buffers option"
  ib_cache :: VectorCache
  initialized :: bool
  local_cache :: VectorCache
  noutputs :: nat

definition IndicatorBase_ctor :: "VectorCache \<Rightarrow> nat \<Rightarrow> IndicatorBase" where
  "IndicatorBase_ctor local nout =
     \<lparr>active = True, op_mode = NAIVE, buffers = None, ib_cache = [], initialized = False,
      local_cache = local, noutputs = nout\<rparr>"

text \<open>
  \<open>configure\<close>: \<open>args\<close> is what \<open>Args(...).execute()\<close> yields, None when it reports an error, otherwise
  the BUF_SIZE and OP_MODE it read.
\<close>

definition ib_configure :: "(nat \<times> int) option \<Rightarrow> int \<Rightarrow> IndicatorBase \<Rightarrow> int \<times> IndicatorBase" where
  "ib_configure args ninputs ib =
     (case args of
        None \<Rightarrow> (0, ib)
      | Some (buffer_size, mode) \<Rightarrow>
          if ninputs < 1 then (- 1, ib)
          else (0, ib\<lparr>buffers := Some (Buffers_ctor (nat ninputs) buffer_size),
                      op_mode := (if mode = 1 then NAIVE else STARTUP)\<rparr>))"

definition send_msg_value :: "nat \<Rightarrow> Packet \<Rightarrow> FixedPt \<Rightarrow> 64 word \<Rightarrow> PacketAppType \<Rightarrow> action" where
  "send_msg_value nout p value timestamp msg_type =
     (if length (pdata p) < sizeof_MsgValue then discard_packet p
      else checked_output_push nout 0 (set_packet_app_type msg_type
             (p\<lparr>pdata := overwrite (pdata p)
                 (put_MsgValue \<lparr>mv_value = value, mv_timestamp = timestamp\<rparr>)\<rparr>)))"

text \<open>\<open>_buffers->add_new_value\<close> and \<open>_buffers->add_new_value_temp\<close> through the pointer.\<close>

definition ib_deliver :: "bool \<Rightarrow> IndicatorBase \<Rightarrow> MsgValue \<Rightarrow> int \<Rightarrow> Buffers res" where
  "ib_deliver temp ib m port =
     (case buffers ib of
        None \<Rightarrow> Inl NullDeref
      | Some b \<Rightarrow> if temp then add_new_value_temp b (mv_value m) (mv_timestamp m) port
                  else add_new_value b (mv_value m) (mv_timestamp m) port)"

text \<open>\<open>cache[0]._value\<close>.\<close>

definition first_value :: "VectorCache \<Rightarrow> FixedPt res" where
  "first_value cache = bnd (arr_get cache 0) (\<lambda>cs. Inr (cs_value cs))"

text \<open>The loop that takes one increment off the front of every buffer.\<close>

definition take_increments :: "Buffers \<Rightarrow> (FixedPt list \<times> Buffers) res" where
  "take_increments b =
     iter_res (\<lambda>(incs, b) i. bnd (buffers_at b (int i)) (\<lambda>ca. bnd (pop_front ca) (\<lambda>(v, ca').
         bnd (arr_set (bufs b) i ca') (\<lambda>bs. Inr (incs @ [v], b\<lparr>bufs := bs\<rparr>)))))
       ([], b) [0..<num_ports b]"

definition push_init :: "indicator_ops \<Rightarrow> IndicatorBase \<Rightarrow> MsgValue \<Rightarrow> int \<Rightarrow> Packet \<Rightarrow> (action \<times> IndicatorBase) res" where
  "push_init ops ib m port p =
     bnd (ib_deliver False ib m port) (\<lambda>b.
       let ib1 = ib\<lparr>buffers := Some b\<rparr>
       in if is_update_complete b
          then bnd (initialize_element ops b) (\<lambda>init_value.
                 Inr (if get_valid init_value
                      then send_msg_value (noutputs ib) p init_value (mv_timestamp m) (get_packet_app_type p)
                      else discard_packet p, ib1\<lparr>initialized := True\<rparr>))
          else Inr (discard_packet p, ib1))"

definition push_naive :: "indicator_ops \<Rightarrow> IndicatorBase \<Rightarrow> MsgValue \<Rightarrow> int \<Rightarrow> Packet \<Rightarrow> (action \<times> IndicatorBase) res" where
  "push_naive ops ib m port p =
     bnd (ib_deliver (get_packet_app_type p \<noteq> MSG_ADD) ib m port) (\<lambda>b.
       let ib1 = ib\<lparr>buffers := Some b\<rparr>
       in if is_update_complete b
          then bnd (process_naive ops b) (\<lambda>result.
                 Inr (send_msg_value (noutputs ib) p result (mv_timestamp m) (get_packet_app_type p), ib1))
          else Inr (discard_packet p, ib1))"

definition push_startup :: "indicator_ops \<Rightarrow> IndicatorBase \<Rightarrow> MsgValue \<Rightarrow> int \<Rightarrow> Packet \<Rightarrow> (action \<times> IndicatorBase) res" where
  "push_startup ops ib m port p =
     bnd (ib_deliver (get_packet_app_type p \<noteq> MSG_ADD) ib m port) (\<lambda>b.
       let ib1 = ib\<lparr>buffers := Some b\<rparr>
       in if is_update_complete b
          then bnd (process_ext ops (local_cache ib) b) (\<lambda>local. bnd (first_value local) (\<lambda>v.
                 let ib2 = ib1\<lparr>local_cache := local\<rparr>;
                     ib3 = (if get_packet_app_type p = MSG_ADD
                            then ib2\<lparr>ib_cache := local, op_mode := NORMAL\<rparr> else ib2)
                 in Inr (send_msg_value (noutputs ib) p v (mv_timestamp m) (get_packet_app_type p), ib3)))
          else Inr (discard_packet p, ib1))"

definition push_normal :: "indicator_ops \<Rightarrow> IndicatorBase \<Rightarrow> MsgValue \<Rightarrow> int \<Rightarrow> Packet \<Rightarrow> (action \<times> IndicatorBase) res" where
  "push_normal ops ib m port p =
     bnd (ib_deliver False ib m port) (\<lambda>b.
       if \<not> is_update_complete b then Inr (discard_packet p, ib\<lparr>buffers := Some b\<rparr>)
       else bnd (take_increments b) (\<lambda>(increments, b').
            bnd (process_opt_ext ops (local_cache ib) increments (ib_cache ib)) (\<lambda>local.
            bnd (first_value local) (\<lambda>v.
              let ib1 = ib\<lparr>buffers := Some b', local_cache := local\<rparr>;
                  ib2 = (if get_packet_app_type p = MSG_ADD then ib1\<lparr>ib_cache := local\<rparr> else ib1)
              in Inr (send_msg_value (noutputs ib) p v (mv_timestamp m) (get_packet_app_type p), ib2)))))"

definition ib_push :: "indicator_ops \<Rightarrow> IndicatorBase \<Rightarrow> int \<times> Packet \<Rightarrow> (action \<times> IndicatorBase) res" where
  "ib_push ops ib x =
     (case x of (port, p) \<Rightarrow>
        if \<not> active ib then Inr (checked_output_push (noutputs ib) 0 p, ib)
        else if get_packet_app_type p \<noteq> MSG_ADD \<and> get_packet_app_type p \<noteq> MSG_UPDATE \<and>
                get_packet_app_type p \<noteq> MSG_INIT
        then Inr (checked_output_push (noutputs ib) 0 p, ib)
        else bnd (get_MsgValue (pdata p)) (\<lambda>m.
               if get_packet_app_type p = MSG_INIT \<or> initialized ib = False
               then push_init ops ib m port p
               else (case op_mode ib of
                       NAIVE \<Rightarrow> push_naive ops ib m port p
                     | STARTUP \<Rightarrow> push_startup ops ib m port p
                     | NORMAL \<Rightarrow> push_normal ops ib m port p)))"

section \<open>Messages of a round\<close>

definition value_packet :: "PacketAppType \<Rightarrow> FixedPt \<Rightarrow> 64 word \<Rightarrow> byte list \<Rightarrow> Packet" where
  "value_packet t v ts rest =
     \<lparr>pdata = put_MsgValue \<lparr>mv_value = v, mv_timestamp = ts\<rparr> @ rest, packet_app_type = t\<rparr>"

definition round_type :: "bool \<Rightarrow> PacketAppType" where
  "round_type temp = (if temp then MSG_UPDATE else MSG_ADD)"

definition typed_msgs :: "byte list \<Rightarrow> PacketAppType \<Rightarrow> 64 word \<Rightarrow> (nat \<times> FixedPt) list \<Rightarrow> (int \<times> Packet) list" where
  "typed_msgs rest t ts arr = map (\<lambda>(p, v). (int p, value_packet t v ts rest)) arr"

definition round_msgs :: "byte list \<Rightarrow> round \<Rightarrow> (int \<times> Packet) list" where
  "round_msgs rest r = (case r of (temp, ts, arr) \<Rightarrow> typed_msgs rest (round_type temp) ts arr)"

text \<open>What a round makes an element do: every packet but the last is killed, the last is reused.\<close>

definition round_actions :: "byte list \<Rightarrow> nat \<Rightarrow> round \<Rightarrow> FixedPt \<Rightarrow> action list" where
  "round_actions rest nout r x =
     (case r of (temp, ts, arr) \<Rightarrow>
        map (\<lambda>(p, v). KillPkt (value_packet (round_type temp) v ts rest)) (butlast arr) @
        [checked_output_push nout 0 (value_packet (round_type temp) x ts rest)])"

lemma round_msgs_eq: "round_msgs rest (temp, ts, arr) = typed_msgs rest (round_type temp) ts arr"
  by (simp add: round_msgs_def)

lemma round_type_simps [simp]:
  "round_type temp = MSG_ADD \<longleftrightarrow> \<not> temp" "round_type temp = MSG_UPDATE \<longleftrightarrow> temp"
  "round_type temp \<noteq> MSG_INIT" "round_type temp \<in> {MSG_ADD, MSG_UPDATE, MSG_INIT}"
  by (simp_all add: round_type_def)

lemma value_packet_simps [simp]:
  "get_MsgValue (pdata (value_packet t v ts rest)) = Inr \<lparr>mv_value = v, mv_timestamp = ts\<rparr>"
  "get_packet_app_type (value_packet t v ts rest) = t"
  "send_msg_value nout (value_packet t v ts rest) x ts' t' =
     checked_output_push nout 0 (value_packet t' x ts' rest)"
  by (simp_all add: value_packet_def get_packet_app_type_def send_msg_value_def sizeof_MsgValue_def
      overwrite_def set_packet_app_type_def)

text \<open>Whether the value of a packet is added as a temporary one.\<close>

definition temporary :: "IndicatorBase \<Rightarrow> PacketAppType \<Rightarrow> bool" where
  "temporary ib t \<longleftrightarrow> initialized ib \<and> op_mode ib \<noteq> NORMAL \<and> t \<noteq> MSG_ADD \<and> t \<noteq> MSG_INIT"

lemma ib_deliver_deliver:
  "buffers ib = Some b \<Longrightarrow>
   ib_deliver temp ib \<lparr>mv_value = v, mv_timestamp = ts\<rparr> (int p) = deliver temp ts b (p, v)"
  by (simp add: ib_deliver_def deliver_def)

lemmas push_defs = ib_push_def push_init_def push_naive_def push_startup_def push_normal_def
  temporary_def discard_packet_def Let_def

lemma push_incomplete:
  assumes "active ib" and "buffers ib = Some b" and "deliver (temporary ib t) ts b (p, v) = Inr b'"
    and "\<not> is_update_complete b'"
    and "t \<in> {MSG_ADD, MSG_UPDATE, MSG_INIT}"
  shows "ib_push ops ib (int p, value_packet t v ts rest) =
    Inr (KillPkt (value_packet t v ts rest), ib\<lparr>buffers := Some b'\<rparr>)"
  using assms
  by (cases "op_mode ib"; cases "initialized ib")
    (auto simp: push_defs ib_deliver_deliver)

lemma push_naive_last:
  assumes "active ib" and "initialized ib" and "op_mode ib = NAIVE" and "buffers ib = Some b"
    and "deliver temp ts b (p, v) = Inr b'" and "is_update_complete b'" and "process_naive ops b' = Inr x"
  shows "ib_push ops ib (int p, value_packet (round_type temp) v ts rest) =
    Inr (checked_output_push (noutputs ib) 0 (value_packet (round_type temp) x ts rest),
      ib\<lparr>buffers := Some b'\<rparr>)"
  using assms by (cases temp) (simp_all add: push_defs ib_deliver_deliver)

lemma push_startup_last:
  assumes "active ib" and "initialized ib" and "op_mode ib = STARTUP" and "buffers ib = Some b"
    and "deliver temp ts b (p, v) = Inr b'" and "is_update_complete b'"
    and "process_ext ops (local_cache ib) b' = Inr loc" and "first_value loc = Inr x"
  shows "ib_push ops ib (int p, value_packet (round_type temp) v ts rest) =
    Inr (checked_output_push (noutputs ib) 0 (value_packet (round_type temp) x ts rest),
      (if temp then ib else ib\<lparr>ib_cache := loc, op_mode := NORMAL\<rparr>)\<lparr>buffers := Some b', local_cache := loc\<rparr>)"
  using assms by (cases temp) (simp_all add: push_defs ib_deliver_deliver)

lemma push_normal_last:
  assumes "active ib" and "initialized ib" and "op_mode ib = NORMAL" and "buffers ib = Some b"
    and "deliver False ts b (p, v) = Inr b1" and "is_update_complete b1"
    and "take_increments b1 = Inr (incs, b')"
    and "process_opt_ext ops (local_cache ib) incs (ib_cache ib) = Inr loc" and "first_value loc = Inr x"
  shows "ib_push ops ib (int p, value_packet (round_type temp) v ts rest) =
    Inr (checked_output_push (noutputs ib) 0 (value_packet (round_type temp) x ts rest),
      (if temp then ib else ib\<lparr>ib_cache := loc\<rparr>)\<lparr>buffers := Some b', local_cache := loc\<rparr>)"
  using assms by (cases temp) (simp_all add: push_defs ib_deliver_deliver)

lemma push_init_last:
  assumes "active ib" and "\<not> initialized ib" and "buffers ib = Some b"
    and "deliver False ts b (p, v) = Inr b'" and "is_update_complete b'"
    and "initialize_element ops b' = Inr x"
    and "t \<in> {MSG_ADD, MSG_UPDATE, MSG_INIT}"
  shows "ib_push ops ib (int p, value_packet t v ts rest) =
    Inr (if get_valid x then checked_output_push (noutputs ib) 0 (value_packet t x ts rest)
         else KillPkt (value_packet t v ts rest),
      ib\<lparr>buffers := Some b', initialized := True\<rparr>)"
  using assms by (auto simp: push_defs ib_deliver_deliver)

lemma push_prefix:
  assumes "active ib" and "buffers ib = Some b" and "t \<in> {MSG_ADD, MSG_UPDATE, MSG_INIT}"
    and "\<And>ys zs. xs = ys @ zs \<Longrightarrow> ys \<noteq> [] \<Longrightarrow>
      \<exists>b'. run_round b (temporary ib t, ts, ys) = Inr b' \<and> \<not> is_update_complete b'"
  shows "\<exists>b'. run_round b (temporary ib t, ts, xs) = Inr b' \<and>
    run_ops (ib_push ops) ib (typed_msgs rest t ts xs) =
    Inr (map (\<lambda>(p, v). KillPkt (value_packet t v ts rest)) xs, ib\<lparr>buffers := Some b'\<rparr>)"
  using assms(4)
proof (induction xs rule: rev_induct)
  case Nil
  then show ?case using assms(2) by (simp add: run_round_def typed_msgs_def)
next
  case (snoc a xs)
  obtain p v where a: "a = (p, v)" by (cases a)
  have pre: "\<exists>b'. run_round b (temporary ib t, ts, ys) = Inr b' \<and> \<not> is_update_complete b'"
    if "xs = ys @ zs" "ys \<noteq> []" for ys zs
    using snoc.prems [of ys "zs @ [a]"] that by simp
  obtain b1 where b1: "run_round b (temporary ib t, ts, xs) = Inr b1"
    "run_ops (ib_push ops) ib (typed_msgs rest t ts xs) =
     Inr (map (\<lambda>(p, v). KillPkt (value_packet t v ts rest)) xs, ib\<lparr>buffers := Some b1\<rparr>)"
    using snoc.IH pre by blast
  obtain b2 where b2: "run_round b (temporary ib t, ts, xs @ [a]) = Inr b2" "\<not> is_update_complete b2"
    using snoc.prems [of "xs @ [a]" "[]"] by auto
  with b1(1) have "deliver (temporary ib t) ts b1 (p, v) = Inr b2"
    by (simp add: run_round_def iter_res_append a bnd_eq_Inr)
  moreover have "temporary (ib\<lparr>buffers := Some b1\<rparr>) t = temporary ib t"
    by (simp add: temporary_def)
  ultimately have "ib_push ops (ib\<lparr>buffers := Some b1\<rparr>) (int p, value_packet t v ts rest) =
      Inr (KillPkt (value_packet t v ts rest), ib\<lparr>buffers := Some b2\<rparr>)"
    using push_incomplete [of "ib\<lparr>buffers := Some b1\<rparr>" b1 t ts p v b2] b2(2) assms(1,3) by simp
  with b1 b2 show ?case
    by (simp add: typed_msgs_def run_ops_append a)
qed

text \<open>
  A round: its deliveries reach the buffers, and the last of them does what \<open>fin\<close> says.
\<close>

lemma push_round:
  assumes "active ib" and "buffers ib = Some b" and "committed b c X" and "0 < c" and "tstamp b < ts"
    and "level (num_ports b) c fl X" and "all_ports (num_ports b) arr" and "0 < num_ports b"
    and ty: "t \<in> {MSG_ADD, MSG_UPDATE, MSG_INIT}" and run: "run_round b (temporary ib t, ts, arr) = Inr b2"
    and fin: "\<And>b1 p v. last arr = (p, v) \<Longrightarrow> deliver (temporary ib t) ts b1 (p, v) = Inr b2 \<Longrightarrow>
      ib_push ops (ib\<lparr>buffers := Some b1\<rparr>) (int p, value_packet t v ts rest) = Inr (act, ib2)"
  shows "run_ops (ib_push ops) ib (typed_msgs rest t ts arr) =
    Inr (map (\<lambda>(p, v). KillPkt (value_packet t v ts rest)) (butlast arr) @ [act], ib2)"
proof -
  have "arr \<noteq> []" using assms(7,8) by (auto simp: all_ports_def)
  then obtain xs p v where arr: "arr = xs @ [(p, v)]"
    by (metis append_butlast_last_id surj_pair)
  have pre: "\<exists>b'. run_round b (temporary ib t, ts, ys) = Inr b' \<and> \<not> is_update_complete b'"
    if "xs = ys @ zs" "ys \<noteq> []" for ys zs
    using round_incomplete [OF assms(3-7), of ys "zs @ [(p, v)]"] that arr by simp
  obtain b1 where b1: "run_round b (temporary ib t, ts, xs) = Inr b1"
      "run_ops (ib_push ops) ib (typed_msgs rest t ts xs) =
       Inr (map (\<lambda>(p, v). KillPkt (value_packet t v ts rest)) xs, ib\<lparr>buffers := Some b1\<rparr>)"
    using push_prefix [OF assms(1,2) ty] pre by blast
  have "deliver (temporary ib t) ts b1 (p, v) = Inr b2"
    using run b1(1) by (simp add: run_round_def iter_res_append arr bnd_eq_Inr)
  from fin [OF _ this] b1(2) show ?thesis
    by (simp add: typed_msgs_def run_ops_append arr)
qed

section \<open>Increments\<close>

lemma take_increments_holds:
  assumes "holds b c (\<lambda>p. v p # X p)"
  obtains bs where "take_increments b = Inr (map v [0..<num_ports b], b\<lparr>bufs := bs\<rparr>)"
    and "holds (b\<lparr>bufs := bs\<rparr>) c X"
proof -
  let ?f = "\<lambda>(incs, b) i. bnd (buffers_at b (int i)) (\<lambda>ca. bnd (pop_front ca) (\<lambda>(v, ca').
    bnd (arr_set (bufs b) i ca') (\<lambda>bs. Inr (incs @ [v], b\<lparr>bufs := bs\<rparr>))))"
  have "\<exists>bs. iter_res ?f ([], b) [0..<m] = Inr (map v [0..<m], b\<lparr>bufs := bs\<rparr>) \<and>
      length bs = num_ports b \<and> (\<forall>i < m. rep (bs ! i) c (X i)) \<and>
      (\<forall>i < num_ports b. m \<le> i \<longrightarrow> rep (bs ! i) c (v i # X i))"
    if "m \<le> num_ports b" for m
    using that
  proof (induction m)
    case 0
    then show ?case
      using assms by (intro exI [of _ "bufs b"]) (simp add: holds_def)
  next
    case (Suc m)
    then obtain bs where bs: "iter_res ?f ([], b) [0..<m] = Inr (map v [0..<m], b\<lparr>bufs := bs\<rparr>)"
      "length bs = num_ports b" "\<forall>i < m. rep (bs ! i) c (X i)"
      "\<forall>i < num_ports b. m \<le> i \<longrightarrow> rep (bs ! i) c (v i # X i)"
      by auto
    have "rep (bs ! m) c (v m # X m)"
      using bs(4) Suc.prems by simp
    then obtain ca where "pop_front (bs ! m) = Inr (v m, ca)" "rep ca c (X m)"
      by (rule rep_pop_front)
    with bs Suc.prems show ?case
      by (intro exI [of _ "bs[m := ca]"])
        (auto simp: iter_res_append buffers_at_def nth_list_update less_Suc_eq)
  qed
  from this [OF order_refl] obtain bs where "take_increments b = Inr (map v [0..<num_ports b], b\<lparr>bufs := bs\<rparr>)"
    "length bs = num_ports b" "\<forall>i < num_ports b. rep (bs ! i) c (X i)"
    by (auto simp: take_increments_def)
  with assms that show thesis
    by (simp add: holds_def)
qed

section \<open>The contract of a derived element\<close>

text \<open>The view a complete round gives, and what an element that computes \<open>g\<close> on it sends.\<close>

fun expected :: "((nat \<Rightarrow> FixedPt list) \<Rightarrow> FixedPt) \<Rightarrow> nat \<Rightarrow> byte list \<Rightarrow> nat \<Rightarrow> (nat \<Rightarrow> FixedPt list) \<Rightarrow>
    round list \<Rightarrow> action list" where
  "expected g c rest nout X [] = []"
| "expected g c rest nout X ((temp, ts, arr) # rs) =
     round_actions rest nout (temp, ts, arr) (g (in_front c arr X)) @
     expected g c rest nout (if temp then X else in_front c arr X) rs"

text \<open>A condition on the histories the rounds build up.\<close>

fun along :: "((nat \<Rightarrow> FixedPt list) \<Rightarrow> bool) \<Rightarrow> nat \<Rightarrow> (nat \<Rightarrow> FixedPt list) \<Rightarrow> round list \<Rightarrow> bool" where
  "along adm c X [] \<longleftrightarrow> True"
| "along adm c X ((temp, ts, arr) # rs) \<longleftrightarrow>
     adm (\<lambda>p. the (map_of arr p) # X p) \<and> along adm c (if temp then X else in_front c arr X) rs"

definition tracks :: "OpMode \<Rightarrow> IndicatorBase \<Rightarrow> nat \<Rightarrow> nat \<Rightarrow> 64 word \<Rightarrow> (nat \<Rightarrow> FixedPt list) \<Rightarrow> bool" where
  "tracks md ib n c t X \<longleftrightarrow>
     active ib \<and> initialized ib \<and> op_mode ib = md \<and>
     (\<exists>b k. buffers ib = Some b \<and> num_ports b = n \<and> tstamp b = t \<and> committed b c X \<and>
       (\<forall>p < n. length (X p) = k))"

definition configured :: "VectorCache \<Rightarrow> nat \<Rightarrow> nat \<Rightarrow> nat \<Rightarrow> int \<Rightarrow> IndicatorBase" where
  "configured local nout n c mode =
     snd (ib_configure (Some (c, mode)) (int n) (IndicatorBase_ctor local nout))"

lemma level_of_lengths: "\<forall>p < n. length (X p) = k \<Longrightarrow> k \<le> c \<Longrightarrow> level n c (k = c) X"
  by (auto simp: level_def)

lemma committed_length:
  assumes "committed b c X" and "p < num_ports b"
  shows "length (X p) \<le> c"
proof -
  have "length (Y p) \<le> c" if "holds b c Y" for Y
    using that assms(2) rep_length by (auto simp: holds_def)
  from this [of X] this [of "\<lambda>p. v p # X p" for v] show ?thesis
    using assms by (fastforce simp: committed_def split: if_splits)
qed

text \<open>The last packet of a round decides: what its \<open>push\<close> does, the round ends with.\<close>

definition ends_with :: "indicator_ops \<Rightarrow> IndicatorBase \<Rightarrow> byte list \<Rightarrow> bool \<Rightarrow> 64 word \<Rightarrow> (nat \<times> FixedPt) list \<Rightarrow>
    Buffers \<Rightarrow> bool" where
  "ends_with ops ib rest temp ts arr b' \<longleftrightarrow>
     (\<forall>act ib2. (\<forall>b1 p v. deliver (temporary ib (round_type temp)) ts b1 (p, v) = Inr b' \<longrightarrow>
        ib_push ops (ib\<lparr>buffers := Some b1\<rparr>) (int p, value_packet (round_type temp) v ts rest) =
        Inr (act, ib2)) \<longrightarrow>
      run_ops (ib_push ops) ib (round_msgs rest (temp, ts, arr)) =
      Inr (map (\<lambda>(p, v). KillPkt (value_packet (round_type temp) v ts rest)) (butlast arr) @ [act], ib2))"

lemma ends_withD:
  assumes "ends_with ops ib rest temp ts arr b'"
    and "\<And>b1 p v. deliver (temporary ib (round_type temp)) ts b1 (p, v) = Inr b' \<Longrightarrow>
      ib_push ops (ib\<lparr>buffers := Some b1\<rparr>) (int p, value_packet (round_type temp) v ts rest) =
      Inr (checked_output_push nout 0 (value_packet (round_type temp) x ts rest), ib2)"
  shows "run_ops (ib_push ops) ib (round_msgs rest (temp, ts, arr)) =
    Inr (round_actions rest nout (temp, ts, arr) x, ib2)"
  using assms by (simp add: ends_with_def round_actions_def)

text \<open>One round on an element in any mode: the buffers take it in.\<close>

lemma tracks_round:
  assumes "tracks md ib n c t X" and "0 < n" and "0 < c" and "t < ts" and "all_ports n arr"
  obtains b b' where "buffers ib = Some b" and "num_ports b' = n" and "tstamp b' = ts"
    and "is_update_complete b'" and "holds b' c (in_front c arr X)"
    and "committed b' c (if temporary ib (round_type temp) then X else in_front c arr X)"
    and "temporary ib (round_type temp) \<or> bstate b' = ACCUMULATED"
    and "\<forall>ops rest. ends_with ops ib rest temp ts arr b'"
proof -
  obtain b k where b: "active ib" "buffers ib = Some b" "num_ports b = n" "tstamp b = t"
    "committed b c X" "\<forall>p < n. length (X p) = k"
    using assms(1) by (auto simp: tracks_def)
  have "k \<le> c" using committed_length [OF b(5), of 0] b(3,6) assms(2) by simp
  with b(3,6) have lev: "level (num_ports b) c (k = c) X"
    by (simp add: level_of_lengths)
  note pre = b(5) assms(3) assms(4) [folded b(4)] lev assms(5) [folded b(3)] assms(2) [folded b(3)]
  obtain b' where b': "run_round b (temporary ib (round_type temp), ts, arr) = Inr b'" "tstamp b' = ts"
    "num_ports b' = num_ports b" "is_update_complete b'" "holds b' c (in_front c arr X)"
    "committed b' c (if temporary ib (round_type temp) then X else in_front c arr X)"
    "temporary ib (round_type temp) \<or> bstate b' = ACCUMULATED"
    using pre by (rule round_complete)
  have "ends_with ops ib rest temp ts arr b'" for ops rest
    unfolding ends_with_def round_msgs_eq using push_round [OF b(1,2) pre round_type_simps(4) b'(1)] by blast
  then show thesis
    by (intro that [OF b(2) b'(3) [unfolded b(3)] b'(2,4-7)]) blast
qed

text \<open>The first round, of any of the three types: it sets the element up.\<close>

lemma typed_init_round:
  assumes "0 < n" and "0 < c" and "0 < ts" and "all_ports n arr" and "t \<in> {MSG_ADD, MSG_UPDATE, MSG_INIT}"
    and "\<And>b'. holds b' c (in_front c arr (\<lambda>_. [])) \<Longrightarrow> num_ports b' = n \<Longrightarrow> \<exists>iv. initialize_element ops b' = Inr iv"
  obtains b' iv where "initialize_element ops b' = Inr iv" and "holds b' c (in_front c arr (\<lambda>_. []))"
    and "\<And>mode. run_ops (ib_push ops) (configured local nout n c mode) (typed_msgs rest t ts arr) =
      Inr (map (\<lambda>(p, v). KillPkt (value_packet t v ts rest)) (butlast arr) @
          [if get_valid iv then checked_output_push nout 0 (value_packet t iv ts rest)
           else KillPkt (value_packet t (snd (last arr)) ts rest)],
        (configured local nout n c mode)\<lparr>buffers := Some b', initialized := True\<rparr>)"
    and "num_ports b' = n" and "tstamp b' = ts" and "committed b' c (in_front c arr (\<lambda>_. []))"
proof -
  let ?ib = "configured local nout n c" and ?b = "Buffers_ctor n c" and ?X = "\<lambda>_. []"
  have ib: "active (?ib mode)" "\<not> initialized (?ib mode)" "buffers (?ib mode) = Some ?b"
    "noutputs (?ib mode) = nout" "temporary (?ib mode) t = False" for mode
    using assms(1) by (simp_all add: configured_def ib_configure_def IndicatorBase_ctor_def temporary_def)
  have pre: "committed ?b c ?X" "0 < c" "tstamp ?b < ts" "level (num_ports ?b) c False ?X"
    "all_ports (num_ports ?b) arr" "0 < num_ports ?b"
    using assms(1-4) by (simp_all add: level_def committed_ctor)
  obtain b' where b': "run_round ?b (False, ts, arr) = Inr b'" "tstamp b' = ts"
    "num_ports b' = num_ports ?b" "is_update_complete b'" "holds b' c (in_front c arr ?X)"
    "committed b' c (if False then ?X else in_front c arr ?X)" "False \<or> bstate b' = ACCUMULATED"
    using pre by (rule round_complete)
  obtain iv where iv: "initialize_element ops b' = Inr iv"
    using assms(6) [OF b'(5)] b'(3) by auto
  let ?act = "if get_valid iv then checked_output_push nout 0 (value_packet t iv ts rest)
    else KillPkt (value_packet t (snd (last arr)) ts rest)"
  have "run_ops (ib_push ops) (?ib mode) (typed_msgs rest t ts arr) =
      Inr (map (\<lambda>(p, v). KillPkt (value_packet t v ts rest)) (butlast arr) @ [?act],
        (?ib mode)\<lparr>buffers := Some b', initialized := True\<rparr>)" for mode
  proof (rule push_round [OF ib(1,3) pre assms(5)])
    show "run_round ?b (temporary (?ib mode) t, ts, arr) = Inr b'"
      using b'(1) ib(5) by simp
    show "ib_push ops ((?ib mode)\<lparr>buffers := Some b1\<rparr>) (int q, value_packet t w ts rest) =
        Inr (?act, (?ib mode)\<lparr>buffers := Some b', initialized := True\<rparr>)"
      if "last arr = (q, w)" "deliver (temporary (?ib mode) t) ts b1 (q, w) = Inr b'" for b1 q w
      using push_init_last [of "(?ib mode)\<lparr>buffers := Some b1\<rparr>" b1 ts q w b' ops iv t rest]
        that ib b'(4) iv assms(5) by simp
  qed
  from iv b'(5) this show thesis
    by (rule that) (use b' in simp_all)
qed

text \<open>
  An element that has seen its first round and stands at time \<open>t\<close> with the history \<open>X\<close>: still starting up
  with the history in its buffers, or past that with the history in its cache.
\<close>

definition standing :: "(nat \<Rightarrow> VectorCache \<Rightarrow> (nat \<Rightarrow> FixedPt list) \<Rightarrow> bool) \<Rightarrow> (VectorCache \<Rightarrow> bool) \<Rightarrow> nat \<Rightarrow> nat \<Rightarrow> nat \<Rightarrow>
    64 word \<Rightarrow> (nat \<Rightarrow> FixedPt list) \<Rightarrow> IndicatorBase \<Rightarrow> bool" where
  "standing crep lok nout n c t X ib \<longleftrightarrow>
     noutputs ib = nout \<and> lok (local_cache ib) \<and> (\<forall>p < n. X p \<noteq> [] \<and> length (X p) \<le> c) \<and>
     (tracks STARTUP ib n c t X \<or> (\<exists>Z. tracks NORMAL ib n c t Z \<and> crep c (ib_cache ib) X))"

text \<open>
  The contract: \<open>g\<close> is what the element computes from the listed buffers; \<open>crep\<close> says what a cache
  remembers of a history, \<open>lok\<close> what the local cache needs, \<open>adm\<close> for which histories the
  incremental step is exact.
\<close>

locale incremental_step =
  fixes ops :: indicator_ops and n :: nat
    and g :: "(nat \<Rightarrow> FixedPt list) \<Rightarrow> FixedPt"
    and crep :: "nat \<Rightarrow> VectorCache \<Rightarrow> (nat \<Rightarrow> FixedPt list) \<Rightarrow> bool"
    and lok :: "VectorCache \<Rightarrow> bool"
    and adm :: "nat \<Rightarrow> (nat \<Rightarrow> FixedPt list) \<Rightarrow> bool"
  assumes ports: "0 < n"
    and opt_law: "crep c cache X \<Longrightarrow> 2 \<le> c \<Longrightarrow> \<forall>p < n. X p \<noteq> [] \<and> length (X p) \<le> c \<Longrightarrow> lok loc \<Longrightarrow>
      adm c (\<lambda>p. v p # X p) \<Longrightarrow>
      \<exists>loc'. process_opt_ext ops loc (map v [0..<n]) cache = Inr loc' \<and>
        first_value loc' = Inr (g (\<lambda>p. take c (v p # X p))) \<and> crep c loc' (\<lambda>p. take c (v p # X p)) \<and>
        lok loc'"
begin

lemma normal_round:
  assumes "tracks NORMAL ib n c t Z" and "2 \<le> c" and "t < ts" and "all_ports n arr"
    and "\<forall>p < n. X p \<noteq> [] \<and> length (X p) \<le> c" and "lok (local_cache ib)" and "crep c (ib_cache ib) X"
    and "adm c (\<lambda>p. the (map_of arr p) # X p)"
  obtains ib' Z' where "run_ops (ib_push ops) ib (round_msgs rest (temp, ts, arr)) =
      Inr (round_actions rest (noutputs ib) (temp, ts, arr) (g (in_front c arr X)), ib')"
    and "tracks NORMAL ib' n c ts Z'" and "noutputs ib' = noutputs ib" and "lok (local_cache ib')"
    and "crep c (ib_cache ib') (if temp then X else in_front c arr X)"
proof -
  have c: "0 < c" using assms(2) by simp
  have st: "active ib" "initialized ib" "op_mode ib = NORMAL" and tmp: "temporary ib (round_type temp) = False"
    using assms(1) by (auto simp: tracks_def temporary_def)
  obtain b b' where "buffers ib = Some b" and b': "num_ports b' = n" "tstamp b' = ts" "is_update_complete b'"
    "holds b' c (in_front c arr Z)" "committed b' c (if temporary ib (round_type temp) then Z else in_front c arr Z)"
    "temporary ib (round_type temp) \<or> bstate b' = ACCUMULATED"
    and run: "\<forall>ops rest. ends_with ops ib rest temp ts arr b'"
    by (rule tracks_round [OF assms(1) ports c assms(3,4), of temp])
  let ?v = "\<lambda>p. the (map_of arr p)" and ?Z = "\<lambda>p. take (c - 1) (Z p)"
  have "in_front c arr Z = (\<lambda>p. ?v p # ?Z p)"
    using c by (auto simp: in_front_def take_Cons' fun_eq_iff)
  with b'(4) have "holds b' c (\<lambda>p. ?v p # ?Z p)" by simp
  from take_increments_holds [OF this, unfolded b'(1)]
  obtain bs where bs: "take_increments b' = Inr (map ?v [0..<n], b'\<lparr>bufs := bs\<rparr>)"
    "holds (b'\<lparr>bufs := bs\<rparr>) c ?Z" .
  obtain loc where loc: "process_opt_ext ops (local_cache ib) (map ?v [0..<n]) (ib_cache ib) = Inr loc"
    "first_value loc = Inr (g (in_front c arr X))" "crep c loc (in_front c arr X)" "lok loc"
    using opt_law [OF assms(7,2,5,6,8)] by (auto simp: in_front_def)
  let ?ib = "(if temp then ib else ib\<lparr>ib_cache := loc\<rparr>)\<lparr>buffers := Some (b'\<lparr>bufs := bs\<rparr>), local_cache := loc\<rparr>"
  have "run_ops (ib_push ops) ib (round_msgs rest (temp, ts, arr)) =
      Inr (round_actions rest (noutputs ib) (temp, ts, arr) (g (in_front c arr X)), ?ib)"
    by (rule ends_withD [OF run [rule_format]]) (use st tmp loc bs b'(3) push_normal_last [of "ib\<lparr>buffers := Some _\<rparr>"] in \<open>cases temp; simp\<close>)
  moreover have "\<exists>k. \<forall>p < n. length (?Z p) = k"
    using assms(1) by (auto simp: tracks_def)
  moreover have "committed (b'\<lparr>bufs := bs\<rparr>) c ?Z"
    using b'(6) bs(2) tmp by (simp add: committed_def)
  ultimately show thesis
    using st b' loc assms(7) by (intro that [of ?ib ?Z]) (auto simp: tracks_def)
qed

lemma in_front_nonempty: "2 \<le> c \<Longrightarrow> in_front c arr X p \<noteq> [] \<and> length (in_front c arr X p) \<le> c"
  by (simp add: in_front_def)

end

text \<open>An element that also starts up exactly, and whose recomputing mode agrees.\<close>

locale incremental_indicator = incremental_step +
  assumes init_law: "holds b c X \<Longrightarrow> num_ports b = n \<Longrightarrow> \<forall>p < n. X p \<noteq> [] \<Longrightarrow>
      \<exists>iv. initialize_element ops b = Inr iv"
    and naive_law: "holds b c X \<Longrightarrow> num_ports b = n \<Longrightarrow> \<forall>p < n. 2 \<le> length (X p) \<Longrightarrow>
      process_naive ops b = Inr (g X)"
    and ext_law: "holds b c X \<Longrightarrow> num_ports b = n \<Longrightarrow> \<forall>p < n. 2 \<le> length (X p) \<Longrightarrow> lok loc \<Longrightarrow>
      \<exists>loc'. process_ext ops loc b = Inr loc' \<and> first_value loc' = Inr (g X) \<and> crep c loc' X \<and> lok loc'"
begin

lemma in_front_two:
  assumes "2 \<le> c" and "\<forall>p < n. X p \<noteq> []"
  shows "\<forall>p < n. 2 \<le> length (in_front c arr X p)"
  using assms by (auto simp: in_front_def Suc_le_eq)

lemma naive_round:
  assumes "tracks NAIVE ib n c t X" and "2 \<le> c" and "t < ts" and "all_ports n arr" and "\<forall>p < n. X p \<noteq> []"
  obtains ib' where "run_ops (ib_push ops) ib (round_msgs rest (temp, ts, arr)) =
      Inr (round_actions rest (noutputs ib) (temp, ts, arr) (g (in_front c arr X)), ib')"
    and "tracks NAIVE ib' n c ts (if temp then X else in_front c arr X)" and "noutputs ib' = noutputs ib"
proof -
  have c: "0 < c" using assms(2) by simp
  have st: "active ib" "initialized ib" "op_mode ib = NAIVE" and tmp: "temporary ib (round_type temp) = temp"
    using assms(1) by (auto simp: tracks_def temporary_def)
  obtain b b' where "buffers ib = Some b" and b': "num_ports b' = n" "tstamp b' = ts" "is_update_complete b'"
    "holds b' c (in_front c arr X)" "committed b' c (if temporary ib (round_type temp) then X else in_front c arr X)"
    "temporary ib (round_type temp) \<or> bstate b' = ACCUMULATED"
    and run: "\<forall>ops rest. ends_with ops ib rest temp ts arr b'"
    by (rule tracks_round [OF assms(1) ports c assms(3,4), of temp])
  have nv: "process_naive ops b' = Inr (g (in_front c arr X))"
    using b'(1,4) in_front_two [OF assms(2,5)] by (intro naive_law)
  have "run_ops (ib_push ops) ib (round_msgs rest (temp, ts, arr)) =
      Inr (round_actions rest (noutputs ib) (temp, ts, arr) (g (in_front c arr X)), ib\<lparr>buffers := Some b'\<rparr>)"
    by (rule ends_withD [OF run [rule_format]]) (use st tmp nv b'(3) push_naive_last [of "ib\<lparr>buffers := Some _\<rparr>"] in simp)
  moreover have "\<exists>k. \<forall>p < n. length ((if temp then X else in_front c arr X) p) = k"
    using assms(1) by (auto simp: tracks_def in_front_def)
  ultimately show thesis
    using st tmp b' by (intro that [of "ib\<lparr>buffers := Some b'\<rparr>"]) (auto simp: tracks_def)
qed

lemma startup_round:
  assumes "tracks STARTUP ib n c t X" and "2 \<le> c" and "t < ts" and "all_ports n arr" and "\<forall>p < n. X p \<noteq> []"
    and "lok (local_cache ib)"
  obtains ib' where "run_ops (ib_push ops) ib (round_msgs rest (temp, ts, arr)) =
      Inr (round_actions rest (noutputs ib) (temp, ts, arr) (g (in_front c arr X)), ib')"
    and "tracks (if temp then STARTUP else NORMAL) ib' n c ts (if temp then X else in_front c arr X)"
    and "noutputs ib' = noutputs ib" and "lok (local_cache ib')"
    and "temp \<or> crep c (ib_cache ib') (in_front c arr X)"
proof -
  have c: "0 < c" using assms(2) by simp
  have st: "active ib" "initialized ib" "op_mode ib = STARTUP" and tmp: "temporary ib (round_type temp) = temp"
    using assms(1) by (auto simp: tracks_def temporary_def)
  obtain b b' where "buffers ib = Some b" and b': "num_ports b' = n" "tstamp b' = ts" "is_update_complete b'"
    "holds b' c (in_front c arr X)" "committed b' c (if temporary ib (round_type temp) then X else in_front c arr X)"
    "temporary ib (round_type temp) \<or> bstate b' = ACCUMULATED"
    and run: "\<forall>ops rest. ends_with ops ib rest temp ts arr b'"
    by (rule tracks_round [OF assms(1) ports c assms(3,4), of temp])
  obtain loc where loc: "process_ext ops (local_cache ib) b' = Inr loc"
    "first_value loc = Inr (g (in_front c arr X))" "crep c loc (in_front c arr X)" "lok loc"
    using ext_law [OF b'(4,1) in_front_two [OF assms(2,5)] assms(6)] by blast
  let ?ib = "(if temp then ib else ib\<lparr>ib_cache := loc, op_mode := NORMAL\<rparr>)\<lparr>buffers := Some b', local_cache := loc\<rparr>"
  have "run_ops (ib_push ops) ib (round_msgs rest (temp, ts, arr)) =
      Inr (round_actions rest (noutputs ib) (temp, ts, arr) (g (in_front c arr X)), ?ib)"
    by (rule ends_withD [OF run [rule_format]]) (use st tmp loc b'(3) push_startup_last [of "ib\<lparr>buffers := Some _\<rparr>"] in \<open>cases temp; simp\<close>)
  moreover have "\<exists>k. \<forall>p < n. length ((if temp then X else in_front c arr X) p) = k"
    using assms(1) by (auto simp: tracks_def in_front_def)
  ultimately show thesis
    using st tmp b' loc by (intro that [of ?ib]) (auto simp: tracks_def)
qed

lemma naive_run:
  assumes "tracks NAIVE ib n c t X" and "2 \<le> c" and "rounds_ok n t rs" and "\<forall>p < n. X p \<noteq> []"
  shows "\<exists>ib'. run_ops (ib_push ops) ib (concat (map (round_msgs rest) rs)) =
    Inr (expected g c rest (noutputs ib) X rs, ib')"
  using assms(1,3,4)
proof (induction rs arbitrary: ib t X)
  case (Cons r rs)
  obtain temp ts arr where r: "r = (temp, ts, arr)" by (cases r)
  let ?X = "if temp then X else in_front c arr X"
  from Cons.prems(2) r have ok: "t < ts" "all_ports n arr" "rounds_ok n ts rs" by simp_all
  obtain ib1 where ib1: "run_ops (ib_push ops) ib (round_msgs rest (temp, ts, arr)) =
      Inr (round_actions rest (noutputs ib) (temp, ts, arr) (g (in_front c arr X)), ib1)"
    "tracks NAIVE ib1 n c ts ?X" "noutputs ib1 = noutputs ib"
    by (rule naive_round [OF Cons.prems(1) assms(2) ok(1,2) Cons.prems(3)])
  have "\<forall>p < n. ?X p \<noteq> []"
    using Cons.prems(3) in_front_nonempty [OF assms(2)] by simp
  from Cons.IH [OF ib1(2) ok(3) this] ib1 show ?case
    by (auto simp: r run_ops_append)
qed simp

lemma standing_round:
  assumes "standing crep lok nout n c t X ib" and "2 \<le> c" and "t < ts" and "all_ports n arr"
    and "adm c (\<lambda>p. the (map_of arr p) # X p)"
  obtains ib' where "run_ops (ib_push ops) ib (round_msgs rest (temp, ts, arr)) =
      Inr (round_actions rest nout (temp, ts, arr) (g (in_front c arr X)), ib')"
    and "standing crep lok nout n c ts (if temp then X else in_front c arr X) ib'"
    and "temp \<or> op_mode ib' = NORMAL"
proof -
  let ?X = "if temp then X else in_front c arr X"
  have st: "noutputs ib = nout" "lok (local_cache ib)" "\<forall>p < n. X p \<noteq> [] \<and> length (X p) \<le> c"
    "tracks STARTUP ib n c t X \<or> (\<exists>Z. tracks NORMAL ib n c t Z \<and> crep c (ib_cache ib) X)"
    using assms(1) by (simp_all add: standing_def)
  have ne: "\<forall>p < n. X p \<noteq> []" using st(3) by simp
  have X: "\<forall>p < n. ?X p \<noteq> [] \<and> length (?X p) \<le> c"
    using st(3) in_front_nonempty [OF assms(2)] by simp
  from st(4) show thesis
  proof
    assume "tracks STARTUP ib n c t X"
    then obtain ib' where ib': "run_ops (ib_push ops) ib (round_msgs rest (temp, ts, arr)) =
        Inr (round_actions rest (noutputs ib) (temp, ts, arr) (g (in_front c arr X)), ib')"
      "tracks (if temp then STARTUP else NORMAL) ib' n c ts ?X" "noutputs ib' = noutputs ib" "lok (local_cache ib')"
      "temp \<or> crep c (ib_cache ib') (in_front c arr X)"
      by (rule startup_round [OF _ assms(2-4) ne st(2), of rest temp])
    moreover have "temp \<or> op_mode ib' = NORMAL" using ib'(2) by (auto simp: tracks_def)
    ultimately show thesis
      using X st(1) by (intro that [of ib']) (auto simp: standing_def)
  next
    assume "\<exists>Z. tracks NORMAL ib n c t Z \<and> crep c (ib_cache ib) X"
    then obtain Z where Z: "tracks NORMAL ib n c t Z" "crep c (ib_cache ib) X" by blast
    obtain ib' Z' where ib': "run_ops (ib_push ops) ib (round_msgs rest (temp, ts, arr)) =
        Inr (round_actions rest (noutputs ib) (temp, ts, arr) (g (in_front c arr X)), ib')"
      "tracks NORMAL ib' n c ts Z'" "noutputs ib' = noutputs ib" "lok (local_cache ib')"
      "crep c (ib_cache ib') ?X"
      by (rule normal_round [OF Z(1) assms(2-4) st(3,2) Z(2) assms(5), of rest temp])
    moreover have "op_mode ib' = NORMAL" using ib'(2) by (simp add: tracks_def)
    ultimately show thesis
      using X st(1) by (intro that [of ib']) (auto simp: standing_def)
  qed
qed

text \<open>Past the start only the cache counts: the history may be replaced by one the cache represents too.\<close>

lemma standing_change:
  assumes "standing crep lok nout n c t X ib" and "op_mode ib = NORMAL"
    and "crep c (ib_cache ib) X \<Longrightarrow> crep c (ib_cache ib) Y" and "\<forall>p < n. Y p \<noteq> [] \<and> length (Y p) \<le> c"
  shows "standing crep lok nout n c t Y ib"
  using assms by (auto simp: standing_def tracks_def)

lemma opt_run:
  assumes "standing crep lok nout n c t X ib" and "2 \<le> c" and "rounds_ok n t rs" and "along (adm c) c X rs"
  shows "\<exists>ib'. run_ops (ib_push ops) ib (concat (map (round_msgs rest) rs)) =
    Inr (expected g c rest nout X rs, ib')"
  using assms(1,3-)
proof (induction rs arbitrary: ib t X)
  case (Cons r rs)
  obtain temp ts arr where r: "r = (temp, ts, arr)" by (cases r)
  let ?X = "if temp then X else in_front c arr X"
  from Cons.prems r have ok: "t < ts" "all_ports n arr" "rounds_ok n ts rs"
    and ad: "adm c (\<lambda>p. the (map_of arr p) # X p)" "along (adm c) c ?X rs" by simp_all
  obtain ib1 where ib1: "run_ops (ib_push ops) ib (round_msgs rest (temp, ts, arr)) =
      Inr (round_actions rest nout (temp, ts, arr) (g (in_front c arr X)), ib1)"
    "standing crep lok nout n c ts ?X ib1"
    by (rule standing_round [OF Cons.prems(1) assms(2) ok(1,2) ad(1), of rest temp])
  from Cons.IH [OF ib1(2) ok(3) ad(2)] ib1(1) show ?case
    by (auto simp: r run_ops_append)
qed simp

lemma init_round:
  assumes "2 \<le> c" and "0 < ts" and "all_ports n arr"
  obtains acts b' where "\<And>mode. run_ops (ib_push ops) (configured local nout n c mode)
      (round_msgs rest (temp, ts, arr)) =
      Inr (acts, (configured local nout n c mode)\<lparr>buffers := Some b', initialized := True\<rparr>)"
    and "num_ports b' = n" and "tstamp b' = ts" and "committed b' c (in_front c arr (\<lambda>_. []))"
proof -
  have c: "0 < c" using assms(1) by simp
  have iv: "\<exists>iv. initialize_element ops b' = Inr iv"
    if "holds b' c (in_front c arr (\<lambda>_. []))" "num_ports b' = n" for b'
    using init_law [OF that] in_front_nonempty [OF assms(1)] by simp
  show thesis
    by (rule typed_init_round [OF ports c assms(2,3) round_type_simps(4) iv, of local nout rest temp])
      (assumption, assumption, rule that, simp_all add: round_msgs_eq)
qed

text \<open>Both modes send, after the first round, what \<open>g\<close> gives on the view of each round.\<close>

lemma modes_agree:
  assumes "2 \<le> c" and "rounds_ok n 0 ((temp, ts, arr) # rs)" and "lok local"
    and "along (adm c) c (in_front c arr (\<lambda>_. [])) rs"
  shows "\<exists>acts. \<forall>mode. map_sum id fst (run_ops (ib_push ops) (configured local nout n c mode)
      (concat (map (round_msgs rest) ((temp, ts, arr) # rs)))) =
    Inr (acts @ expected g c rest nout (in_front c arr (\<lambda>_. [])) rs)"
proof -
  let ?ib = "configured local nout n c" and ?X = "in_front c arr (\<lambda>_. [])"
  have ok: "0 < ts" "all_ports n arr" "rounds_ok n ts rs"
    using assms(2) by simp_all
  obtain acts b' where init: "\<And>mode. run_ops (ib_push ops) (?ib mode) (round_msgs rest (temp, ts, arr)) =
      Inr (acts, (?ib mode)\<lparr>buffers := Some b', initialized := True\<rparr>)"
    "num_ports b' = n" "tstamp b' = ts" "committed b' c ?X"
    using init_round [OF assms(1) ok(1,2)] by metis
  let ?ib1 = "\<lambda>mode. (?ib mode)\<lparr>buffers := Some b', initialized := True\<rparr>"
  have ib1: "op_mode (?ib1 mode) = (if mode = 1 then NAIVE else STARTUP)" "active (?ib1 mode)"
    "noutputs (?ib1 mode) = nout" "local_cache (?ib1 mode) = local" for mode
    using ports by (simp_all add: configured_def ib_configure_def IndicatorBase_ctor_def)
  have "\<exists>k. \<forall>p < n. length (?X p) = k" by (auto simp: in_front_def)
  then have tr: "tracks (op_mode (?ib1 mode)) (?ib1 mode) n c ts ?X" for mode
    using init(2-4) ib1(2) by (simp add: tracks_def)
  have ne: "\<forall>p < n. ?X p \<noteq> [] \<and> length (?X p) \<le> c"
    using in_front_nonempty [OF assms(1)] by simp
  have later: "\<exists>ib'. run_ops (ib_push ops) (?ib1 mode) (concat (map (round_msgs rest) rs)) =
      Inr (expected g c rest nout ?X rs, ib')" for mode
  proof (cases "mode = 1")
    case True
    then show ?thesis
      using naive_run [of "?ib1 mode" c ts ?X rs rest] tr [of mode] ib1 [of mode] assms(1) ok(3) ne by simp
  next
    case False
    then show ?thesis
      using opt_run [of nout c ts ?X "?ib1 mode" rs rest] tr [of mode] ib1 [of mode] assms(1,3,4) ok(3) ne
      by (simp add: standing_def)
  qed
  have "map_sum id fst (run_ops (ib_push ops) (?ib mode) (concat (map (round_msgs rest) ((temp, ts, arr) # rs)))) =
      Inr (acts @ expected g c rest nout ?X rs)" for mode
    using later [of mode] init(1) [of mode] by (auto simp: run_ops_append)
  then show ?thesis by blast
qed

end

end
