(* ===== verification/Indicator_Elements.thy ===== *)
theory Indicator_Elements
  imports Indicator_Base
begin

text \<open>
  The elements that derive from \<open>IndicatorBase\<close>: \<open>Sum\<close>, \<open>EwmaIncremental\<close>, \<open>Trix\<close>, \<open>Pdm\<close>, \<open>Ndm\<close>, \<open>Pdi\<close>, \<open>Ndi\<close>,
  \<open>Dx\<close>, \<open>NewTrueRange\<close>, \<open>Vmu\<close>, \<open>Vmd\<close>, \<open>Viu\<close> and \<open>Vid\<close> of \<open>elements/standard\<close>. Every virtual function is a
  definition and every element a record of its four; the interpretations of
  \<open>incremental_indicator\<close> show that the incremental code of each computes what its naive code does.
\<close>

section \<open>Reading buffers and caches\<close>

text \<open>\<open>(buffers[p])[i]\<close>, \<open>cache[i]._value\<close>, \<open>_local_cache[i]._value = v\<close> and \<open>increments[i]\<close>.\<close>

definition peek :: "Buffers \<Rightarrow> int \<Rightarrow> nat \<Rightarrow> FixedPt res" where
  "peek b p i = bnd (buffers_at b p) (\<lambda>ca. ca_at ca i)"

definition cache_value :: "VectorCache \<Rightarrow> nat \<Rightarrow> FixedPt res" where
  "cache_value cache i = bnd (arr_get cache i) (\<lambda>cs. Inr (cs_value cs))"

definition set_cache :: "VectorCache \<Rightarrow> nat \<Rightarrow> FixedPt \<Rightarrow> VectorCache res" where
  "set_cache cache i v = bnd (arr_get cache i) (\<lambda>cs. arr_set cache i (cs\<lparr>cs_value := v\<rparr>))"

lemma holds_at: "holds b c X \<Longrightarrow> p < num_ports b \<Longrightarrow> \<exists>ca. buffers_at b (int p) = Inr ca \<and> rep ca c (X p)"
  by (auto simp: holds_def buffers_at_def)

lemma holds_peek:
  assumes "holds b c X" and "p < num_ports b" and "i < length (X p)"
  shows "peek b (int p) i = Inr (X p ! i)"
  using holds_at [OF assms(1,2)] assms(3) by (auto simp: peek_def rep_at)

lemma cache_value_in [simp]: "i < length cache \<Longrightarrow> cache_value cache i = Inr (cs_value (cache ! i))"
  by (simp add: cache_value_def)

lemma set_cache_in [simp]: "i < length cache \<Longrightarrow> set_cache cache i v = Inr (cache[i := (cache ! i)\<lparr>cs_value := v\<rparr>])"
  by (simp add: set_cache_def)

lemma first_value_in [simp]: "0 < length cache \<Longrightarrow> first_value cache = Inr (cs_value (cache ! 0))"
  by (simp add: first_value_def)

section \<open>Sum\<close>

lemma pop_front_size: "pop_front ca = Inr r \<Longrightarrow> ca_size (snd r) < ca_size ca"
  by (cases r) (auto simp: pop_front_def pop_front_into_def bnd_eq_Inr split: if_splits)

function calculate_sum_recursive :: "RingBuffer \<Rightarrow> FixedPt res" where
  "calculate_sum_recursive buffer =
     (if occupancy buffer = 1 then bnd (pop_front buffer) (\<lambda>r. Inr (fst r))
      else bnd (pop_front buffer) (\<lambda>r.
             bnd (calculate_sum_recursive (snd r)) (\<lambda>s. Inr (fp_plus (fst r) s))))"
  by pat_completeness auto
termination
  by (relation "measure ca_size") (auto dest: pop_front_size)

declare calculate_sum_recursive.simps [simp del]

definition Sum_initialize_element :: "Buffers \<Rightarrow> FixedPt res" where
  "Sum_initialize_element b = peek b 0 0"

definition Sum_process_naive :: "Buffers \<Rightarrow> FixedPt res" where
  "Sum_process_naive b =
     bnd (buffers_at b 0) (\<lambda>ca. bnd (CircArray_copy FixedPt_ctor ca) calculate_sum_recursive)"

definition Sum_process_ext :: "VectorCache \<Rightarrow> Buffers \<Rightarrow> VectorCache res" where
  "Sum_process_ext local b =
     bnd (Sum_process_naive b) (\<lambda>result. bnd (set_cache local 0 result) (\<lambda>l1.
     bnd (set_cache l1 1 result) (\<lambda>l2. bnd (arr_get l2 2) (\<lambda>cs. bnd (buffers_at b 0) (\<lambda>ca.
     bnd (ca_assign FixedPt_ctor (cs_ring_buffer cs) ca) (\<lambda>rb.
       arr_set l2 2 (cs\<lparr>cs_ring_buffer := rb\<rparr>)))))))"

text \<open>The window is shifted in the local cache's ring buffer, after copying the cached one into it.\<close>

definition Sum_shift :: "RingBuffer \<Rightarrow> FixedPt \<Rightarrow> FixedPt \<Rightarrow> (FixedPt \<times> RingBuffer) res" where
  "Sum_shift sum_buf sum0 new_value =
     (if is_full sum_buf
      then bnd (pop_back sum_buf) (\<lambda>(last, rb). bnd (push_front rb new_value False) (\<lambda>(_, rb').
             Inr (fp_plus (fp_minus sum0 last) new_value, rb')))
      else bnd (push_front sum_buf new_value False) (\<lambda>(_, rb'). Inr (fp_plus sum0 new_value, rb')))"

definition Sum_process_opt_ext :: "VectorCache \<Rightarrow> FixedPt list \<Rightarrow> VectorCache \<Rightarrow> VectorCache res" where
  "Sum_process_opt_ext local increments cache =
     bnd (arr_get local 2) (\<lambda>lcs. bnd (arr_get cache 2) (\<lambda>ccs.
     bnd (ca_assign FixedPt_ctor (cs_ring_buffer lcs) (cs_ring_buffer ccs)) (\<lambda>sum_buf.
     bnd (cache_value cache 1) (\<lambda>sum0. bnd (arr_get increments 0) (\<lambda>new_value.
     bnd (Sum_shift sum_buf sum0 new_value) (\<lambda>(result, rb).
     bnd (arr_set local 2 (lcs\<lparr>cs_ring_buffer := rb\<rparr>)) (\<lambda>l1. bnd (set_cache l1 0 result) (\<lambda>l2.
       set_cache l2 1 result))))))))"

definition Sum_ops :: indicator_ops where
  "Sum_ops = \<lparr>initialize_element = Sum_initialize_element, process_naive = Sum_process_naive,
     process_ext = Sum_process_ext, process_opt_ext = Sum_process_opt_ext\<rparr>"

definition Sum_ctor :: VectorCache where
  "Sum_ctor = [CacheStruct_ctor, CacheStruct_ctor, CacheStruct_ctor]"

section \<open>Exponentially weighted moving average\<close>

text \<open>\<open>configure\<close> reads ALPHA_PERIODS; without it \<open>_alpha\<close> keeps its default value.\<close>

definition Ewma_alpha :: "int option \<Rightarrow> FixedPt res" where
  "Ewma_alpha periods =
     (case periods of None \<Rightarrow> Inr FixedPt_ctor
                    | Some n \<Rightarrow> fp_divide (fromInt 2) (fp_plus (fromInt n) (fromInt 1)))"

function calculate_ewma_recursive :: "RingBuffer \<Rightarrow> FixedPt \<Rightarrow> FixedPt res" where
  "calculate_ewma_recursive buffer alpha =
     (if occupancy buffer = 1 then bnd (pop_front buffer) (\<lambda>r. Inr (fst r))
      else bnd (pop_front buffer) (\<lambda>r.
             let part_one = fp_times (int_minus 1 alpha) (fst r)
             in bnd (calculate_ewma_recursive (snd r) alpha) (\<lambda>e.
                  Inr (fp_plus part_one (fp_times alpha e)))))"
  by pat_completeness auto
termination
  by (relation "measure (\<lambda>(b, a). ca_size b)") (auto dest: pop_front_size)

declare calculate_ewma_recursive.simps [simp del]

definition Ewma_initialize_element :: "Buffers \<Rightarrow> FixedPt res" where
  "Ewma_initialize_element b = peek b 0 0"

definition Ewma_process_naive :: "FixedPt \<Rightarrow> Buffers \<Rightarrow> FixedPt res" where
  "Ewma_process_naive alpha b =
     bnd (buffers_at b 0) (\<lambda>ca. bnd (CircArray_copy FixedPt_ctor ca) (\<lambda>copy.
       calculate_ewma_recursive copy alpha))"

definition Ewma_process_ext :: "FixedPt \<Rightarrow> VectorCache \<Rightarrow> Buffers \<Rightarrow> VectorCache res" where
  "Ewma_process_ext alpha local b =
     bnd (Ewma_process_naive alpha b) (\<lambda>result. bnd (set_cache local 0 result) (\<lambda>l1.
       set_cache l1 1 result))"

definition Ewma_process_opt_ext :: "FixedPt \<Rightarrow> VectorCache \<Rightarrow> FixedPt list \<Rightarrow> VectorCache \<Rightarrow> VectorCache res" where
  "Ewma_process_opt_ext alpha local increments cache =
     bnd (arr_get increments 0) (\<lambda>inc. bnd (cache_value cache 1) (\<lambda>prev.
       let result = fp_plus (fp_times (int_minus 1 alpha) inc) (fp_times alpha prev)
       in bnd (set_cache local 0 result) (\<lambda>l1. set_cache l1 1 result)))"

definition Ewma_ops :: "FixedPt \<Rightarrow> indicator_ops" where
  "Ewma_ops alpha = \<lparr>initialize_element = Ewma_initialize_element, process_naive = Ewma_process_naive alpha,
     process_ext = Ewma_process_ext alpha, process_opt_ext = Ewma_process_opt_ext alpha\<rparr>"

definition Ewma_ctor :: VectorCache where
  "Ewma_ctor = [CacheStruct_ctor, CacheStruct_ctor]"

section \<open>Trix\<close>

definition Trix_initialize_element :: "Buffers \<Rightarrow> FixedPt res" where
  "Trix_initialize_element b = Inr (fromInt 0)"

definition Trix_process_naive :: "Buffers \<Rightarrow> FixedPt res" where
  "Trix_process_naive b =
     bnd (buffers_at b 0) (\<lambda>ca. bnd (CircArray_copy FixedPt_ctor ca) (\<lambda>copy.
     bnd (pop_front copy) (\<lambda>(last_value, copy1). bnd (pop_front copy1) (\<lambda>(penultimate_value, _).
       fp_divide (int_times 100 (fp_minus last_value penultimate_value)) penultimate_value))))"

definition Trix_process_ext :: "VectorCache \<Rightarrow> Buffers \<Rightarrow> VectorCache res" where
  "Trix_process_ext local b =
     bnd (Trix_process_naive b) (\<lambda>result. bnd (set_cache local 0 result) (\<lambda>l1.
     bnd (peek b 0 0) (\<lambda>v. set_cache l1 1 v)))"

definition Trix_process_opt_ext :: "VectorCache \<Rightarrow> FixedPt list \<Rightarrow> VectorCache \<Rightarrow> VectorCache res" where
  "Trix_process_opt_ext local increments cache =
     bnd (cache_value cache 1) (\<lambda>penultimate_value. bnd (arr_get increments 0) (\<lambda>last_value.
     bnd (fp_divide (fp_minus last_value penultimate_value) penultimate_value) (\<lambda>q.
     bnd (set_cache local 0 (int_times 100 q)) (\<lambda>l1. set_cache l1 1 last_value))))"

definition Trix_ops :: indicator_ops where
  "Trix_ops = \<lparr>initialize_element = Trix_initialize_element, process_naive = Trix_process_naive,
     process_ext = Trix_process_ext, process_opt_ext = Trix_process_opt_ext\<rparr>"

definition Trix_ctor :: VectorCache where
  "Trix_ctor = [CacheStruct_ctor, CacheStruct_ctor]"

section \<open>Directional movement\<close>

text \<open>Elements that cannot compute anything on the first round return an invalid value.\<close>

definition invalid_result :: FixedPt where
  "invalid_result = set_valid FixedPt_ctor False"

definition Pdm_initialize_element :: "Buffers \<Rightarrow> FixedPt res" where
  "Pdm_initialize_element b = Inr invalid_result"

definition calculate_pdm :: "FixedPt \<Rightarrow> FixedPt \<Rightarrow> FixedPt \<Rightarrow> FixedPt \<Rightarrow> FixedPt" where
  "calculate_pdm new_low prev_low new_high prev_high =
     (if fp_lt (fp_minus new_high prev_high) (fp_minus prev_low new_low) then fromInt 0
      else if fp_lt (fp_minus new_high prev_high) (fromInt 0) then fromInt 0
      else fp_minus new_high prev_high)"

definition Pdm_process_naive :: "Buffers \<Rightarrow> FixedPt res" where
  "Pdm_process_naive b =
     bnd (peek b 1 0) (\<lambda>new_low. bnd (peek b 1 1) (\<lambda>prev_low.
     bnd (peek b 0 0) (\<lambda>new_high. bnd (peek b 0 1) (\<lambda>prev_high.
       Inr (calculate_pdm new_low prev_low new_high prev_high)))))"

definition Pdm_process_ext :: "VectorCache \<Rightarrow> Buffers \<Rightarrow> VectorCache res" where
  "Pdm_process_ext local b =
     bnd (Pdm_process_naive b) (\<lambda>result. bnd (set_cache local 0 result) (\<lambda>l1.
     bnd (peek b 0 0) (\<lambda>h. bnd (set_cache l1 1 h) (\<lambda>l2.
     bnd (peek b 1 0) (\<lambda>l. set_cache l2 2 l)))))"

definition Pdm_process_opt_ext :: "VectorCache \<Rightarrow> FixedPt list \<Rightarrow> VectorCache \<Rightarrow> VectorCache res" where
  "Pdm_process_opt_ext local increments cache =
     bnd (arr_get increments 0) (\<lambda>new_high. bnd (arr_get increments 1) (\<lambda>new_low.
     bnd (cache_value cache 1) (\<lambda>prev_high. bnd (cache_value cache 2) (\<lambda>prev_low.
     bnd (set_cache local 0 (calculate_pdm new_low prev_low new_high prev_high)) (\<lambda>l1.
     bnd (set_cache l1 1 new_high) (\<lambda>l2. set_cache l2 2 new_low))))))"

definition Pdm_ops :: indicator_ops where
  "Pdm_ops = \<lparr>initialize_element = Pdm_initialize_element, process_naive = Pdm_process_naive,
     process_ext = Pdm_process_ext, process_opt_ext = Pdm_process_opt_ext\<rparr>"

definition Pdm_ctor :: VectorCache where
  "Pdm_ctor = [CacheStruct_ctor, CacheStruct_ctor, CacheStruct_ctor]"

definition Ndm_initialize_element :: "Buffers \<Rightarrow> FixedPt res" where
  "Ndm_initialize_element b = Inr invalid_result"

definition calculate_ndm :: "FixedPt \<Rightarrow> FixedPt \<Rightarrow> FixedPt \<Rightarrow> FixedPt \<Rightarrow> FixedPt" where
  "calculate_ndm new_low prev_low new_high prev_high =
     (if fp_lt (fp_minus prev_low new_low) (fp_minus new_high prev_high) then fromInt 0
      else if fp_lt (fp_minus prev_low new_low) (fromInt 0) then fromInt 0
      else fp_minus prev_low new_low)"

definition Ndm_process_naive :: "Buffers \<Rightarrow> FixedPt res" where
  "Ndm_process_naive b =
     bnd (peek b 1 0) (\<lambda>new_low. bnd (peek b 1 1) (\<lambda>prev_low.
     bnd (peek b 0 0) (\<lambda>new_high. bnd (peek b 0 1) (\<lambda>prev_high.
       Inr (calculate_ndm new_low prev_low new_high prev_high)))))"

definition Ndm_process_ext :: "VectorCache \<Rightarrow> Buffers \<Rightarrow> VectorCache res" where
  "Ndm_process_ext local b =
     bnd (Ndm_process_naive b) (\<lambda>result. bnd (set_cache local 0 result) (\<lambda>l1.
     bnd (peek b 0 0) (\<lambda>h. bnd (set_cache l1 1 h) (\<lambda>l2.
     bnd (peek b 1 0) (\<lambda>l. set_cache l2 2 l)))))"

definition Ndm_process_opt_ext :: "VectorCache \<Rightarrow> FixedPt list \<Rightarrow> VectorCache \<Rightarrow> VectorCache res" where
  "Ndm_process_opt_ext local increments cache =
     bnd (arr_get increments 0) (\<lambda>new_high. bnd (arr_get increments 1) (\<lambda>new_low.
     bnd (cache_value cache 1) (\<lambda>prev_high. bnd (cache_value cache 2) (\<lambda>prev_low.
     bnd (set_cache local 0 (calculate_ndm new_low prev_low new_high prev_high)) (\<lambda>l1.
     bnd (set_cache l1 1 new_high) (\<lambda>l2. set_cache l2 2 new_low))))))"

definition Ndm_ops :: indicator_ops where
  "Ndm_ops = \<lparr>initialize_element = Ndm_initialize_element, process_naive = Ndm_process_naive,
     process_ext = Ndm_process_ext, process_opt_ext = Ndm_process_opt_ext\<rparr>"

definition Ndm_ctor :: VectorCache where
  "Ndm_ctor = [CacheStruct_ctor, CacheStruct_ctor, CacheStruct_ctor]"

section \<open>Directional indicators\<close>

definition Pdi_process_naive :: "Buffers \<Rightarrow> FixedPt res" where
  "Pdi_process_naive b =
     bnd (peek b 0 0) (\<lambda>pdm_smoothed. bnd (peek b 1 0) (\<lambda>tr_smoothed.
       if getC tr_smoothed = 0 then Inr (fromInt 0) else fp_divide pdm_smoothed tr_smoothed))"

definition Pdi_initialize_element :: "Buffers \<Rightarrow> FixedPt res" where
  "Pdi_initialize_element b = Pdi_process_naive b"

definition Pdi_process_ext :: "VectorCache \<Rightarrow> Buffers \<Rightarrow> VectorCache res" where
  "Pdi_process_ext local b = bnd (Pdi_process_naive b) (\<lambda>result. set_cache local 0 result)"

definition Pdi_process_opt_ext :: "VectorCache \<Rightarrow> FixedPt list \<Rightarrow> VectorCache \<Rightarrow> VectorCache res" where
  "Pdi_process_opt_ext local increments cache =
     bnd (arr_get increments 0) (\<lambda>pdm_smoothed. bnd (arr_get increments 1) (\<lambda>tr_smoothed.
     bnd (if getC tr_smoothed = 0 then Inr (fromInt 0) else fp_divide pdm_smoothed tr_smoothed) (\<lambda>result.
       set_cache local 0 result)))"

definition Pdi_ops :: indicator_ops where
  "Pdi_ops = \<lparr>initialize_element = Pdi_initialize_element, process_naive = Pdi_process_naive,
     process_ext = Pdi_process_ext, process_opt_ext = Pdi_process_opt_ext\<rparr>"

definition Pdi_ctor :: VectorCache where
  "Pdi_ctor = [CacheStruct_ctor]"

definition Ndi_process_naive :: "Buffers \<Rightarrow> FixedPt res" where
  "Ndi_process_naive b =
     bnd (peek b 0 0) (\<lambda>ndm_smoothed. bnd (peek b 1 0) (\<lambda>tr_smoothed.
       if getC tr_smoothed = 0 then Inr (fromInt 0) else fp_divide ndm_smoothed tr_smoothed))"

definition Ndi_initialize_element :: "Buffers \<Rightarrow> FixedPt res" where
  "Ndi_initialize_element b = Ndi_process_naive b"

definition Ndi_process_ext :: "VectorCache \<Rightarrow> Buffers \<Rightarrow> VectorCache res" where
  "Ndi_process_ext local b = bnd (Ndi_process_naive b) (\<lambda>result. set_cache local 0 result)"

definition Ndi_process_opt_ext :: "VectorCache \<Rightarrow> FixedPt list \<Rightarrow> VectorCache \<Rightarrow> VectorCache res" where
  "Ndi_process_opt_ext local increments cache =
     bnd (arr_get increments 0) (\<lambda>ndm_smoothed. bnd (arr_get increments 1) (\<lambda>tr_smoothed.
     bnd (if getC tr_smoothed = 0 then Inr (fromInt 0) else fp_divide ndm_smoothed tr_smoothed) (\<lambda>result.
       set_cache local 0 result)))"

definition Ndi_ops :: indicator_ops where
  "Ndi_ops = \<lparr>initialize_element = Ndi_initialize_element, process_naive = Ndi_process_naive,
     process_ext = Ndi_process_ext, process_opt_ext = Ndi_process_opt_ext\<rparr>"

definition Ndi_ctor :: VectorCache where
  "Ndi_ctor = [CacheStruct_ctor]"

definition Dx_process_naive :: "Buffers \<Rightarrow> FixedPt res" where
  "Dx_process_naive b =
     bnd (peek b 0 0) (\<lambda>pdi. bnd (peek b 1 0) (\<lambda>ndi.
       if getC (fp_plus pdi ndi) = 0 then Inr (fromInt 0)
       else fp_divide (int_times 100 (fpt_abs (fp_minus pdi ndi))) (fp_plus pdi ndi)))"

definition Dx_initialize_element :: "Buffers \<Rightarrow> FixedPt res" where
  "Dx_initialize_element b = Dx_process_naive b"

definition Dx_process_ext :: "VectorCache \<Rightarrow> Buffers \<Rightarrow> VectorCache res" where
  "Dx_process_ext local b = bnd (Dx_process_naive b) (\<lambda>result. set_cache local 0 result)"

definition Dx_process_opt_ext :: "VectorCache \<Rightarrow> FixedPt list \<Rightarrow> VectorCache \<Rightarrow> VectorCache res" where
  "Dx_process_opt_ext local increments cache =
     bnd (arr_get increments 0) (\<lambda>pdi. bnd (arr_get increments 1) (\<lambda>ndi.
     bnd (if getC (fp_plus pdi ndi) = 0 then Inr (fromInt 0)
       else fp_divide (int_times 100 (fpt_abs (fp_minus pdi ndi))) (fp_plus pdi ndi)) (\<lambda>result.
       set_cache local 0 result)))"

definition Dx_ops :: indicator_ops where
  "Dx_ops = \<lparr>initialize_element = Dx_initialize_element, process_naive = Dx_process_naive,
     process_ext = Dx_process_ext, process_opt_ext = Dx_process_opt_ext\<rparr>"

definition Dx_ctor :: VectorCache where
  "Dx_ctor = [CacheStruct_ctor]"

section \<open>True range\<close>

definition fpt_max :: "FixedPt \<Rightarrow> FixedPt \<Rightarrow> FixedPt" where
  "fpt_max a b = (if fp_gt a b then a else b)"

definition calculate_tr :: "FixedPt \<Rightarrow> FixedPt \<Rightarrow> FixedPt \<Rightarrow> FixedPt" where
  "calculate_tr new_low new_high prev_close =
     fpt_max (fp_minus prev_close new_low)
       (fpt_max (fp_minus new_high new_low) (fp_minus new_high prev_close))"

definition NewTrueRange_initialize_element :: "Buffers \<Rightarrow> FixedPt res" where
  "NewTrueRange_initialize_element b = Inr invalid_result"

definition NewTrueRange_process_naive :: "Buffers \<Rightarrow> FixedPt res" where
  "NewTrueRange_process_naive b =
     bnd (peek b 1 0) (\<lambda>new_low. bnd (peek b 0 0) (\<lambda>new_high. bnd (peek b 2 1) (\<lambda>prev_close.
       Inr (calculate_tr new_low new_high prev_close))))"

definition NewTrueRange_process_ext :: "VectorCache \<Rightarrow> Buffers \<Rightarrow> VectorCache res" where
  "NewTrueRange_process_ext local b =
     bnd (NewTrueRange_process_naive b) (\<lambda>result. bnd (set_cache local 0 result) (\<lambda>l1.
     bnd (peek b 2 0) (\<lambda>v. set_cache l1 1 v)))"

definition NewTrueRange_process_opt_ext :: "VectorCache \<Rightarrow> FixedPt list \<Rightarrow> VectorCache \<Rightarrow> VectorCache res" where
  "NewTrueRange_process_opt_ext local increments cache =
     bnd (arr_get increments 0) (\<lambda>new_high. bnd (arr_get increments 1) (\<lambda>new_low.
     bnd (arr_get increments 2) (\<lambda>new_close. bnd (cache_value cache 1) (\<lambda>prev_close.
     bnd (set_cache local 0 (calculate_tr new_low new_high prev_close)) (\<lambda>l1.
       set_cache l1 1 new_close)))))"

definition NewTrueRange_ops :: indicator_ops where
  "NewTrueRange_ops = \<lparr>initialize_element = NewTrueRange_initialize_element,
     process_naive = NewTrueRange_process_naive, process_ext = NewTrueRange_process_ext,
     process_opt_ext = NewTrueRange_process_opt_ext\<rparr>"

definition NewTrueRange_ctor :: VectorCache where
  "NewTrueRange_ctor = [CacheStruct_ctor, CacheStruct_ctor]"

section \<open>Vortex movements and indices\<close>

definition Vmu_initialize_element :: "Buffers \<Rightarrow> FixedPt res" where
  "Vmu_initialize_element b = Inr invalid_result"

definition Vmu_process_naive :: "Buffers \<Rightarrow> FixedPt res" where
  "Vmu_process_naive b =
     bnd (peek b 1 1) (\<lambda>prev_low. bnd (peek b 0 0) (\<lambda>new_high.
       Inr (fpt_abs (fp_minus new_high prev_low))))"

definition Vmu_process_ext :: "VectorCache \<Rightarrow> Buffers \<Rightarrow> VectorCache res" where
  "Vmu_process_ext local b =
     bnd (Vmu_process_naive b) (\<lambda>result. bnd (set_cache local 0 result) (\<lambda>l1.
     bnd (peek b 1 0) (\<lambda>v. set_cache l1 1 v)))"

definition Vmu_process_opt_ext :: "VectorCache \<Rightarrow> FixedPt list \<Rightarrow> VectorCache \<Rightarrow> VectorCache res" where
  "Vmu_process_opt_ext local increments cache =
     bnd (arr_get increments 0) (\<lambda>new_high. bnd (arr_get increments 1) (\<lambda>new_low.
     bnd (cache_value cache 1) (\<lambda>prev_low.
     bnd (set_cache local 0 (fpt_abs (fp_minus new_high prev_low))) (\<lambda>l1. set_cache l1 1 new_low))))"

definition Vmu_ops :: indicator_ops where
  "Vmu_ops = \<lparr>initialize_element = Vmu_initialize_element, process_naive = Vmu_process_naive,
     process_ext = Vmu_process_ext, process_opt_ext = Vmu_process_opt_ext\<rparr>"

definition Vmu_ctor :: VectorCache where
  "Vmu_ctor = [CacheStruct_ctor, CacheStruct_ctor]"

definition Vmd_initialize_element :: "Buffers \<Rightarrow> FixedPt res" where
  "Vmd_initialize_element b = Inr invalid_result"

definition Vmd_process_naive :: "Buffers \<Rightarrow> FixedPt res" where
  "Vmd_process_naive b =
     bnd (peek b 1 0) (\<lambda>new_low. bnd (peek b 0 1) (\<lambda>prev_high.
       Inr (fpt_abs (fp_minus new_low prev_high))))"

definition Vmd_process_ext :: "VectorCache \<Rightarrow> Buffers \<Rightarrow> VectorCache res" where
  "Vmd_process_ext local b =
     bnd (Vmd_process_naive b) (\<lambda>result. bnd (set_cache local 0 result) (\<lambda>l1.
     bnd (peek b 0 0) (\<lambda>v. set_cache l1 1 v)))"

definition Vmd_process_opt_ext :: "VectorCache \<Rightarrow> FixedPt list \<Rightarrow> VectorCache \<Rightarrow> VectorCache res" where
  "Vmd_process_opt_ext local increments cache =
     bnd (arr_get increments 0) (\<lambda>new_high. bnd (arr_get increments 1) (\<lambda>new_low.
     bnd (cache_value cache 1) (\<lambda>prev_high.
     bnd (set_cache local 0 (fpt_abs (fp_minus new_low prev_high))) (\<lambda>l1. set_cache l1 1 new_high))))"

definition Vmd_ops :: indicator_ops where
  "Vmd_ops = \<lparr>initialize_element = Vmd_initialize_element, process_naive = Vmd_process_naive,
     process_ext = Vmd_process_ext, process_opt_ext = Vmd_process_opt_ext\<rparr>"

definition Vmd_ctor :: VectorCache where
  "Vmd_ctor = [CacheStruct_ctor, CacheStruct_ctor]"

definition Viu_process_naive :: "Buffers \<Rightarrow> FixedPt res" where
  "Viu_process_naive b =
     bnd (peek b 0 0) (\<lambda>vmu_summed. bnd (peek b 1 0) (\<lambda>tr_summed.
       if getC tr_summed = 0 then Inr (fromInt 0) else fp_divide vmu_summed tr_summed))"

definition Viu_initialize_element :: "Buffers \<Rightarrow> FixedPt res" where
  "Viu_initialize_element b = Viu_process_naive b"

definition Viu_process_ext :: "VectorCache \<Rightarrow> Buffers \<Rightarrow> VectorCache res" where
  "Viu_process_ext local b = bnd (Viu_process_naive b) (\<lambda>result. set_cache local 0 result)"

definition Viu_process_opt_ext :: "VectorCache \<Rightarrow> FixedPt list \<Rightarrow> VectorCache \<Rightarrow> VectorCache res" where
  "Viu_process_opt_ext local increments cache =
     bnd (arr_get increments 0) (\<lambda>vmu_summed. bnd (arr_get increments 1) (\<lambda>tr_summed.
     bnd (if getC tr_summed = 0 then Inr (fromInt 0) else fp_divide vmu_summed tr_summed) (\<lambda>result.
       set_cache local 0 result)))"

definition Viu_ops :: indicator_ops where
  "Viu_ops = \<lparr>initialize_element = Viu_initialize_element, process_naive = Viu_process_naive,
     process_ext = Viu_process_ext, process_opt_ext = Viu_process_opt_ext\<rparr>"

definition Viu_ctor :: VectorCache where
  "Viu_ctor = [CacheStruct_ctor]"

definition Vid_process_naive :: "Buffers \<Rightarrow> FixedPt res" where
  "Vid_process_naive b =
     bnd (peek b 0 0) (\<lambda>vmd_summed. bnd (peek b 1 0) (\<lambda>tr_summed.
       if getC tr_summed = 0 then Inr (fromInt 0) else fp_divide vmd_summed tr_summed))"

definition Vid_initialize_element :: "Buffers \<Rightarrow> FixedPt res" where
  "Vid_initialize_element b = Vid_process_naive b"

definition Vid_process_ext :: "VectorCache \<Rightarrow> Buffers \<Rightarrow> VectorCache res" where
  "Vid_process_ext local b = bnd (Vid_process_naive b) (\<lambda>result. set_cache local 0 result)"

definition Vid_process_opt_ext :: "VectorCache \<Rightarrow> FixedPt list \<Rightarrow> VectorCache \<Rightarrow> VectorCache res" where
  "Vid_process_opt_ext local increments cache =
     bnd (arr_get increments 0) (\<lambda>vmd_summed. bnd (arr_get increments 1) (\<lambda>tr_summed.
     bnd (if getC tr_summed = 0 then Inr (fromInt 0) else fp_divide vmd_summed tr_summed) (\<lambda>result.
       set_cache local 0 result)))"

definition Vid_ops :: indicator_ops where
  "Vid_ops = \<lparr>initialize_element = Vid_initialize_element, process_naive = Vid_process_naive,
     process_ext = Vid_process_ext, process_opt_ext = Vid_process_opt_ext\<rparr>"

definition Vid_ctor :: VectorCache where
  "Vid_ctor = [CacheStruct_ctor]"

section \<open>The elements on listed buffers\<close>

lemma copy_rep:
  assumes "rep ca c xs"
  obtains l where "CircArray_copy d ca = Inr l" and "rep l c xs"
  by (rule rep_deep_copy [OF assms, of None d]) (simp_all add: CircArray_copy_def that)

lemma assign_rep:
  assumes "rep ca c xs" and "ca_inv l"
  obtains l' where "ca_assign d l ca = Inr l'" and "rep l' c xs"
  by (rule rep_deep_copy [OF assms(1), of "Some l" d]) (simp_all add: ca_assign_def that assms(2))

lemma rep_inv: "rep ca c xs \<Longrightarrow> ca_inv ca"
  by (simp add: rep_def)

text \<open>Reading the two newest values of every port.\<close>

lemma peek_two:
  assumes "holds b c X" and "num_ports b = n" and "\<forall>p < n. 2 \<le> length (X p)"
  shows "0 < n \<Longrightarrow> peek b 0 0 = Inr (X 0 ! 0)" "0 < n \<Longrightarrow> peek b 0 (Suc 0) = Inr (X 0 ! Suc 0)"
    "1 < n \<Longrightarrow> peek b 1 0 = Inr (X (Suc 0) ! 0)" "1 < n \<Longrightarrow> peek b 1 (Suc 0) = Inr (X (Suc 0) ! Suc 0)"
    "2 < n \<Longrightarrow> peek b 2 0 = Inr (X 2 ! 0)" "2 < n \<Longrightarrow> peek b 2 (Suc 0) = Inr (X 2 ! Suc 0)"
proof -
  have "peek b (int p) i = Inr (X p ! i)" if "p < n" "i < 2" for p i
    using assms that by (intro holds_peek) auto
  note * = this [of 0 0] this [of 0 1] this [of 1 0] this [of 1 1] this [of 2 0] this [of 2 1]
  show "0 < n \<Longrightarrow> peek b 0 0 = Inr (X 0 ! 0)" "0 < n \<Longrightarrow> peek b 0 (Suc 0) = Inr (X 0 ! Suc 0)"
    "1 < n \<Longrightarrow> peek b 1 0 = Inr (X (Suc 0) ! 0)" "1 < n \<Longrightarrow> peek b 1 (Suc 0) = Inr (X (Suc 0) ! Suc 0)"
    "2 < n \<Longrightarrow> peek b 2 0 = Inr (X 2 ! 0)" "2 < n \<Longrightarrow> peek b 2 (Suc 0) = Inr (X 2 ! Suc 0)"
    using * by simp_all
qed

lemma peek_newest:
  assumes "holds b c X" and "num_ports b = n" and "\<forall>p < n. X p \<noteq> []"
  shows "0 < n \<Longrightarrow> peek b 0 0 = Inr (X 0 ! 0)" "1 < n \<Longrightarrow> peek b 1 0 = Inr (X (Suc 0) ! 0)"
  using holds_peek [OF assms(1), of 0 0] holds_peek [OF assms(1), of 1 0] assms(2,3) by simp_all

lemma upt_ports: "map v [0..<1] = [v 0]" "map v [0..<2] = [v 0, v 1]" "map v [0..<3] = [v 0, v 1, v 2]"
  by (simp_all add: numeral_eq_Suc)

text \<open>A quotient that is zero where the code avoids the division.\<close>

definition safe_ratio :: "FixedPt \<Rightarrow> FixedPt \<Rightarrow> FixedPt" where
  "safe_ratio a b = (if fp_value b = 0 then fromInt 0 else projr (fp_divide a b))"

lemma safe_ratio_eq: "(if getC b = 0 then Inr (fromInt 0) else fp_divide a b) = Inr (safe_ratio a b)"
  using fp_divide_ok [of b a] by (auto simp: safe_ratio_def getC_def)

definition dx_value :: "FixedPt \<Rightarrow> FixedPt \<Rightarrow> FixedPt" where
  "dx_value pdi ndi = safe_ratio (int_times 100 (fpt_abs (fp_minus pdi ndi))) (fp_plus pdi ndi)"

lemma take_window:
  assumes "2 \<le> c" and "xs \<noteq> []"
  shows "take c (v # xs) ! 0 = v" "take c (v # xs) ! Suc 0 = xs ! 0"
  using assms by (simp_all add: nth_Cons')

definition sized :: "nat \<Rightarrow> VectorCache \<Rightarrow> bool" where
  "sized k loc \<longleftrightarrow> length loc = k"

text \<open>Elements without memory: two ports, a function \<open>h\<close> of the two newest values.\<close>

locale memoryless_pair =
  fixes ops :: indicator_ops and h :: "FixedPt \<Rightarrow> FixedPt \<Rightarrow> FixedPt"
  assumes naive_eq: "process_naive ops b = bnd (peek b 0 0) (\<lambda>x. bnd (peek b 1 0) (\<lambda>y. Inr (h x y)))"
    and init_eq: "initialize_element ops b = process_naive ops b"
    and ext_eq: "process_ext ops loc b = bnd (process_naive ops b) (set_cache loc 0)"
    and opt_eq: "process_opt_ext ops loc incs cache =
      bnd (arr_get incs 0) (\<lambda>x. bnd (arr_get incs 1) (\<lambda>y. set_cache loc 0 (h x y)))"

sublocale memoryless_pair \<subseteq> incremental_indicator ops 2 "\<lambda>X. h (X 0 ! 0) (X (Suc 0) ! 0)"
  "\<lambda>_ _ _. True" "sized 1" "\<lambda>_ _. True"
proof unfold_locales
  fix b c X assume *: "holds b c X" "num_ports b = 2" "\<forall>p < 2. X p \<noteq> []"
  show "\<exists>iv. initialize_element ops b = Inr iv"
    using peek_newest [OF *] by (simp add: init_eq naive_eq)
next
  fix b c X assume *: "holds b c X" "num_ports b = 2" "\<forall>p < 2. 2 \<le> length (X p)"
  then show nv: "process_naive ops b = Inr (h (X 0 ! 0) (X (Suc 0) ! 0))"
    using peek_two [OF *] by (simp add: naive_eq)
  fix loc assume "sized 1 loc"
  with nv show "\<exists>loc'. process_ext ops loc b = Inr loc' \<and>
      first_value loc' = Inr (h (X 0 ! 0) (X (Suc 0) ! 0)) \<and> True \<and> sized 1 loc'"
    by (simp add: ext_eq sized_def)
next
  fix c cache loc and X :: "nat \<Rightarrow> FixedPt list" and v :: "nat \<Rightarrow> FixedPt"
  assume "2 \<le> c" "\<forall>p < 2. X p \<noteq> [] \<and> length (X p) \<le> c" "sized 1 loc"
  then show "\<exists>loc'. process_opt_ext ops loc (map v [0..<2]) cache = Inr loc' \<and>
      first_value loc' = Inr (h (take c (v 0 # X 0) ! 0) (take c (v (Suc 0) # X (Suc 0)) ! 0)) \<and>
      True \<and> sized 1 loc'"
    by (simp add: opt_eq sized_def upt_ports)
qed simp

interpretation pdi: memoryless_pair Pdi_ops safe_ratio
  by unfold_locales (simp_all add: Pdi_ops_def Pdi_initialize_element_def Pdi_process_naive_def
      Pdi_process_ext_def Pdi_process_opt_ext_def safe_ratio_eq cong: bnd_cong)

interpretation ndi: memoryless_pair Ndi_ops safe_ratio
  by unfold_locales (simp_all add: Ndi_ops_def Ndi_initialize_element_def Ndi_process_naive_def
      Ndi_process_ext_def Ndi_process_opt_ext_def safe_ratio_eq cong: bnd_cong)

interpretation viu: memoryless_pair Viu_ops safe_ratio
  by unfold_locales (simp_all add: Viu_ops_def Viu_initialize_element_def Viu_process_naive_def
      Viu_process_ext_def Viu_process_opt_ext_def safe_ratio_eq cong: bnd_cong)

interpretation vid: memoryless_pair Vid_ops safe_ratio
  by unfold_locales (simp_all add: Vid_ops_def Vid_initialize_element_def Vid_process_naive_def
      Vid_process_ext_def Vid_process_opt_ext_def safe_ratio_eq cong: bnd_cong)

interpretation dx: memoryless_pair Dx_ops dx_value
  by unfold_locales (simp_all add: Dx_ops_def Dx_initialize_element_def Dx_process_naive_def
      Dx_process_ext_def Dx_process_opt_ext_def safe_ratio_eq dx_value_def cong: bnd_cong)

text \<open>
  Elements that remember the previous round: a function \<open>h\<close> of the newest and of the previous value of
  every port; \<open>keeps\<close> says what the cache holds of a round.
\<close>

locale previous_round =
  fixes ops :: indicator_ops and n :: nat
    and h :: "(nat \<Rightarrow> FixedPt) \<Rightarrow> (nat \<Rightarrow> FixedPt) \<Rightarrow> FixedPt"
    and k :: nat and keeps :: "VectorCache \<Rightarrow> (nat \<Rightarrow> FixedPt) \<Rightarrow> bool"
  assumes some_port: "0 < n"
    and starts: "\<exists>iv. initialize_element ops b = Inr iv"
    and h_cong: "\<forall>p < n. u p = u' p \<and> w p = w' p \<Longrightarrow> h u w = h u' w'"
    and keeps_cong: "\<forall>p < n. u p = u' p \<Longrightarrow> keeps cache u = keeps cache u'"
    and naive_step: "holds b c X \<Longrightarrow> num_ports b = n \<Longrightarrow> \<forall>p < n. 2 \<le> length (X p) \<Longrightarrow>
      process_naive ops b = Inr (h (\<lambda>p. X p ! 0) (\<lambda>p. X p ! Suc 0))"
    and ext_step: "holds b c X \<Longrightarrow> num_ports b = n \<Longrightarrow> \<forall>p < n. 2 \<le> length (X p) \<Longrightarrow> sized k loc \<Longrightarrow>
      \<exists>loc'. process_ext ops loc b = Inr loc' \<and> first_value loc' = Inr (h (\<lambda>p. X p ! 0) (\<lambda>p. X p ! Suc 0)) \<and>
        keeps loc' (\<lambda>p. X p ! 0) \<and> sized k loc'"
    and opt_step: "keeps cache w \<Longrightarrow> sized k loc \<Longrightarrow>
      \<exists>loc'. process_opt_ext ops loc (map v [0..<n]) cache = Inr loc' \<and> first_value loc' = Inr (h v w) \<and>
        keeps loc' v \<and> sized k loc'"

sublocale previous_round \<subseteq> incremental_indicator ops n "\<lambda>X. h (\<lambda>p. X p ! 0) (\<lambda>p. X p ! Suc 0)"
  "\<lambda>_ cache X. keeps cache (\<lambda>p. X p ! 0)" "sized k" "\<lambda>_ _. True"
proof unfold_locales
  fix c cache X loc v
  assume kp: "keeps cache (\<lambda>p. X p ! 0)" and c: "2 \<le> c"
    and X: "\<forall>p < n. X p \<noteq> [] \<and> length (X p) \<le> c" and loc: "sized k loc"
  obtain loc' where loc': "process_opt_ext ops loc (map v [0..<n]) cache = Inr loc'"
    "first_value loc' = Inr (h v (\<lambda>p. X p ! 0))" "keeps loc' v" "sized k loc'"
    using opt_step [OF kp loc, of v] by blast
  have "h v (\<lambda>p. X p ! 0) = h (\<lambda>p. take c (v p # X p) ! 0) (\<lambda>p. take c (v p # X p) ! Suc 0)"
    using X c by (intro h_cong) (simp add: take_window)
  moreover have "keeps loc' v = keeps loc' (\<lambda>p. take c (v p # X p) ! 0)"
    using X c by (intro keeps_cong) (simp add: take_window)
  ultimately show "\<exists>loc'. process_opt_ext ops loc (map v [0..<n]) cache = Inr loc' \<and>
      first_value loc' = Inr (h (\<lambda>p. take c (v p # X p) ! 0) (\<lambda>p. take c (v p # X p) ! Suc 0)) \<and>
      keeps loc' (\<lambda>p. take c (v p # X p) ! 0) \<and> sized k loc'"
    using loc' by auto
qed (use some_port starts naive_step ext_step in blast)+

lemma all_below: "(\<forall>p < 2. P p) \<longleftrightarrow> P 0 \<and> P (Suc 0)" "(\<forall>p < 3. P p) \<longleftrightarrow> P 0 \<and> P (Suc 0) \<and> P 2"
  by (auto simp: numeral_eq_Suc less_Suc_eq)

lemma sized_simps:
  "sized 2 loc \<longleftrightarrow> (\<exists>x y. loc = [x, y])" "sized 3 loc \<longleftrightarrow> (\<exists>x y z. loc = [x, y, z])"
  by (auto simp: sized_def numeral_eq_Suc length_Suc_conv)

definition keeps_both :: "VectorCache \<Rightarrow> (nat \<Rightarrow> FixedPt) \<Rightarrow> bool" where
  "keeps_both cache u \<longleftrightarrow> sized 3 cache \<and> cs_value (cache ! 1) = u 0 \<and> cs_value (cache ! 2) = u 1"

definition keeps_port :: "nat \<Rightarrow> VectorCache \<Rightarrow> (nat \<Rightarrow> FixedPt) \<Rightarrow> bool" where
  "keeps_port p cache u \<longleftrightarrow> sized 2 cache \<and> cs_value (cache ! 1) = u p"

interpretation pdm: previous_round Pdm_ops 2 "\<lambda>new prev. calculate_pdm (new 1) (prev 1) (new 0) (prev 0)"
  3 keeps_both
proof unfold_locales
  fix b c X assume *: "holds b c X" "num_ports b = 2" "\<forall>p < 2. 2 \<le> length (X p)"
  show nv: "process_naive Pdm_ops b = Inr (calculate_pdm (X 1 ! 0) (X 1 ! Suc 0) (X 0 ! 0) (X 0 ! Suc 0))"
    using peek_two [OF *] by (simp add: Pdm_ops_def Pdm_process_naive_def)
  fix loc assume "sized 3 loc"
  then show "\<exists>loc'. process_ext Pdm_ops loc b = Inr loc' \<and>
      first_value loc' = Inr (calculate_pdm (X 1 ! 0) (X 1 ! Suc 0) (X 0 ! 0) (X 0 ! Suc 0)) \<and>
      keeps_both loc' (\<lambda>p. X p ! 0) \<and> sized 3 loc'"
    using peek_two [OF *] nv by (auto simp: Pdm_ops_def Pdm_process_ext_def sized_simps keeps_both_def)
qed (auto simp: Pdm_ops_def Pdm_initialize_element_def Pdm_process_opt_ext_def sized_simps keeps_both_def
    upt_ports all_below)

interpretation ndm: previous_round Ndm_ops 2 "\<lambda>new prev. calculate_ndm (new 1) (prev 1) (new 0) (prev 0)"
  3 keeps_both
proof unfold_locales
  fix b c X assume *: "holds b c X" "num_ports b = 2" "\<forall>p < 2. 2 \<le> length (X p)"
  show nv: "process_naive Ndm_ops b = Inr (calculate_ndm (X 1 ! 0) (X 1 ! Suc 0) (X 0 ! 0) (X 0 ! Suc 0))"
    using peek_two [OF *] by (simp add: Ndm_ops_def Ndm_process_naive_def)
  fix loc assume "sized 3 loc"
  then show "\<exists>loc'. process_ext Ndm_ops loc b = Inr loc' \<and>
      first_value loc' = Inr (calculate_ndm (X 1 ! 0) (X 1 ! Suc 0) (X 0 ! 0) (X 0 ! Suc 0)) \<and>
      keeps_both loc' (\<lambda>p. X p ! 0) \<and> sized 3 loc'"
    using peek_two [OF *] nv by (auto simp: Ndm_ops_def Ndm_process_ext_def sized_simps keeps_both_def)
qed (auto simp: Ndm_ops_def Ndm_initialize_element_def Ndm_process_opt_ext_def sized_simps keeps_both_def
    upt_ports all_below)

interpretation new_tr: previous_round NewTrueRange_ops 3 "\<lambda>new prev. calculate_tr (new 1) (new 0) (prev 2)" 2 "keeps_port 2"
proof unfold_locales
  fix b c X assume *: "holds b c X" "num_ports b = 3" "\<forall>p < 3. 2 \<le> length (X p)"
  show nv: "process_naive NewTrueRange_ops b = Inr (calculate_tr (X 1 ! 0) (X 0 ! 0) (X 2 ! Suc 0))"
    using peek_two [OF *] by (simp add: NewTrueRange_ops_def NewTrueRange_process_naive_def)
  fix loc assume "sized 2 loc"
  then show "\<exists>loc'. process_ext NewTrueRange_ops loc b = Inr loc' \<and> first_value loc' = Inr (calculate_tr (X 1 ! 0) (X 0 ! 0) (X 2 ! Suc 0)) \<and>
      keeps_port 2 loc' (\<lambda>p. X p ! 0) \<and> sized 2 loc'"
    using peek_two [OF *] nv by (auto simp: NewTrueRange_ops_def NewTrueRange_process_ext_def sized_simps keeps_port_def)
qed (auto simp: NewTrueRange_ops_def NewTrueRange_initialize_element_def NewTrueRange_process_opt_ext_def sized_simps keeps_port_def
    upt_ports all_below)

interpretation vmu: previous_round Vmu_ops 2 "\<lambda>new prev. fpt_abs (fp_minus (new 0) (prev 1))" 2 "keeps_port 1"
proof unfold_locales
  fix b c X assume *: "holds b c X" "num_ports b = 2" "\<forall>p < 2. 2 \<le> length (X p)"
  show nv: "process_naive Vmu_ops b = Inr (fpt_abs (fp_minus (X 0 ! 0) (X 1 ! Suc 0)))"
    using peek_two [OF *] by (simp add: Vmu_ops_def Vmu_process_naive_def)
  fix loc assume "sized 2 loc"
  then show "\<exists>loc'. process_ext Vmu_ops loc b = Inr loc' \<and> first_value loc' = Inr (fpt_abs (fp_minus (X 0 ! 0) (X 1 ! Suc 0))) \<and>
      keeps_port 1 loc' (\<lambda>p. X p ! 0) \<and> sized 2 loc'"
    using peek_two [OF *] nv by (auto simp: Vmu_ops_def Vmu_process_ext_def sized_simps keeps_port_def)
qed (auto simp: Vmu_ops_def Vmu_initialize_element_def Vmu_process_opt_ext_def sized_simps keeps_port_def
    upt_ports all_below)

interpretation vmd: previous_round Vmd_ops 2 "\<lambda>new prev. fpt_abs (fp_minus (new 1) (prev 0))" 2 "keeps_port 0"
proof unfold_locales
  fix b c X assume *: "holds b c X" "num_ports b = 2" "\<forall>p < 2. 2 \<le> length (X p)"
  show nv: "process_naive Vmd_ops b = Inr (fpt_abs (fp_minus (X 1 ! 0) (X 0 ! Suc 0)))"
    using peek_two [OF *] by (simp add: Vmd_ops_def Vmd_process_naive_def)
  fix loc assume "sized 2 loc"
  then show "\<exists>loc'. process_ext Vmd_ops loc b = Inr loc' \<and> first_value loc' = Inr (fpt_abs (fp_minus (X 1 ! 0) (X 0 ! Suc 0))) \<and>
      keeps_port 0 loc' (\<lambda>p. X p ! 0) \<and> sized 2 loc'"
    using peek_two [OF *] nv by (auto simp: Vmd_ops_def Vmd_process_ext_def sized_simps keeps_port_def)
qed (auto simp: Vmd_ops_def Vmd_initialize_element_def Vmd_process_opt_ext_def sized_simps keeps_port_def
    upt_ports all_below)

text \<open>The sum over a window, and the recursion of the moving average over one.\<close>

fun sum_window :: "FixedPt list \<Rightarrow> FixedPt" where
  "sum_window [] = FixedPt_ctor"
| "sum_window [x] = x"
| "sum_window (x # xs) = fp_plus x (sum_window xs)"

fun ewma_window :: "FixedPt \<Rightarrow> FixedPt list \<Rightarrow> FixedPt" where
  "ewma_window alpha [] = FixedPt_ctor"
| "ewma_window alpha [x] = x"
| "ewma_window alpha (x # xs) = fp_plus (fp_times (int_minus 1 alpha) x) (fp_times alpha (ewma_window alpha xs))"

lemma calculate_sum_rep:
  "rep ca c xs \<Longrightarrow> xs \<noteq> [] \<Longrightarrow> calculate_sum_recursive ca = Inr (sum_window xs)"
proof (induction xs arbitrary: ca rule: sum_window.induct)
  case (2 x)
  then show ?case
    by (auto elim: rep_pop_front simp: calculate_sum_recursive.simps [of ca] rep_occupancy)
next
  case (3 x y ys)
  then obtain ca' where "pop_front ca = Inr (x, ca')" "rep ca' c (y # ys)"
    by (auto elim: rep_pop_front)
  with 3 show ?case
    by (simp add: calculate_sum_recursive.simps [of ca] rep_occupancy)
qed simp

lemma calculate_ewma_rep:
  "rep ca c xs \<Longrightarrow> xs \<noteq> [] \<Longrightarrow> calculate_ewma_recursive ca alpha = Inr (ewma_window alpha xs)"
proof (induction alpha xs arbitrary: ca rule: ewma_window.induct)
  case (2 alpha x)
  then show ?case
    by (auto elim: rep_pop_front simp: calculate_ewma_recursive.simps [of ca] rep_occupancy)
next
  case (3 alpha x y ys)
  then obtain ca' where "pop_front ca = Inr (x, ca')" "rep ca' c (y # ys)"
    by (auto elim: rep_pop_front)
  with 3 show ?case
    by (simp add: calculate_ewma_recursive.simps [of ca] rep_occupancy Let_def)
qed simp

lemma sum_window_raw: "2 \<le> length xs \<Longrightarrow> sum_window xs = fromC (sum_list (map fp_value xs))"
proof -
  have "fp_value (sum_window xs) = sum_list (map fp_value xs)"
    by (induction xs rule: sum_window.induct) simp_all
  moreover have "2 \<le> length xs \<Longrightarrow> fp_valid (sum_window xs)"
    by (cases xs rule: sum_window.cases) simp_all
  ultimately show "2 \<le> length xs \<Longrightarrow> sum_window xs = fromC (sum_list (map fp_value xs))"
    using fromC_cong [of "sum_window xs"] by simp
qed

definition keeps_window :: "nat \<Rightarrow> VectorCache \<Rightarrow> (nat \<Rightarrow> FixedPt list) \<Rightarrow> bool" where
  "keeps_window c cache X \<longleftrightarrow>
     sized 3 cache \<and> cs_value (cache ! 1) = fromC (sum_list (map fp_value (X 0))) \<and>
     rep (cs_ring_buffer (cache ! 2)) c (X 0)"

definition sum_local_ok :: "VectorCache \<Rightarrow> bool" where
  "sum_local_ok loc \<longleftrightarrow> sized 3 loc \<and> ca_inv (cs_ring_buffer (loc ! 2))"

lemma Sum_shift_rep:
  assumes "rep rb c xs" and "0 < c"
  obtains rb' where "Sum_shift rb (fromC (sum_list (map fp_value xs))) v =
      Inr (fromC (sum_list (map fp_value (take c (v # xs)))), rb')"
    and "rep rb' c (take c (v # xs))"
proof (cases "length xs = c")
  case True
  then have ne: "xs \<noteq> []" using assms(2) by auto
  then have r: "rep rb c (butlast xs @ [last xs])" using assms(1) by simp
  then obtain rb1 where rb1: "pop_back rb = Inr (last xs, rb1)" "rep rb1 c (butlast xs)"
    by (rule rep_pop_back)
  have lt: "length (butlast xs) < c" using True assms(2) by simp
  obtain rb2 rb3 where rb2: "push_front rb1 v False = Inr (SUCCESS, rb2)" "rep rb2 c (v # butlast xs)"
    "push_back rb1 v False = Inr (SUCCESS, rb3)" "rep rb3 c (butlast xs @ [v])"
    by (rule rep_push_room [OF rb1(2) lt])
  have "sum_list (map fp_value xs) = sum_list (map fp_value (butlast xs)) + fp_value (last xs)"
    using arg_cong [OF append_butlast_last_id [OF ne], of "\<lambda>ys. sum_list (map fp_value ys)"] by simp
  with True assms rb1(1) rb2(1,2) show thesis
    by (intro that [of rb2])
      (simp_all add: Sum_shift_def rep_is_full take_Cons_full fp_plus_def fp_minus_def
        fixedpt_add_def fixedpt_sub_def algebra_simps)
next
  case False
  then have lt: "length xs < c" using rep_length [OF assms(1)] by simp
  obtain rb2 rb3 where rb2: "push_front rb v False = Inr (SUCCESS, rb2)" "rep rb2 c (v # xs)"
    "push_back rb v False = Inr (SUCCESS, rb3)" "rep rb3 c (xs @ [v])"
    by (rule rep_push_room [OF assms(1) lt])
  with False lt assms(1) show thesis
    by (intro that [of rb2])
      (simp_all add: Sum_shift_def rep_is_full take_Cons_length_le fp_plus_def fixedpt_add_def algebra_simps)
qed

lemma Sum_naive_rep:
  assumes "holds b c X" and "num_ports b = 1" and "X 0 \<noteq> []"
  shows "process_naive Sum_ops b = Inr (sum_window (X 0))"
proof -
  obtain ca where ca: "buffers_at b 0 = Inr ca" "rep ca c (X 0)"
    using holds_at [OF assms(1), of 0] assms(2) by auto
  from ca(2) obtain l where "CircArray_copy FixedPt_ctor ca = Inr l" "rep l c (X 0)"
    by (rule copy_rep)
  with ca assms(3) show ?thesis
    by (simp add: Sum_ops_def Sum_process_naive_def calculate_sum_rep)
qed

lemma Sum_ext_rep:
  assumes "holds b c X" and "num_ports b = 1" and "2 \<le> length (X 0)" and "sum_local_ok loc"
  shows "\<exists>loc'. process_ext Sum_ops loc b = Inr loc' \<and> first_value loc' = Inr (sum_window (X 0)) \<and>
    keeps_window c loc' X \<and> sum_local_ok loc'"
proof -
  have ne: "X 0 \<noteq> []" using assms(3) by auto
  obtain ca where ca: "buffers_at b 0 = Inr ca" "rep ca c (X 0)"
    using holds_at [OF assms(1), of 0] assms(2) by auto
  obtain x y z where loc: "loc = [x, y, z]" and inv: "ca_inv (cs_ring_buffer z)"
    using assms(4) by (auto simp: sum_local_ok_def sized_simps)
  obtain rb where rb: "ca_assign FixedPt_ctor (cs_ring_buffer z) ca = Inr rb" "rep rb c (X 0)"
    using ca(2) inv by (rule assign_rep)
  have nv: "Sum_process_naive b = Inr (sum_window (X 0))"
    using Sum_naive_rep [OF assms(1,2) ne] by (simp add: Sum_ops_def)
  show ?thesis
    using loc ca(1) rb nv assms(3) rep_inv [OF rb(2)]
    by (simp add: Sum_ops_def Sum_process_ext_def keeps_window_def sum_local_ok_def sized_simps
        sum_window_raw numeral_2_eq_2)
qed

lemma Sum_opt_rep:
  assumes "keeps_window c cache X" and "2 \<le> c" and "X 0 \<noteq> []" and "sum_local_ok loc"
    and "w 0 = v"
  shows "\<exists>loc'. process_opt_ext Sum_ops loc [v] cache = Inr loc' \<and>
    first_value loc' = Inr (sum_window (take c (v # X 0))) \<and>
    keeps_window c loc' (\<lambda>p. take c (w p # X p)) \<and> sum_local_ok loc'"
proof -
  obtain x y z where loc: "loc = [x, y, z]" and inv: "ca_inv (cs_ring_buffer z)"
    using assms(4) by (auto simp: sum_local_ok_def sized_simps)
  obtain x' y' z' where cache: "cache = [x', y', z']" and r: "rep (cs_ring_buffer z') c (X 0)"
    and y': "cs_value y' = fromC (sum_list (map fp_value (X 0)))"
    using assms(1) by (auto simp: keeps_window_def sized_simps)
  obtain rb where rb: "ca_assign FixedPt_ctor (cs_ring_buffer z) (cs_ring_buffer z') = Inr rb" "rep rb c (X 0)"
    using r inv by (rule assign_rep)
  have c: "0 < c" using assms(2) by simp
  obtain rb' where rb': "Sum_shift rb (fromC (sum_list (map fp_value (X 0)))) v =
      Inr (fromC (sum_list (map fp_value (take c (v # X 0)))), rb')" "rep rb' c (take c (v # X 0))"
    by (rule Sum_shift_rep [OF rb(2) c])
  have two: "2 \<le> length (take c (v # X 0))"
    using assms(2,3) by (simp add: Suc_le_eq)
  show ?thesis
    using loc cache rb rb' y' assms(5) sum_window_raw [OF two] rep_inv [OF rb'(2)]
    by (simp add: Sum_ops_def Sum_process_opt_ext_def keeps_window_def sum_local_ok_def sized_simps
        numeral_2_eq_2)
qed

interpretation summ: incremental_indicator Sum_ops 1 "\<lambda>X. sum_window (X 0)" keeps_window sum_local_ok "\<lambda>_ _. True"
proof unfold_locales
  fix b c X assume "holds b c X" "num_ports b = 1" "\<forall>p < 1. X p \<noteq> []"
  then show "\<exists>iv. initialize_element Sum_ops b = Inr iv"
    using peek_newest(1) [of b c X 1] by (simp add: Sum_ops_def Sum_initialize_element_def)
next
  fix b c X assume "holds b c X" "num_ports b = 1" "\<forall>p < 1. 2 \<le> length (X p)"
  then show "process_naive Sum_ops b = Inr (sum_window (X 0))"
    by (intro Sum_naive_rep) auto
next
  fix b c X loc assume "holds b c X" "num_ports b = 1" "\<forall>p < 1. 2 \<le> length (X p)" "sum_local_ok loc"
  then show "\<exists>loc'. process_ext Sum_ops loc b = Inr loc' \<and> first_value loc' = Inr (sum_window (X 0)) \<and>
      keeps_window c loc' X \<and> sum_local_ok loc'"
    by (intro Sum_ext_rep) auto
next
  fix c cache X loc v assume "keeps_window c cache X" "2 \<le> c" "\<forall>p < 1. X p \<noteq> [] \<and> length (X p) \<le> c"
    "sum_local_ok loc"
  then show "\<exists>loc'. process_opt_ext Sum_ops loc (map v [0..<1]) cache = Inr loc' \<and>
      first_value loc' = Inr (sum_window (take c (v 0 # X 0))) \<and>
      keeps_window c loc' (\<lambda>p. take c (v p # X p)) \<and> sum_local_ok loc'"
    unfolding upt_ports by (intro Sum_opt_rep) auto
qed simp

definition keeps_average :: "FixedPt \<Rightarrow> nat \<Rightarrow> VectorCache \<Rightarrow> (nat \<Rightarrow> FixedPt list) \<Rightarrow> bool" where
  "keeps_average alpha c cache X \<longleftrightarrow> sized 2 cache \<and> cs_value (cache ! 1) = ewma_window alpha (X 0)"

lemma Ewma_naive_rep:
  assumes "holds b c X" and "num_ports b = 1" and "X 0 \<noteq> []"
  shows "Ewma_process_naive alpha b = Inr (ewma_window alpha (X 0))"
proof -
  obtain ca where ca: "buffers_at b 0 = Inr ca" "rep ca c (X 0)"
    using holds_at [OF assms(1), of 0] assms(2) by auto
  from ca(2) obtain l where "CircArray_copy FixedPt_ctor ca = Inr l" "rep l c (X 0)"
    by (rule copy_rep)
  with ca assms(3) show ?thesis
    by (simp add: Ewma_process_naive_def calculate_ewma_rep)
qed

interpretation ewma: incremental_indicator "Ewma_ops alpha" 1 "\<lambda>X. ewma_window alpha (X 0)"
  "keeps_average alpha" "sized 2" "\<lambda>c X. length (X 0) \<le> c" for alpha
proof unfold_locales
  fix b c X assume "holds b c X" "num_ports b = 1" "\<forall>p < 1. X p \<noteq> []"
  then show "\<exists>iv. initialize_element (Ewma_ops alpha) b = Inr iv"
    using peek_newest(1) [of b c X 1] by (simp add: Ewma_ops_def Ewma_initialize_element_def)
next
  fix b c X assume "holds b c X" "num_ports b = 1" "\<forall>p < 1. 2 \<le> length (X p)"
  then have nv: "Ewma_process_naive alpha b = Inr (ewma_window alpha (X 0))"
    by (intro Ewma_naive_rep) auto
  then show "process_naive (Ewma_ops alpha) b = Inr (ewma_window alpha (X 0))"
    by (simp add: Ewma_ops_def)
  fix loc assume "sized 2 loc"
  with nv show "\<exists>loc'. process_ext (Ewma_ops alpha) loc b = Inr loc' \<and>
      first_value loc' = Inr (ewma_window alpha (X 0)) \<and> keeps_average alpha c loc' X \<and> sized 2 loc'"
    by (auto simp: Ewma_ops_def Ewma_process_ext_def keeps_average_def sized_simps)
next
  fix c cache loc and v :: "nat \<Rightarrow> FixedPt" and X :: "nat \<Rightarrow> FixedPt list"
  assume "keeps_average alpha c cache X" "\<forall>p < 1. X p \<noteq> [] \<and> length (X p) \<le> c" "sized 2 loc"
    "length (v 0 # X 0) \<le> c"
  then show "\<exists>loc'. process_opt_ext (Ewma_ops alpha) loc (map v [0..<1]) cache = Inr loc' \<and>
      first_value loc' = Inr (ewma_window alpha (take c (v 0 # X 0))) \<and>
      keeps_average alpha c loc' (\<lambda>p. take c (v p # X p)) \<and> sized 2 loc'"
    by (cases "X 0") (auto simp: Ewma_ops_def Ewma_process_opt_ext_def keeps_average_def sized_simps upt_ports
        take_Cons_length_le Let_def)
qed simp

section \<open>The two ways of computing an indicator agree\<close>

text \<open>
  The packets an element configured with OP_MODE \<open>mode\<close> and BUF_SIZE \<open>c\<close> sends and kills, fed the
  messages of a sequence of rounds.
\<close>

definition sends :: "indicator_ops \<Rightarrow> VectorCache \<Rightarrow> nat \<Rightarrow> nat \<Rightarrow> nat \<Rightarrow> byte list \<Rightarrow> int \<Rightarrow> round list \<Rightarrow>
    action list res" where
  "sends ops local nout n c rest mode rs =
     map_sum id fst (run_ops (ib_push ops) (configured local nout n c mode) (concat (map (round_msgs rest) rs)))"

lemma both_modes:
  assumes "\<exists>acts. \<forall>mode. sends ops local nout n c rest mode rs = Inr (acts @ e)"
  shows "sends ops local nout n c rest 2 rs = sends ops local nout n c rest 1 rs \<and>
    (\<exists>acts. sends ops local nout n c rest 1 rs = Inr (acts @ e))"
  using assms by auto

lemma along_True: "along (\<lambda>_. True) c X rs"
  by (induction "\<lambda>_ :: nat \<Rightarrow> FixedPt list. True" c X rs rule: along.induct) simp_all

lemma along_length:
  "length (X 0) + length (added (butlast rs) 0) + 1 \<le> c \<Longrightarrow> along (\<lambda>X. length (X 0) \<le> c) c X rs"
proof (induction rs arbitrary: X)
  case (Cons r rs)
  obtain temp ts arr where "r = (temp, ts, arr)" by (cases r)
  with Cons.IH [of X] Cons.IH [of "in_front c arr X"] Cons.prems show ?case
    by (cases temp; cases "rs = []") (auto simp: in_front_def)
qed simp

lemma sized_ctors:
  "sized 1 Pdi_ctor" "sized 1 Ndi_ctor" "sized 1 Dx_ctor" "sized 1 Viu_ctor" "sized 1 Vid_ctor"
  "sized 3 Pdm_ctor" "sized 3 Ndm_ctor" "sized 2 NewTrueRange_ctor" "sized 2 Vmu_ctor" "sized 2 Vmd_ctor"
  "sized 2 Ewma_ctor" "sized 2 Trix_ctor" "sum_local_ok Sum_ctor"
  by (simp_all add: sized_def sum_local_ok_def Pdi_ctor_def Ndi_ctor_def Dx_ctor_def Viu_ctor_def Vid_ctor_def
      Pdm_ctor_def Ndm_ctor_def NewTrueRange_ctor_def Vmu_ctor_def Vmd_ctor_def Ewma_ctor_def Trix_ctor_def
      Sum_ctor_def CacheStruct_ctor_def CircArray_default_def set_initial_values_def ca_inv_def)

text \<open>
  Property C8. The incremental sum is the sum. An element \<open>Sum\<close> in the naive mode, which adds up the
  whole buffer for every result, and one in the startup/normal mode, which subtracts the value that
  leaves the window and adds the new one, kill and send exactly the same packets for the same
  rounds of additions and updates, and what they send after the first round is the wrapped sum
  of the window the round gives.
\<close>

theorem sum_modes_agree:
  assumes "2 \<le> c" and "rounds_ok 1 0 ((temp, ts, arr) # rs)"
  shows "sends Sum_ops Sum_ctor nout 1 c rest 2 ((temp, ts, arr) # rs) =
      sends Sum_ops Sum_ctor nout 1 c rest 1 ((temp, ts, arr) # rs) \<and>
    (\<exists>acts. sends Sum_ops Sum_ctor nout 1 c rest 1 ((temp, ts, arr) # rs) =
      Inr (acts @ expected (\<lambda>X. sum_window (X 0)) c rest nout (in_front c arr (\<lambda>_. [])) rs))"
  by (intro both_modes summ.modes_agree [OF assms sized_ctors(13) along_True, folded sends_def])

theorem sum_modes_agree_witness:
  "sends Sum_ops Sum_ctor 1 1 2 [] 2 [(False, 1, [(0, fromInt 5)]), (False, 2, [(0, fromInt 7)]), (True, 3, [(0, fromInt 9)])] =
   sends Sum_ops Sum_ctor 1 1 2 [] 1 [(False, 1, [(0, fromInt 5)]), (False, 2, [(0, fromInt 7)]), (True, 3, [(0, fromInt 9)])]"
  using sum_modes_agree [of 2 False 1 "[(0, fromInt 5)]"
      "[(False, 2, [(0, fromInt 7)]), (True, 3, [(0, fromInt 9)])]" 1 "[]"]
  by (auto simp: all_ports_def)

text \<open>
  Property C9. The incremental moving average is the recursive one as long as the buffer has not
  overflowed: while the value of the first round, the values added since and the value of the round itself are
  together at most BUF_SIZE values in every round, the naive mode and the startup/normal mode of
  \<open>EwmaIncremental\<close> send the same packets, whatever the smoothing factor, and what they send after the
  first round is the recursive average of these values. It is enough that the last round fits.
\<close>

theorem ewma_modes_agree:
  assumes "2 \<le> c" and "rounds_ok 1 0 ((temp, ts, arr) # rs)" and "length (added (butlast rs) 0) + 2 \<le> c"
  shows "sends (Ewma_ops alpha) Ewma_ctor nout 1 c rest 2 ((temp, ts, arr) # rs) =
      sends (Ewma_ops alpha) Ewma_ctor nout 1 c rest 1 ((temp, ts, arr) # rs) \<and>
    (\<exists>acts. sends (Ewma_ops alpha) Ewma_ctor nout 1 c rest 1 ((temp, ts, arr) # rs) =
      Inr (acts @ expected (\<lambda>X. ewma_window alpha (X 0)) c rest nout (in_front c arr (\<lambda>_. [])) rs))"
proof -
  have "along (\<lambda>X. length (X 0) \<le> c) c (in_front c arr (\<lambda>_. [])) rs"
    using assms(1,3) by (intro along_length) (simp add: in_front_def)
  then show ?thesis
    by (intro both_modes ewma.modes_agree [OF assms(1,2) sized_ctors(11), folded sends_def])
qed

theorem ewma_modes_agree_witness:
  "sends (Ewma_ops (fromC 99)) Ewma_ctor 1 1 3 [] 2 [(False, 1, [(0, fromInt 5)]), (False, 2, [(0, fromInt 7)]), (False, 3, [(0, fromInt 9)])] =
   sends (Ewma_ops (fromC 99)) Ewma_ctor 1 1 3 [] 1 [(False, 1, [(0, fromInt 5)]), (False, 2, [(0, fromInt 7)]), (False, 3, [(0, fromInt 9)])]"
  using ewma_modes_agree [of 3 False 1 "[(0, fromInt 5)]"
      "[(False, 2, [(0, fromInt 7)]), (False, 3, [(0, fromInt 9)])]" "fromC 99" 1 "[]"]
  by (auto simp: all_ports_def)

end
