(* ===== verification/Indicator_Results.thy ===== *)
theory Indicator_Results
  imports Indicator_Elements
begin

text \<open>
  What the indicator elements compute: the agreement of their two modes, element by element, and
  the meaning of their formulas on fixed-point values, the places where the two modes differ
  included.
\<close>

section \<open>Agreement of the modes\<close>

text \<open>
  Property C13. The directional movement elements \<open>Pdm\<close> and \<open>Ndm\<close> send in the startup/normal mode, from
  two cached values, exactly what they send in the naive mode from their buffers: the movement
  between the last two rounds the buffers hold.
\<close>

theorem movement_modes_agree:
  assumes "2 \<le> c" and "rounds_ok 2 0 ((temp, ts, arr) # rs)"
  shows "sends Pdm_ops Pdm_ctor nout 2 c rest 2 ((temp, ts, arr) # rs) =
      sends Pdm_ops Pdm_ctor nout 2 c rest 1 ((temp, ts, arr) # rs) \<and>
    sends Ndm_ops Ndm_ctor nout 2 c rest 2 ((temp, ts, arr) # rs) =
      sends Ndm_ops Ndm_ctor nout 2 c rest 1 ((temp, ts, arr) # rs) \<and>
    (\<exists>acts. sends Pdm_ops Pdm_ctor nout 2 c rest 1 ((temp, ts, arr) # rs) =
      Inr (acts @ expected (\<lambda>X. calculate_pdm (X 1 ! 0) (X 1 ! Suc 0) (X 0 ! 0) (X 0 ! Suc 0)) c rest nout
        (in_front c arr (\<lambda>_. [])) rs)) \<and>
    (\<exists>acts. sends Ndm_ops Ndm_ctor nout 2 c rest 1 ((temp, ts, arr) # rs) =
      Inr (acts @ expected (\<lambda>X. calculate_ndm (X 1 ! 0) (X 1 ! Suc 0) (X 0 ! 0) (X 0 ! Suc 0)) c rest nout
        (in_front c arr (\<lambda>_. [])) rs))"
  using both_modes [OF pdm.modes_agree [OF assms sized_ctors(6) along_True, folded sends_def]]
    both_modes [OF ndm.modes_agree [OF assms sized_ctors(7) along_True, folded sends_def]]
  by simp

theorem movement_modes_agree_witness:
  "sends Pdm_ops Pdm_ctor 1 2 2 [] 2 [(False, 1, [(0, fromInt 5), (1, fromInt 4)]), (True, 2, [(1, fromInt 3), (0, fromInt 6)])] =
   sends Pdm_ops Pdm_ctor 1 2 2 [] 1 [(False, 1, [(0, fromInt 5), (1, fromInt 4)]), (True, 2, [(1, fromInt 3), (0, fromInt 6)])]"
  by (rule movement_modes_agree [THEN conjunct1]) (auto simp: all_ports_def numeral_2_eq_2 numeral_3_eq_3 lessThan_Suc)

text \<open>
  Property C14. \<open>NewTrueRange\<close>, fed high, low and close on its three ports, sends the same packets in
  both modes: the true range of the newest high and low with the previous close.
\<close>

theorem true_range_modes_agree:
  assumes "2 \<le> c" and "rounds_ok 3 0 ((temp, ts, arr) # rs)"
  shows "sends NewTrueRange_ops NewTrueRange_ctor nout 3 c rest 2 ((temp, ts, arr) # rs) =
      sends NewTrueRange_ops NewTrueRange_ctor nout 3 c rest 1 ((temp, ts, arr) # rs) \<and>
    (\<exists>acts. sends NewTrueRange_ops NewTrueRange_ctor nout 3 c rest 1 ((temp, ts, arr) # rs) =
      Inr (acts @ expected (\<lambda>X. calculate_tr (X 1 ! 0) (X 0 ! 0) (X 2 ! Suc 0)) c rest nout
        (in_front c arr (\<lambda>_. [])) rs))"
  by (intro both_modes new_tr.modes_agree [OF assms sized_ctors(8) along_True, folded sends_def])

theorem true_range_modes_agree_witness:
  "sends NewTrueRange_ops NewTrueRange_ctor 1 3 2 [] 2
     [(False, 1, [(0, fromInt 5), (1, fromInt 4), (2, fromInt 4)]), (False, 2, [(1, fromInt 3), (2, fromInt 6), (0, fromInt 6)])] =
   sends NewTrueRange_ops NewTrueRange_ctor 1 3 2 [] 1
     [(False, 1, [(0, fromInt 5), (1, fromInt 4), (2, fromInt 4)]), (False, 2, [(1, fromInt 3), (2, fromInt 6), (0, fromInt 6)])]"
  by (rule true_range_modes_agree [THEN conjunct1]) (auto simp: all_ports_def numeral_2_eq_2 numeral_3_eq_3 lessThan_Suc)

text \<open>
  Property C15. The vortex movements \<open>Vmu\<close> and \<open>Vmd\<close> send the same packets in both modes: the distance
  of the newest high from the previous low, and of the newest low from the previous high.
\<close>

theorem vortex_modes_agree:
  assumes "2 \<le> c" and "rounds_ok 2 0 ((temp, ts, arr) # rs)"
  shows "sends Vmu_ops Vmu_ctor nout 2 c rest 2 ((temp, ts, arr) # rs) =
      sends Vmu_ops Vmu_ctor nout 2 c rest 1 ((temp, ts, arr) # rs) \<and>
    sends Vmd_ops Vmd_ctor nout 2 c rest 2 ((temp, ts, arr) # rs) =
      sends Vmd_ops Vmd_ctor nout 2 c rest 1 ((temp, ts, arr) # rs) \<and>
    (\<exists>acts. sends Vmu_ops Vmu_ctor nout 2 c rest 1 ((temp, ts, arr) # rs) =
      Inr (acts @ expected (\<lambda>X. fpt_abs (fp_minus (X 0 ! 0) (X 1 ! Suc 0))) c rest nout
        (in_front c arr (\<lambda>_. [])) rs)) \<and>
    (\<exists>acts. sends Vmd_ops Vmd_ctor nout 2 c rest 1 ((temp, ts, arr) # rs) =
      Inr (acts @ expected (\<lambda>X. fpt_abs (fp_minus (X 1 ! 0) (X 0 ! Suc 0))) c rest nout
        (in_front c arr (\<lambda>_. [])) rs))"
  using both_modes [OF vmu.modes_agree [OF assms sized_ctors(9) along_True, folded sends_def]]
    both_modes [OF vmd.modes_agree [OF assms sized_ctors(10) along_True, folded sends_def]]
  by simp

theorem vortex_modes_agree_witness:
  "sends Vmu_ops Vmu_ctor 1 2 2 [] 2 [(False, 1, [(0, fromInt 5), (1, fromInt 4)]), (True, 2, [(1, fromInt 3), (0, fromInt 6)])] =
   sends Vmu_ops Vmu_ctor 1 2 2 [] 1 [(False, 1, [(0, fromInt 5), (1, fromInt 4)]), (True, 2, [(1, fromInt 3), (0, fromInt 6)])]"
  by (rule vortex_modes_agree [THEN conjunct1]) (auto simp: all_ports_def numeral_2_eq_2 numeral_3_eq_3 lessThan_Suc)

text \<open>
  The ratio elements \<open>Pdi\<close>, \<open>Ndi\<close>, \<open>Viu\<close>, \<open>Vid\<close> and the directional index \<open>Dx\<close> send the
  same packets in both modes, and never divide by zero: a zero divisor gives a zero result.
\<close>

theorem ratio_modes_agree:
  assumes "2 \<le> c" and "rounds_ok 2 0 ((temp, ts, arr) # rs)"
    and "(ops, local, h) \<in> {(Pdi_ops, Pdi_ctor, safe_ratio), (Ndi_ops, Ndi_ctor, safe_ratio),
      (Viu_ops, Viu_ctor, safe_ratio), (Vid_ops, Vid_ctor, safe_ratio), (Dx_ops, Dx_ctor, dx_value)}"
  shows "sends ops local nout 2 c rest 2 ((temp, ts, arr) # rs) =
      sends ops local nout 2 c rest 1 ((temp, ts, arr) # rs) \<and>
    (\<exists>acts. sends ops local nout 2 c rest 1 ((temp, ts, arr) # rs) =
      Inr (acts @ expected (\<lambda>X. h (X 0 ! 0) (X (Suc 0) ! 0)) c rest nout (in_front c arr (\<lambda>_. [])) rs))"
proof (rule both_modes)
  note agree = pdi.modes_agree [OF assms(1,2) sized_ctors(1) along_True, folded sends_def]
    ndi.modes_agree [OF assms(1,2) sized_ctors(2) along_True, folded sends_def]
    dx.modes_agree [OF assms(1,2) sized_ctors(3) along_True, folded sends_def]
    viu.modes_agree [OF assms(1,2) sized_ctors(4) along_True, folded sends_def]
    vid.modes_agree [OF assms(1,2) sized_ctors(5) along_True, folded sends_def]
  have "ops = Pdi_ops \<and> local = Pdi_ctor \<and> h = safe_ratio \<or> ops = Ndi_ops \<and> local = Ndi_ctor \<and> h = safe_ratio \<or>
      ops = Viu_ops \<and> local = Viu_ctor \<and> h = safe_ratio \<or> ops = Vid_ops \<and> local = Vid_ctor \<and> h = safe_ratio \<or>
      ops = Dx_ops \<and> local = Dx_ctor \<and> h = dx_value"
    using assms(3) by simp
  then show "\<exists>acts. \<forall>mode. sends ops local nout 2 c rest mode ((temp, ts, arr) # rs) =
      Inr (acts @ expected (\<lambda>X. h (X 0 ! 0) (X (Suc 0) ! 0)) c rest nout (in_front c arr (\<lambda>_. [])) rs)"
    by (elim disjE conjE; hypsubst; intro agree)
qed

theorem ratio_modes_agree_witness:
  "sends Dx_ops Dx_ctor 1 2 2 [] 2 [(False, 1, [(0, fromInt 5), (1, fromInt 4)]), (True, 2, [(1, fromInt 3), (0, fromInt 6)])] =
   sends Dx_ops Dx_ctor 1 2 2 [] 1 [(False, 1, [(0, fromInt 5), (1, fromInt 4)]), (True, 2, [(1, fromInt 3), (0, fromInt 6)])]"
  by (rule ratio_modes_agree [where h = dx_value, THEN conjunct1]) (auto simp: all_ports_def numeral_2_eq_2 numeral_3_eq_3 lessThan_Suc)

section \<open>What the formulas mean\<close>

text \<open>The signed raw value, and values whose differences and sums do not overflow.\<close>

definition raw :: "FixedPt \<Rightarrow> int" where
  "raw x = sint (fp_value x)"

definition small :: "FixedPt \<Rightarrow> bool" where
  "small x \<longleftrightarrow> - (2 ^ 62) \<le> raw x \<and> raw x < 2 ^ 62"

lemma raw_minus: "small x \<Longrightarrow> small y \<Longrightarrow> raw (fp_minus x y) = raw x - raw y"
  unfolding raw_def small_def fp_value_simps
  by (subst word_from_sint [OF refl, of "fp_value x"], subst word_from_sint [OF refl, of "fp_value y"])
    (simp only: wi_hom_sub, intro sint_word_of_int_id; simp)

lemma raw_plus: "small x \<Longrightarrow> small y \<Longrightarrow> raw (fp_plus x y) = raw x + raw y"
  unfolding raw_def small_def fp_value_simps
  by (subst word_from_sint [OF refl, of "fp_value x"], subst word_from_sint [OF refl, of "fp_value y"])
    (simp only: wi_hom_add, intro sint_word_of_int_id; simp)

lemma raw_fromInt_zero [simp]: "raw (fromInt 0) = 0"
  by (simp add: raw_def fixedpt_fromint_int)

lemma fp_lt_raw: "fp_lt x y \<longleftrightarrow> raw x < raw y"
  by (simp add: fp_lt_def getC_def raw_def word_sless_alt)

lemma fp_gt_raw: "fp_gt x y \<longleftrightarrow> raw y < raw x"
  by (simp add: fp_gt_def getC_def raw_def word_sless_alt)

lemma fpt_max_raw: "raw (fpt_max x y) = max (raw x) (raw y)"
  by (simp add: fpt_max_def fp_gt_raw)

text \<open>
  The true range is Wilder's: for a low not above the high and differences that do not
  overflow, \<open>calculate_tr\<close> is the distance from the larger of the high and the previous close to the
  smaller of the low and the previous close; in particular it is never negative.
\<close>

theorem true_range_spans:
  assumes "small low" and "small high" and "small close" and "raw low \<le> raw high"
  shows "raw (calculate_tr low high close) = max (raw high) (raw close) - min (raw low) (raw close)"
  using assms by (auto simp: calculate_tr_def fpt_max_raw raw_minus max_def min_def)

theorem true_range_spans_witness:
  "raw (calculate_tr (fromC 10) (fromC 20) (fromC 5)) = max 20 5 - min 10 5"
  using true_range_spans [of "fromC 10" "fromC 20" "fromC 5"] by (simp add: small_def raw_def)

text \<open>
  The directional movements: the plus movement is the rise of the high when it is at
  least the fall of the low and not negative, else zero; the minus movement is the fall of the low
  when it is at least the rise of the high and not negative, else zero. Both are positive exactly
  when the rise and the fall are equal and positive.
\<close>

theorem directional_movements:
  assumes "small nl" and "small pl" and "small nh" and "small ph"
  shows "raw (calculate_pdm nl pl nh ph) =
      (if raw pl - raw nl \<le> raw nh - raw ph then max 0 (raw nh - raw ph) else 0) \<and>
    raw (calculate_ndm nl pl nh ph) =
      (if raw nh - raw ph \<le> raw pl - raw nl then max 0 (raw pl - raw nl) else 0) \<and>
    (0 < raw (calculate_pdm nl pl nh ph) \<and> 0 < raw (calculate_ndm nl pl nh ph) \<longleftrightarrow>
      raw nh - raw ph = raw pl - raw nl \<and> raw nh > raw ph)"
  using assms by (auto simp: calculate_pdm_def calculate_ndm_def fp_lt_raw raw_minus)

theorem directional_movements_witness:
  "raw (calculate_pdm (fromC 7) (fromC 8) (fromC 20) (fromC 15)) = 5 \<and>
   raw (calculate_ndm (fromC 7) (fromC 8) (fromC 20) (fromC 15)) = 0"
  using directional_movements [of "fromC 7" "fromC 8" "fromC 20" "fromC 15"]
  by (simp add: small_def raw_def)

lemma raw_zero: "raw x = 0 \<longleftrightarrow> fp_value x = 0"
  by (simp add: raw_def signed_eq_0_iff)

lemma raw_fpt_abs: "small x \<Longrightarrow> raw (fpt_abs x) = \<bar>raw x\<bar>"
proof -
  assume "small x"
  moreover have "raw (fromC (- fp_value x)) = - raw x" if "small x"
    using that unfolding raw_def small_def fp_value_simps
    by (subst word_from_sint [OF refl, of "fp_value x"])
      (simp only: wi_hom_neg, intro sint_word_of_int_id; simp)
  ultimately show ?thesis
    by (auto simp: fpt_abs_def getC_def raw_def word_sless_alt)
qed

lemma raw_int_times:
  assumes "- (2 ^ 23) \<le> n" and "n < 2 ^ 23" and "- (2 ^ 63) \<le> n * raw x" and "n * raw x < 2 ^ 63"
  shows "raw (int_times n x) = n * raw x"
proof -
  have "fp_value (int_times n x) = word_of_int (n * raw x)"
    using assms(1,2) by (simp add: int_times_def fixedpt_mul_fromint raw_def)
  then have "raw (int_times n x) = sint (word_of_int (n * raw x) :: fixedpt)"
    by (simp only: raw_def [of "int_times n x"])
  also have "\<dots> = n * raw x"
    using assms(3,4) by (intro sint_word_of_int_id) simp_all
  finally show ?thesis .
qed

lemma raw_divide:
  assumes "raw y \<noteq> 0" and "- (2 ^ 63) \<le> (raw x * 2 ^ 40) sdiv raw y" and "(raw x * 2 ^ 40) sdiv raw y < 2 ^ 63"
  obtains q where "fp_divide x y = Inr q" and "raw q = (raw x * 2 ^ 40) sdiv raw y"
proof -
  have "fp_value y \<noteq> 0" using assms(1) by (simp add: raw_zero)
  then show thesis
    using assms(2,3) by (intro that [of "fromC (word_of_int ((raw x * 2 ^ 40) sdiv raw y))"])
      (simp_all add: fp_divide_def fixedpt_div_int raw_def sint_word_of_int_id)
qed

lemma sdiv_nonneg: "0 \<le> a \<Longrightarrow> 0 < b \<Longrightarrow> a sdiv b = a div (b :: int)"
  by (auto simp: signed_divide_int_def sgn_if)

lemma dx_value_percent:
  assumes "0 \<le> raw pdi" and "raw pdi < 2 ^ 56" and "0 \<le> raw ndi" and "raw ndi < 2 ^ 56"
  shows "raw (dx_value pdi ndi) =
      (if raw pdi + raw ndi = 0 then 0 else 100 * \<bar>raw pdi - raw ndi\<bar> * 2 ^ 40 div (raw pdi + raw ndi)) \<and>
    0 \<le> raw (dx_value pdi ndi) \<and> raw (dx_value pdi ndi) \<le> 100 * 2 ^ 40"
proof -
  let ?s = "raw pdi + raw ndi" and ?d = "\<bar>raw pdi - raw ndi\<bar>"
  have sm: "small pdi" "small ndi" using assms by (simp_all add: small_def)
  have s: "raw (fp_plus pdi ndi) = ?s" and df: "raw (fp_minus pdi ndi) = raw pdi - raw ndi"
    using sm by (simp_all add: raw_plus raw_minus)
  have "small (fp_minus pdi ndi)" using assms df by (simp add: small_def)
  then have ab: "raw (fpt_abs (fp_minus pdi ndi)) = ?d"
    by (simp add: raw_fpt_abs df)
  have d: "0 \<le> ?d" "?d < 72057594037927936" "?d \<le> ?s" using assms by simp_all
  have bd: "- (2 ^ 63) \<le> 100 * ?d" "100 * ?d < 2 ^ 63"
    by (rule order_trans [of _ 0], simp, simp) (use d(2) in simp)
  have num: "raw (int_times 100 (fpt_abs (fp_minus pdi ndi))) = 100 * ?d"
    using raw_int_times [of 100 "fpt_abs (fp_minus pdi ndi)", unfolded ab] bd by simp
  show ?thesis
  proof (cases "?s = 0")
    case True
    then have "fp_value (fp_plus pdi ndi) = 0" using s raw_zero by metis
    with True show ?thesis by (simp add: dx_value_def safe_ratio_def)
  next
    case False
    let ?q = "100 * ?d * 2 ^ 40 div ?s"
    have pos: "0 < ?s" using False assms by linarith
    have le: "?q \<le> 100 * 2 ^ 40"
      using scaled_div_le [of "100 * 2 ^ 40" ?d ?s] d(3) pos by (simp add: mult.assoc mult.commute)
    have ge: "0 \<le> ?q" using pos by (intro pos_imp_zdiv_nonneg_iff [THEN iffD2]) simp_all
    have eq: "(raw (int_times 100 (fpt_abs (fp_minus pdi ndi))) * 2 ^ 40) sdiv raw (fp_plus pdi ndi) = ?q"
      using pos by (simp add: num s sdiv_nonneg)
    have lo: "- (2 ^ 63) \<le> ?q" using ge by (rule order_trans [rotated]) simp
    have hi: "?q < 2 ^ 63" using le by (rule order.strict_trans1) simp
    have ne: "raw (fp_plus pdi ndi) \<noteq> 0" using False s by simp
    obtain q where q: "fp_divide (int_times 100 (fpt_abs (fp_minus pdi ndi))) (fp_plus pdi ndi) = Inr q"
      "raw q = ?q"
      by (rule raw_divide [OF ne, of "int_times 100 (fpt_abs (fp_minus pdi ndi))", unfolded eq, OF lo hi])
    have "fp_value (fp_plus pdi ndi) \<noteq> 0" using False s raw_zero by metis
    with q False le ge show ?thesis by (simp add: dx_value_def safe_ratio_def)
  qed
qed

text \<open>
  The directional index is a percentage: for plus and minus indicators that are not
  negative and below 65536, \<open>Dx\<close> computes the truncated value of a hundred times their absolute
  difference over their sum, which lies between 0 and 100, and zero when both are zero.
\<close>

theorem dx_is_a_percentage:
  assumes "0 \<le> raw pdi" and "raw pdi < 2 ^ 56" and "0 \<le> raw ndi" and "raw ndi < 2 ^ 56"
  shows "raw (dx_value pdi ndi) =
      (if raw pdi + raw ndi = 0 then 0 else 100 * \<bar>raw pdi - raw ndi\<bar> * 2 ^ 40 div (raw pdi + raw ndi)) \<and>
    0 \<le> raw (dx_value pdi ndi) \<and> raw (dx_value pdi ndi) \<le> 100 * 2 ^ 40"
  using assms by (rule dx_value_percent)

theorem dx_is_a_percentage_witness:
  "raw (dx_value (fromC 3) (fromC 1)) = 50 * 2 ^ 40 \<and> 0 \<le> raw (dx_value (fromC 3) (fromC 1)) \<and>
   raw (dx_value (fromC 3) (fromC 1)) \<le> 100 * 2 ^ 40"
  using dx_is_a_percentage [of "fromC 3" "fromC 1"] by (simp add: raw_def)

text \<open>
  The quotient scaled after the division loses less than the scale against the one scaled before.
\<close>

lemma sdiv_scale:
  fixes a p k :: int
  assumes "p \<noteq> 0" and "0 < k"
  shows "\<bar>(k * a) sdiv p - k * (a sdiv p)\<bar> < k"
proof -
  let ?A = "\<bar>a\<bar>" and ?P = "\<bar>p\<bar>"
  have P: "0 < ?P" using assms(1) by simp
  have "k * ?A = k * (?A mod ?P) + k * (?A div ?P) * ?P"
    by (metis add.commute distrib_left div_mult_mod_eq mult.assoc)
  then have "k * ?A div ?P = k * (?A mod ?P) div ?P + k * (?A div ?P)"
    using P by simp
  moreover have "0 \<le> k * (?A mod ?P) div ?P"
    using assms P by (simp add: pos_imp_zdiv_nonneg_iff)
  moreover have "0 \<le> k * (?A mod ?P)" "k * (?A mod ?P) < k * ?P" "0 \<le> k * ?P"
    using assms(2) P by simp_all
  then have "k * (?A mod ?P) div ?P < k"
    using P by (intro div_within) linarith+
  ultimately have "\<bar>k * ?A div ?P - k * (?A div ?P)\<bar> < k"
    by linarith
  moreover have "(k * a) sdiv p - k * (a sdiv p) = sgn a * sgn p * (k * ?A div ?P - k * (?A div ?P))"
    using assms(2) by (simp add: signed_divide_int_def abs_mult sgn_mult right_diff_distrib)
  ultimately show ?thesis
    using assms by (auto simp: abs_mult abs_sgn_eq)
qed

lemma sdiv_scale_abs:
  fixes a p k :: int
  assumes "p \<noteq> 0" and "0 < k"
  shows "\<bar>k * (a sdiv p)\<bar> \<le> \<bar>(k * a) sdiv p\<bar>"
proof -
  have "\<bar>a\<bar> div \<bar>p\<bar> * \<bar>p\<bar> \<le> \<bar>a\<bar>"
    using div_mult_mod_eq [of "\<bar>a\<bar>" "\<bar>p\<bar>"] pos_mod_sign [of "\<bar>p\<bar>" "\<bar>a\<bar>"] assms(1) by linarith
  then have "k * (\<bar>a\<bar> div \<bar>p\<bar>) * \<bar>p\<bar> \<le> k * \<bar>a\<bar>"
    using assms(2) by (simp add: mult.assoc)
  then have "k * (\<bar>a\<bar> div \<bar>p\<bar>) \<le> k * \<bar>a\<bar> div \<bar>p\<bar>"
    using zdiv_mono1 [of "k * (\<bar>a\<bar> div \<bar>p\<bar>) * \<bar>p\<bar>" "k * \<bar>a\<bar>" "\<bar>p\<bar>"] assms(1) by simp
  moreover have "0 \<le> \<bar>a\<bar> div \<bar>p\<bar>" "0 \<le> k * \<bar>a\<bar> div \<bar>p\<bar>"
    using assms by (simp_all add: pos_imp_zdiv_nonneg_iff)
  ultimately show ?thesis
    using assms by (auto simp: signed_divide_int_def abs_mult abs_sgn_eq sgn_mult)
qed

lemma Trix_naive_rep:
  assumes "holds b c X" and "num_ports b = 1" and "2 \<le> length (X 0)"
  shows "process_naive Trix_ops b = fp_divide (int_times 100 (fp_minus (X 0 ! 0) (X 0 ! 1))) (X 0 ! 1)"
proof -
  obtain ca where ca: "buffers_at b 0 = Inr ca" "rep ca c (X 0)"
    using holds_at [OF assms(1), of 0] assms(2) by auto
  obtain x y zs where X: "X 0 = x # y # zs"
    using assms(3) by (cases "X 0" rule: sum_window.cases) auto
  from ca(2) obtain l where l: "CircArray_copy FixedPt_ctor ca = Inr l" "rep l c (x # y # zs)"
    unfolding X by (rule copy_rep)
  from l(2) obtain l1 where l1: "pop_front l = Inr (x, l1)" "rep l1 c (y # zs)"
    by (rule rep_pop_front)
  from l1(2) obtain l2 where "pop_front l1 = Inr (y, l2)"
    by (rule rep_pop_front)
  with ca l l1 X show ?thesis
    by (simp add: Trix_ops_def Trix_process_naive_def)
qed

text \<open>
  The two modes of \<open>Trix\<close> agree up to rounding: the naive mode scales by a hundred before
  it divides and the incremental one after, so for the same last two values, without overflow,
  their results are less than 100 units in the last place apart.
\<close>

theorem trix_modes_within:
  assumes "holds b c X" and "num_ports b = 1" and "2 \<le> length (X 0)"
    and "sized 2 loc" and "sized 2 cache" and "cs_value (cache ! 1) = X 0 ! 1"
    and "small (X 0 ! 0)" and "small (X 0 ! 1)" and "raw (X 0 ! 1) \<noteq> 0"
    and "\<bar>100 * (raw (X 0 ! 0) - raw (X 0 ! 1))\<bar> < 2 ^ 63"
    and "\<bar>(100 * ((raw (X 0 ! 0) - raw (X 0 ! 1)) * 2 ^ 40)) sdiv raw (X 0 ! 1)\<bar> < 2 ^ 63"
  shows "\<exists>x loc' y. process_naive Trix_ops b = Inr x \<and>
    process_opt_ext Trix_ops loc [X 0 ! 0] cache = Inr loc' \<and> first_value loc' = Inr y \<and>
    \<bar>raw x - raw y\<bar> < 100"
proof -
  let ?l = "X 0 ! 0" and ?p = "X 0 ! 1"
  let ?D = "(raw ?l - raw ?p) * 2 ^ 40"
  have df: "raw (fp_minus ?l ?p) = raw ?l - raw ?p"
    using assms(7,8) by (rule raw_minus)
  have num: "raw (int_times 100 (fp_minus ?l ?p)) = 100 * (raw ?l - raw ?p)"
    using raw_int_times [of 100 "fp_minus ?l ?p", unfolded df] assms(10) by simp
  have nd: "raw (int_times 100 (fp_minus ?l ?p)) * 2 ^ 40 = 100 * ?D"
    unfolding num by simp
  have r1: "- (2 ^ 63) \<le> (100 * ?D) sdiv raw ?p" "(100 * ?D) sdiv raw ?p < 2 ^ 63"
    using assms(11) by linarith+
  obtain x where x: "fp_divide (int_times 100 (fp_minus ?l ?p)) ?p = Inr x" "raw x = (100 * ?D) sdiv raw ?p"
    by (rule raw_divide [OF assms(9), of "int_times 100 (fp_minus ?l ?p)", unfolded nd, OF r1])
  have sc: "\<bar>100 * (?D sdiv raw ?p)\<bar> < 2 ^ 63"
    using sdiv_scale_abs [OF assms(9), of 100 ?D] assms(11) by linarith
  then have r2: "- (2 ^ 63) \<le> ?D sdiv raw ?p" "?D sdiv raw ?p < 2 ^ 63"
    by linarith+
  obtain q where q: "fp_divide (fp_minus ?l ?p) ?p = Inr q" "raw q = ?D sdiv raw ?p"
    by (rule raw_divide [OF assms(9), of "fp_minus ?l ?p", unfolded df, OF r2])
  have y: "raw (int_times 100 q) = 100 * (?D sdiv raw ?p)"
    using raw_int_times [of 100 q, unfolded q(2)] sc by simp
  obtain x0 x1 y0 y1 where c2: "loc = [x0, x1]" "cache = [y0, y1]"
    using assms(4,5) by (auto simp: sized_simps)
  have "\<exists>loc'. process_opt_ext Trix_ops loc [?l] cache = Inr loc' \<and> first_value loc' = Inr (int_times 100 q)"
    using c2 assms(6) q(1) by (simp add: Trix_ops_def Trix_process_opt_ext_def)
  moreover have "\<bar>raw x - raw (int_times 100 q)\<bar> < 100"
    unfolding x(2) y using sdiv_scale [OF assms(9), of 100 ?D] by simp
  ultimately show ?thesis
    using Trix_naive_rep [OF assms(1-3)] x(1) by auto
qed

text \<open>Buffers with one port that holds two given values.\<close>

definition two_values :: "FixedPt \<Rightarrow> FixedPt \<Rightarrow> Buffers" where
  "two_values x y = (Buffers_ctor 1 2)\<lparr>bufs :=
     [\<lparr>ca_array = [x, y], ca_start = 0, ca_size = 2, ca_capacity = 2\<rparr>]\<rparr>"

lemma holds_two_values: "holds (two_values x y) 2 (\<lambda>_. [x, y])"
  by (simp add: two_values_def holds_def Buffers_ctor_def reset_def rep_def ca_inv_def contents_def
      numeral_2_eq_2)

lemma num_ports_two_values [simp]: "num_ports (two_values x y) = 1"
  by (simp add: two_values_def)

theorem trix_modes_within_witness:
  "\<exists>x loc' y. process_naive Trix_ops (two_values (fromC 7) (fromC 3)) = Inr x \<and>
    process_opt_ext Trix_ops Trix_ctor [fromC 7] [CacheStruct_ctor, CacheStruct_ctor\<lparr>cs_value := fromC 3\<rparr>] = Inr loc' \<and>
    first_value loc' = Inr y \<and> \<bar>raw x - raw y\<bar> < 100"
  using trix_modes_within [OF holds_two_values num_ports_two_values, of "fromC 7" "fromC 3" Trix_ctor
      "[CacheStruct_ctor, CacheStruct_ctor\<lparr>cs_value := fromC 3\<rparr>]"]
  by (simp add: sized_def Trix_ctor_def small_def raw_def signed_divide_int_def)

text \<open>
  The two modes of \<open>Trix\<close> are not equal: going from 3 to 4, the naive mode gives
  36650387592533 raw units and the incremental mode 36650387592500.
\<close>

theorem trix_modes_differ:
  "bnd (process_naive Trix_ops (two_values (fromInt 4) (fromInt 3))) (\<lambda>x.
     bnd (process_opt_ext Trix_ops Trix_ctor [fromInt 4] [CacheStruct_ctor, CacheStruct_ctor\<lparr>cs_value := fromInt 3\<rparr>])
       (\<lambda>loc. bnd (first_value loc) (\<lambda>y. Inr (raw x, raw y)))) =
   Inr (36650387592533, 36650387592500)"
proof -
  have "process_naive Trix_ops (two_values (fromInt 4) (fromInt 3)) = Inr (fromC 36650387592533)"
    using Trix_naive_rep [OF holds_two_values num_ports_two_values, of "fromInt 4" "fromInt 3"]
    by (simp add: fp_divide_def int_times_def fixedpt_div_int fixedpt_mul_int fixedpt_fromint_int
        signed_divide_int_def)
  then show ?thesis
    by (simp add: Trix_ops_def Trix_process_opt_ext_def Trix_ctor_def fp_divide_def fixedpt_div_int
        fixedpt_mul_int fixedpt_fromint_int signed_divide_int_def raw_def int_times_def)
qed

end
