(* ===== verification/Hc_Indicators.thy ===== *)
theory Hc_Indicators
  imports Indicator_Results Hash_Map
begin

text \<open>
  The hand-coded indicators against which the Click elements are measured (src/hand_coded): the moving
  average \<open>EwmaHc\<close>, \<open>Trix\<close>, \<open>Dmi\<close>, \<open>Vortex\<close> with its \<open>SumRingBuffer\<close>, and the advance/decline line \<open>ADLine\<close>
  with its per-symbol \<open>ADLineTick\<close>. Fixed-point numbers and ring buffers are the same code as in Click;
  the flag \<open>_valid\<close>, commented out in the copy of \<open>FixedPt\<close> used here, is never read. Output to the
  terminal and to the tracer is left out.
\<close>

datatype UpdateType = ADD | UPDATE

section \<open>EwmaHc\<close>

record EwmaHc =
  eh_initialized :: bool
  eh_last_value :: FixedPt
  eh_alfa :: FixedPt

definition EwmaHc_ctor :: EwmaHc where
  "EwmaHc_ctor = \<lparr>eh_initialized = False, eh_last_value = fromInt 0, eh_alfa = fromInt 0\<rparr>"

definition set_alfa :: "EwmaHc \<Rightarrow> FixedPt \<Rightarrow> EwmaHc" where
  "set_alfa e alfa = e\<lparr>eh_alfa := alfa\<rparr>"

definition set_last_value :: "EwmaHc \<Rightarrow> FixedPt \<Rightarrow> EwmaHc" where
  "set_last_value e value = e\<lparr>eh_last_value := value, eh_initialized := True\<rparr>"

definition get_last_value :: "EwmaHc \<Rightarrow> FixedPt" where
  "get_last_value e = eh_last_value e"

definition calculate_new_value :: "EwmaHc \<Rightarrow> FixedPt \<Rightarrow> FixedPt \<times> EwmaHc" where
  "calculate_new_value e update =
     (if \<not> eh_initialized e
      then (update, e\<lparr>eh_last_value := update, eh_initialized := True\<rparr>)
      else (fp_plus (fp_times (int_minus 1 (eh_alfa e)) update) (fp_times (eh_alfa e) (eh_last_value e)), e))"

section \<open>Trix\<close>

record HcTrix =
  tx_ewma_1 :: EwmaHc
  tx_ewma_2 :: EwmaHc
  tx_ewma_3 :: EwmaHc

definition HcTrix_ctor :: "int \<Rightarrow> HcTrix res" where
  "HcTrix_ctor ewma_periods =
     bnd (fp_divide (fromInt 2) (fp_plus (fromInt ewma_periods) (fromInt 1))) (\<lambda>alfa.
       Inr \<lparr>tx_ewma_1 = set_alfa EwmaHc_ctor alfa, tx_ewma_2 = set_alfa EwmaHc_ctor alfa,
            tx_ewma_3 = set_alfa EwmaHc_ctor alfa\<rparr>)"

definition trix_initialize :: "HcTrix \<Rightarrow> FixedPt \<Rightarrow> HcTrix" where
  "trix_initialize t update =
     \<lparr>tx_ewma_1 = set_last_value (tx_ewma_1 t) update, tx_ewma_2 = set_last_value (tx_ewma_2 t) update,
      tx_ewma_3 = set_last_value (tx_ewma_3 t) update\<rparr>"

definition trix_calculate_value :: "HcTrix \<Rightarrow> FixedPt \<Rightarrow> UpdateType \<Rightarrow> (FixedPt \<times> HcTrix) res" where
  "trix_calculate_value t update update_type =
     (case calculate_new_value (tx_ewma_1 t) update of (ewma_1, e1) \<Rightarrow>
      case calculate_new_value (tx_ewma_2 t) ewma_1 of (ewma_2, e2) \<Rightarrow>
      case calculate_new_value (tx_ewma_3 t) ewma_2 of (ewma_3, e3) \<Rightarrow>
      let last_ewma_3 = get_last_value e3
      in bnd (fp_divide (fp_minus ewma_3 last_ewma_3) last_ewma_3) (\<lambda>q.
           Inr (int_times 100 q,
             if update_type = ADD
             then \<lparr>tx_ewma_1 = set_last_value e1 ewma_1, tx_ewma_2 = set_last_value e2 ewma_2,
                   tx_ewma_3 = set_last_value e3 ewma_3\<rparr>
             else \<lparr>tx_ewma_1 = e1, tx_ewma_2 = e2, tx_ewma_3 = e3\<rparr>)))"

section \<open>Dmi\<close>

definition hc_max :: "FixedPt \<Rightarrow> FixedPt \<Rightarrow> FixedPt" where
  "hc_max a b = (if fp_gt a b then a else b)"

record HcDmi =
  dm_prev_close :: FixedPt
  dm_prev_high :: FixedPt
  dm_prev_low :: FixedPt
  dm_ewma_pdm :: EwmaHc
  dm_ewma_ndm :: EwmaHc
  dm_ewma_tr :: EwmaHc
  dm_ewma_dx :: EwmaHc

definition hc_calculate_pdm :: "HcDmi \<Rightarrow> FixedPt \<Rightarrow> FixedPt \<Rightarrow> FixedPt" where
  "hc_calculate_pdm d update_high update_low =
     (if fp_lt (fp_minus update_high (dm_prev_high d)) (fp_minus (dm_prev_low d) update_low) then fromInt 0
      else if fp_lt (fp_minus update_high (dm_prev_high d)) (fromInt 0) then fromInt 0
      else fp_minus update_high (dm_prev_high d))"

definition hc_calculate_ndm :: "HcDmi \<Rightarrow> FixedPt \<Rightarrow> FixedPt \<Rightarrow> FixedPt" where
  "hc_calculate_ndm d update_high update_low =
     (if fp_lt (fp_minus (dm_prev_low d) update_low) (fp_minus update_high (dm_prev_high d)) then fromInt 0
      else if fp_lt (fp_minus (dm_prev_low d) update_low) (fromInt 0) then fromInt 0
      else fp_minus (dm_prev_low d) update_low)"

definition hc_calculate_tr :: "HcDmi \<Rightarrow> FixedPt \<Rightarrow> FixedPt \<Rightarrow> FixedPt \<Rightarrow> FixedPt" where
  "hc_calculate_tr d update_close update_high update_low =
     hc_max (fp_minus (dm_prev_close d) update_low)
       (hc_max (fp_minus update_high update_low) (fp_minus update_high (dm_prev_close d)))"

definition HcDmi_ctor :: "int \<Rightarrow> HcDmi res" where
  "HcDmi_ctor ewma_periods =
     bnd (fp_divide (fromInt 2) (fp_plus (fromInt ewma_periods) (fromInt 1))) (\<lambda>alfa.
       Inr \<lparr>dm_prev_close = FixedPt_ctor, dm_prev_high = FixedPt_ctor, dm_prev_low = FixedPt_ctor,
            dm_ewma_pdm = set_alfa EwmaHc_ctor alfa, dm_ewma_ndm = set_alfa EwmaHc_ctor alfa,
            dm_ewma_tr = set_alfa EwmaHc_ctor alfa, dm_ewma_dx = set_alfa EwmaHc_ctor alfa\<rparr>)"

text \<open>\<open>initialize\<close> returns no value although it is declared to; its only caller does not look at it.\<close>

definition dmi_initialize :: "HcDmi \<Rightarrow> FixedPt \<Rightarrow> FixedPt \<Rightarrow> FixedPt \<Rightarrow> HcDmi" where
  "dmi_initialize d update_close update_high update_low =
     d\<lparr>dm_prev_close := update_close, dm_prev_high := update_high, dm_prev_low := update_low\<rparr>"

text \<open>The early return on a zero sum leaves the previous prices as they are, whatever the update type.\<close>

definition dmi_calculate_value :: "HcDmi \<Rightarrow> FixedPt \<Rightarrow> FixedPt \<Rightarrow> FixedPt \<Rightarrow> UpdateType \<Rightarrow> (FixedPt \<times> HcDmi) res" where
  "dmi_calculate_value d update_close update_high update_low update_type =
     (case calculate_new_value (dm_ewma_pdm d) (hc_calculate_pdm d update_high update_low) of (pdm_smoothed, e_pdm) \<Rightarrow>
      case calculate_new_value (dm_ewma_ndm d) (hc_calculate_ndm d update_high update_low) of (ndm_smoothed, e_ndm) \<Rightarrow>
      case calculate_new_value (dm_ewma_tr d) (hc_calculate_tr d update_close update_high update_low) of (tr_smoothed, e_tr) \<Rightarrow>
      let d1 = d\<lparr>dm_ewma_pdm := e_pdm, dm_ewma_ndm := e_ndm, dm_ewma_tr := e_tr\<rparr>
      in bnd (fp_divide pdm_smoothed tr_smoothed) (\<lambda>pdi.
         bnd (fp_divide ndm_smoothed tr_smoothed) (\<lambda>ndi.
           if getC (fp_plus pdi ndi) = 0 then Inr (fromInt 0, d1)
           else bnd (fp_divide (int_times 100 (fpt_abs (fp_minus pdi ndi))) (fp_plus pdi ndi)) (\<lambda>dx.
                  case calculate_new_value (dm_ewma_dx d1) dx of (result, e_dx) \<Rightarrow>
                  Inr (result,
                    if update_type = ADD
                    then d1\<lparr>dm_prev_close := update_close, dm_prev_high := update_high, dm_prev_low := update_low,
                            dm_ewma_pdm := set_last_value e_pdm pdm_smoothed,
                            dm_ewma_ndm := set_last_value e_ndm ndm_smoothed,
                            dm_ewma_tr := set_last_value e_tr tr_smoothed,
                            dm_ewma_dx := set_last_value e_dx result\<rparr>
                    else d1\<lparr>dm_ewma_dx := e_dx\<rparr>)))))"

section \<open>Vortex\<close>

record SumRingBuffer =
  sr_ring_buffer :: RingBuffer
  sr_last_sum :: FixedPt
  sr_initialized :: bool

definition SumRingBuffer_ctor :: "nat \<Rightarrow> SumRingBuffer" where
  "SumRingBuffer_ctor c =
     \<lparr>sr_ring_buffer = CircArray_ctor FixedPt_ctor c, sr_last_sum = FixedPt_ctor, sr_initialized = False\<rparr>"

definition get_total_sum :: "SumRingBuffer \<Rightarrow> FixedPt" where
  "get_total_sum s = sr_last_sum s"

definition push_back_new_value :: "SumRingBuffer \<Rightarrow> FixedPt \<Rightarrow> SumRingBuffer res" where
  "push_back_new_value s new_value =
     bnd (push_back (sr_ring_buffer s) new_value True) (\<lambda>(_, rb).
     bnd (iter_res (\<lambda>last_sum i. bnd (ca_at rb i) (\<lambda>v. Inr (fp_plus last_sum v))) (fromInt 0) [0..<occupancy rb])
       (\<lambda>last_sum. Inr (s\<lparr>sr_ring_buffer := rb, sr_last_sum := last_sum, sr_initialized := True\<rparr>)))"

record HcVortex =
  vx_prev_close :: FixedPt
  vx_prev_high :: FixedPt
  vx_prev_low :: FixedPt
  vx_vmu_sum :: SumRingBuffer
  vx_vmd_sum :: SumRingBuffer
  vx_tr_sum :: SumRingBuffer

text \<open>The length is a \<open>size_t\<close>: \<open>sum_len - 1\<close> wraps around at zero.\<close>

definition HcVortex_ctor :: "64 word \<Rightarrow> HcVortex" where
  "HcVortex_ctor sum_len =
     \<lparr>vx_prev_close = FixedPt_ctor, vx_prev_high = FixedPt_ctor, vx_prev_low = FixedPt_ctor,
      vx_vmu_sum = SumRingBuffer_ctor (unat (sum_len - 1)), vx_vmd_sum = SumRingBuffer_ctor (unat (sum_len - 1)),
      vx_tr_sum = SumRingBuffer_ctor (unat (sum_len - 1))\<rparr>"

definition vortex_initialize :: "HcVortex \<Rightarrow> FixedPt \<Rightarrow> FixedPt \<Rightarrow> FixedPt \<Rightarrow> HcVortex" where
  "vortex_initialize v update_close update_high update_low =
     v\<lparr>vx_prev_close := update_close, vx_prev_high := update_high, vx_prev_low := update_low\<rparr>"

text \<open>The three pushes, in the catering for the first update and at the end.\<close>

definition vortex_push :: "HcVortex \<Rightarrow> FixedPt \<Rightarrow> FixedPt \<Rightarrow> FixedPt \<Rightarrow> HcVortex res" where
  "vortex_push v vmu vmd tr =
     bnd (push_back_new_value (vx_vmu_sum v) vmu) (\<lambda>s1.
     bnd (push_back_new_value (vx_vmd_sum v) vmd) (\<lambda>s2.
     bnd (push_back_new_value (vx_tr_sum v) tr) (\<lambda>s3.
       Inr (v\<lparr>vx_vmu_sum := s1, vx_vmd_sum := s2, vx_tr_sum := s3\<rparr>))))"

definition vortex_calculate_value :: "HcVortex \<Rightarrow> FixedPt \<Rightarrow> FixedPt \<Rightarrow> FixedPt \<Rightarrow> UpdateType \<Rightarrow>
    ((FixedPt \<times> FixedPt) \<times> HcVortex) res" where
  "vortex_calculate_value v update_close update_high update_low update_type =
     (let vmu = fpt_abs (fp_minus update_high (vx_prev_low v));
          vmd = fpt_abs (fp_minus update_low (vx_prev_high v));
          tr = hc_max (fp_minus (vx_prev_close v) update_low)
                 (hc_max (fp_minus update_high update_low) (fp_minus update_high (vx_prev_close v)))
      in bnd (if update_type = UPDATE \<and> \<not> sr_initialized (vx_vmu_sum v) then vortex_push v vmu vmd tr else Inr v) (\<lambda>v1.
         let vmu_total = get_total_sum (vx_vmu_sum v1);
             vmd_total = get_total_sum (vx_vmd_sum v1);
             tr_total = get_total_sum (vx_tr_sum v1)
         in bnd (fp_divide (fp_plus vmu_total vmu) (fp_plus tr_total tr)) (\<lambda>viu.
            bnd (fp_divide (fp_plus vmd_total vmd) (fp_plus tr_total tr)) (\<lambda>vid.
            bnd (if update_type = ADD
                 then bnd (vortex_push v1 vmu vmd tr) (\<lambda>v2.
                        Inr (v2\<lparr>vx_prev_close := update_close, vx_prev_low := update_low, vx_prev_high := update_high\<rparr>))
                 else Inr v1) (\<lambda>v2. Inr ((viu, vid), v2))))))"

section \<open>The advance/decline line\<close>

datatype Tick = UP | DOWN | FLAT

text \<open>
  \<open>TickMap\<close> is a \<open>__gnu_cxx::hash_map\<close>, here the list of its entries. Keys are compared with \<open>strcmp\<close>; their
  hash code agrees with that on the canonical symbols used.
\<close>

record ADLine =
  al_tick_map :: "(symbol \<times> Tick) list"
  al_total_up :: "32 word"
  al_total_down :: "32 word"

definition ADLine_ctor :: ADLine where
  "ADLine_ctor = \<lparr>al_tick_map = [], al_total_up = 0, al_total_down = 0\<rparr>"

definition umap_find :: "(symbol \<times> 'v) list \<Rightarrow> symbol \<Rightarrow> 'v option" where
  "umap_find m k = map_option (\<lambda>i. snd (m ! i)) (chain_pos aw_eq k m)"

definition umap_store :: "(symbol \<times> 'v) list \<Rightarrow> symbol \<Rightarrow> 'v \<Rightarrow> (symbol \<times> 'v) list" where
  "umap_store m k v = map (\<lambda>e. if aw_eq (fst e) k then (fst e, v) else e) m"

definition umap_insert :: "(symbol \<times> 'v) list \<Rightarrow> symbol \<Rightarrow> 'v \<Rightarrow> (symbol \<times> 'v) list" where
  "umap_insert m k v = (if chain_pos aw_eq k m = None then m @ [(k, v)] else m)"

text \<open>The nested switches; from FLAT to DOWN the code falls through to an empty case.\<close>

fun switch_tick :: "Tick \<Rightarrow> Tick \<Rightarrow> ADLine \<Rightarrow> ADLine" where
  "switch_tick UP UP a = a"
| "switch_tick UP DOWN a = a\<lparr>al_total_up := al_total_up a - 1, al_total_down := al_total_down a + 1\<rparr>"
| "switch_tick UP FLAT a = a\<lparr>al_total_up := al_total_up a - 1\<rparr>"
| "switch_tick DOWN UP a = a\<lparr>al_total_down := al_total_down a - 1, al_total_up := al_total_up a + 1\<rparr>"
| "switch_tick DOWN DOWN a = a"
| "switch_tick DOWN FLAT a = a\<lparr>al_total_down := al_total_down a - 1\<rparr>"
| "switch_tick FLAT UP a = a\<lparr>al_total_up := al_total_up a + 1\<rparr>"
| "switch_tick FLAT DOWN a = a\<lparr>al_total_down := al_total_down a + 1\<rparr>"
| "switch_tick FLAT FLAT a = a"

definition adline_calculate_value :: "ADLine \<Rightarrow> Tick \<Rightarrow> symbol \<Rightarrow> int \<times> ADLine" where
  "adline_calculate_value a tick s =
     (let a' = (case umap_find (al_tick_map a) s of
            None \<Rightarrow>
              let a1 = a\<lparr>al_tick_map := umap_insert (al_tick_map a) s tick\<rparr>
              in if tick = UP then a1\<lparr>al_total_up := al_total_up a1 + 1\<rparr>
                 else if tick = DOWN then a1\<lparr>al_total_down := al_total_down a1 + 1\<rparr>
                 else a1
          | Some current_tick \<Rightarrow>
              let a1 = switch_tick current_tick tick a
              in a1\<lparr>al_tick_map := umap_store (al_tick_map a1) s tick\<rparr>)
      in (sint (al_total_up a') - sint (al_total_down a'), a'))"

record ADLineTick =
  at_prev_close :: FixedPt
  at_symbol :: symbol

definition ADLineTick_ctor :: "symbol \<Rightarrow> ADLineTick" where
  "ADLineTick_ctor s = \<lparr>at_prev_close = FixedPt_ctor, at_symbol = s\<rparr>"

definition adline_initialize :: "ADLineTick \<Rightarrow> FixedPt \<Rightarrow> ADLineTick" where
  "adline_initialize t close = t\<lparr>at_prev_close := close\<rparr>"

definition tick_of :: "FixedPt \<Rightarrow> Tick" where
  "tick_of diff = (if fp_gt diff (fromInt 0) then UP else if fp_lt diff (fromInt 0) then DOWN else FLAT)"

text \<open>
  \<open>printf("ad_line is %s\n", rv)\<close> takes the integer for a string: the C library prints \<open>(null)\<close> for zero
  and reads memory at the address \<open>rv\<close> otherwise.
\<close>

definition print_int_as_string :: "int \<Rightarrow> unit res" where
  "print_int_as_string rv = (if rv = 0 then Inr () else Inl OutOfBounds)"

definition adtick_calculate_value :: "ADLineTick \<Rightarrow> ADLine \<Rightarrow> FixedPt \<Rightarrow> UpdateType \<Rightarrow>
    (FixedPt \<times> ADLineTick \<times> ADLine) res" where
  "adtick_calculate_value t a close update_type =
     (let diff = fp_minus close (at_prev_close t);
          t' = (if update_type = ADD then t\<lparr>at_prev_close := close\<rparr> else t)
      in case adline_calculate_value a (tick_of diff) (at_symbol t) of (rv, a') \<Rightarrow>
           bnd (print_int_as_string rv) (\<lambda>_. Inr (fromInt rv, t', a')))"

section \<open>The tick map\<close>

text \<open>On canonical symbols the tick map is a finite map.\<close>

lemma aw_eq_canonical: "canonical a \<Longrightarrow> canonical b \<Longrightarrow> aw_eq a b \<longleftrightarrow> a = b"
  by (metis aw_eq_def canonical_def)

lemma umap_find_map:
  "\<forall>e\<in>set m. canonical (fst e) \<Longrightarrow> canonical k \<Longrightarrow> umap_find m k = map_of m k"
  by (induction m) (auto simp: umap_find_def aw_eq_canonical option.map_comp comp_def)

lemma umap_store_map:
  "\<forall>e\<in>set m. canonical (fst e) \<Longrightarrow> canonical k \<Longrightarrow> map_of m k \<noteq> None \<Longrightarrow>
   map_of (umap_store m k v) = (map_of m)(k \<mapsto> v)"
proof (induction m)
  case (Cons e m)
  have "map_of (umap_store m k v) = (if map_of m k = None then map_of m else (map_of m)(k \<mapsto> v))"
  proof (cases "map_of m k")
    case None
    then have "umap_store m k v = m"
      using Cons.prems(1,2) unfolding umap_store_def
      by (intro map_idI) (auto simp: aw_eq_canonical map_of_eq_None_iff)
    with None show ?thesis by simp
  next
    case (Some t)
    have "map_of (umap_store m k v) = (map_of m)(k \<mapsto> v)"
      using Cons.prems Some by (intro Cons.IH) simp_all
    with Some show ?thesis by simp
  qed
  with Cons.prems show ?case
    by (cases e) (auto simp: umap_store_def aw_eq_canonical fun_eq_iff)
qed simp

lemma umap_store_keys: "map fst (umap_store m k v) = map fst m"
  by (induction m) (auto simp: umap_store_def)

lemma umap_insert_new:
  assumes "\<forall>e\<in>set m. canonical (fst e)" and "canonical k" and "map_of m k = None"
  shows "map_of (umap_insert m k v) = (map_of m)(k \<mapsto> v)"
proof -
  have "chain_pos aw_eq k m = None"
    using umap_find_map [OF assms(1,2)] assms(3) by (simp add: umap_find_def)
  with assms(3) show ?thesis
    by (auto simp: umap_insert_def map_add_def fun_eq_iff split: option.splits)
qed

definition tick_count :: "(symbol \<rightharpoonup> Tick) \<Rightarrow> Tick \<Rightarrow> int" where
  "tick_count f T = int (card {x. f x = Some T})"

lemma tick_count_upd:
  assumes "finite (dom f)"
  shows "tick_count (f(s \<mapsto> t)) T =
    tick_count f T - (if f s = Some T then 1 else 0) + (if t = T then 1 else 0)"
proof -
  let ?A = "{x. f x = Some T}"
  have fin: "finite ?A" by (rule finite_subset [OF _ assms]) auto
  have "{x. (f(s \<mapsto> t)) x = Some T} = (if t = T then insert s (?A - {s}) else ?A - {s})" by auto
  moreover have "int (card (?A - {s})) = int (card ?A) - (if f s = Some T then 1 else 0)"
    using fin card_Diff_singleton [of s ?A] card_gt_0_iff [of ?A] by (auto simp: of_nat_diff)
  moreover have "card (insert s (?A - {s})) = Suc (card (?A - {s}))"
    using fin by (intro card_insert_disjoint) auto
  ultimately show ?thesis by (simp add: tick_count_def)
qed

text \<open>The totals count the symbols whose latest tick is up and down.\<close>

definition adl_inv :: "ADLine \<Rightarrow> bool" where
  "adl_inv a \<longleftrightarrow> (\<forall>e\<in>set (al_tick_map a). canonical (fst e)) \<and>
     al_total_up a = word_of_int (tick_count (map_of (al_tick_map a)) UP) \<and>
     al_total_down a = word_of_int (tick_count (map_of (al_tick_map a)) DOWN)"

lemma adline_step:
  assumes "adl_inv a" and "canonical s"
  shows "adl_inv (snd (adline_calculate_value a t s)) \<and>
    map_of (al_tick_map (snd (adline_calculate_value a t s))) = (map_of (al_tick_map a))(s \<mapsto> t)"
proof -
  let ?m = "al_tick_map a"
  have ok: "\<forall>e\<in>set ?m. canonical (fst e)" and up: "al_total_up a = word_of_int (tick_count (map_of ?m) UP)"
    and down: "al_total_down a = word_of_int (tick_count (map_of ?m) DOWN)"
    using assms(1) by (auto simp: adl_inv_def)
  note cards = tick_count_upd [OF finite_dom_map_of]
  show ?thesis
  proof (cases "map_of ?m s")
    case None
    have "\<forall>e\<in>set (umap_insert ?m s t). canonical (fst e)"
      using ok assms(2) by (auto simp: umap_insert_def)
    with None umap_insert_new [OF ok assms(2) None, of t] up down show ?thesis
      by (cases t) (simp_all add: adline_calculate_value_def umap_find_map [OF ok assms(2)] adl_inv_def cards Let_def
          del: fun_upd_apply)
  next
    case (Some c)
    have tm: "al_tick_map (switch_tick c t a) = ?m"
      by (cases c; cases t) simp_all
    have "\<forall>e\<in>set (umap_store ?m s t). canonical (fst e)"
      using ok umap_store_keys [of ?m s t] by (metis list.set_map image_iff)
    with Some umap_store_map [OF ok assms(2), of t] up down show ?thesis
      by (cases c; cases t) (simp_all add: adline_calculate_value_def umap_find_map [OF ok assms(2)] adl_inv_def cards Let_def
          del: fun_upd_apply)
  qed
qed

text \<open>The line after a sequence of ticks of symbols.\<close>

definition ad_run :: "(symbol \<times> Tick) list \<Rightarrow> ADLine" where
  "ad_run cs = foldl (\<lambda>a (s, t). snd (adline_calculate_value a t s)) ADLine_ctor cs"

lemma ad_run_inv:
  "\<forall>(s, t)\<in>set cs. canonical s \<Longrightarrow> adl_inv (ad_run cs) \<and> map_of (al_tick_map (ad_run cs)) = map_of (rev cs)"
proof (induction cs rule: rev_induct)
  case Nil
  then show ?case by (simp add: ad_run_def adl_inv_def ADLine_ctor_def tick_count_def)
next
  case (snoc c cs)
  obtain s t where c: "c = (s, t)" by (cases c)
  with snoc adline_step [of "ad_run cs" s t] show ?case
    by (auto simp: ad_run_def)
qed

lemma tick_count_le: "tick_count (map_of m) T \<le> int (length m)"
proof -
  have "{x. map_of m x = Some T} \<subseteq> set (map fst m)"
    by (auto dest: map_of_SomeD intro: rev_image_eqI)
  then have "card {x. map_of m x = Some T} \<le> card (set (map fst m))"
    by (rule card_mono [rotated]) simp
  also have "\<dots> \<le> length m"
    using card_length [of "map fst m"] by simp
  finally show ?thesis by (simp add: tick_count_def)
qed

text \<open>
  The advance/decline line counts symbols: after any sequence of ticks of any symbols,
  the value it returns is the number of symbols whose latest tick is up minus the number of those
  whose latest tick is down. The first tick of a symbol counts as well; the comment in the source would have it entered as flat.
\<close>

theorem ad_line_counts:
  assumes "\<forall>(s, t)\<in>set cs. canonical s" and "canonical s" and "length cs < 2 ^ 31 - 1"
  shows "fst (adline_calculate_value (ad_run cs) t s) =
    int (card {x. map_of (rev (cs @ [(s, t)])) x = Some UP}) -
    int (card {x. map_of (rev (cs @ [(s, t)])) x = Some DOWN})"
proof -
  let ?cs = "cs @ [(s, t)]" and ?a = "snd (adline_calculate_value (ad_run cs) t s)"
  have a: "?a = ad_run ?cs" by (simp add: ad_run_def)
  have inv: "adl_inv (ad_run ?cs)" "map_of (al_tick_map (ad_run ?cs)) = map_of (rev ?cs)"
    using ad_run_inv [of ?cs] assms(1,2) by auto
  have b: "0 \<le> tick_count (map_of (rev ?cs)) T \<and> tick_count (map_of (rev ?cs)) T < 2 ^ 31" for T
    using tick_count_le [of "rev ?cs" T] assms(3) by (auto simp: tick_count_def)
  have s: "sint (word_of_int (tick_count (map_of (rev ?cs)) T) :: 32 word) = tick_count (map_of (rev ?cs)) T" for T
    using b [of T] by (intro sint_word_of_int_id) simp_all
  have "fst (adline_calculate_value (ad_run cs) t s) = sint (al_total_up ?a) - sint (al_total_down ?a)"
    by (simp add: adline_calculate_value_def Let_def)
  also have "\<dots> = tick_count (map_of (rev ?cs)) UP - tick_count (map_of (rev ?cs)) DOWN"
    using inv unfolding a adl_inv_def by (simp only: s)
  finally show ?thesis by (simp only: tick_count_def)
qed

theorem ad_line_counts_witness:
  "let A = aw_assign_str [65]; B = aw_assign_str [66]
   in fst (adline_calculate_value (ad_run [(A, UP), (B, UP), (A, FLAT)]) DOWN A) =
     int (card {x. map_of (rev ([(A, UP), (B, UP), (A, FLAT)] @ [(A, DOWN)])) x = Some UP}) -
     int (card {x. map_of (rev ([(A, UP), (B, UP), (A, FLAT)] @ [(A, DOWN)])) x = Some DOWN})"
  unfolding Let_def by (rule ad_line_counts) (simp_all add: canonical_assign_str)

section \<open>Sums over a window\<close>

definition window :: "nat \<Rightarrow> 'a list \<Rightarrow> 'a list" where
  "window n xs = drop (length xs - n) xs"

lemma length_window: "length (window n xs) = min n (length xs)"
  by (simp add: window_def)

lemma window_snoc: "window (Suc n) (xs @ [x]) = window n xs @ [x]"
  by (simp add: window_def)

lemma window_push:
  assumes "0 < n"
  shows "(if length (window n xs) = n then tl (window n xs) else window n xs) @ [x] = window n (xs @ [x])"
proof (cases n)
  case (Suc k)
  have "Suc (length xs - Suc k) = length xs - k" if "Suc k \<le> length xs" using that by simp
  then show ?thesis
    by (auto simp: Suc window_def tl_drop drop_Suc [symmetric])
qed (use assms in simp)

lemma map_window: "map f (window n xs) = window n (map f xs)"
  by (simp add: window_def drop_map)

definition fp_sum :: "FixedPt list \<Rightarrow> FixedPt" where
  "fp_sum xs = fromC (sum_list (map fp_value xs))"

lemma fp_sum_snoc: "fp_plus (fp_sum xs) x = fp_sum (xs @ [x])"
  by (simp add: fp_sum_def fp_plus_def fixedpt_add_def)

definition sums :: "SumRingBuffer \<Rightarrow> nat \<Rightarrow> FixedPt list \<Rightarrow> bool" where
  "sums s c xs \<longleftrightarrow> rep (sr_ring_buffer s) c (window c xs) \<and> sr_last_sum s = fp_sum (window c xs) \<and>
     sr_initialized s = (xs \<noteq> [])"

lemma sums_ctor: "sums (SumRingBuffer_ctor c) c []"
  by (simp add: sums_def SumRingBuffer_ctor_def window_def rep_ctor fp_sum_def FixedPt_ctor_def fromC_def)

lemma sum_loop:
  assumes "rep rb c ys" and "m \<le> length ys"
  shows "iter_res (\<lambda>last_sum i. bnd (ca_at rb i) (\<lambda>v. Inr (fp_plus last_sum v))) (fromInt 0) [0..<m] =
    Inr (fp_sum (take m ys))"
  using assms(2)
proof (induction m)
  case 0
  then show ?case by (simp add: fp_sum_def fromInt_def fromC_def fixedpt_fromint_int)
next
  case (Suc m)
  then show ?case
    using rep_at [OF assms(1), of m] by (simp add: iter_res_append take_Suc_conv_app_nth fp_sum_snoc)
qed

lemma sums_push:
  assumes "sums s c xs" and "0 < c"
  obtains s' where "push_back_new_value s v = Inr s'" and "sums s' c (xs @ [v])"
proof -
  from assms(1) have "rep (sr_ring_buffer s) c (window c xs)" by (simp add: sums_def)
  from rep_push_back [OF this assms(2), of v] obtain rb where
    rb: "push_back (sr_ring_buffer s) v True = Inr (SUCCESS, rb)" "rep rb c (window c (xs @ [v]))"
    by (metis window_push [OF assms(2)])
  have "occupancy rb = length (window c (xs @ [v]))" using rb(2) by (rule rep_occupancy)
  with rb sum_loop [OF rb(2) order_refl] show thesis
    by (intro that [of "s\<lparr>sr_ring_buffer := rb, sr_last_sum := fp_sum (window c (xs @ [v])), sr_initialized := True\<rparr>"])
      (simp_all add: push_back_new_value_def sums_def)
qed

section \<open>Vortex\<close>

text \<open>A bar is the close, high and low price of an interval, a movement is up, down and true range.\<close>

type_synonym bar = "FixedPt \<times> FixedPt \<times> FixedPt"

fun movement :: "bar \<Rightarrow> bar \<Rightarrow> FixedPt \<times> FixedPt \<times> FixedPt" where
  "movement (pc, ph, pl) (c, h, l) =
     (fpt_abs (fp_minus h pl), fpt_abs (fp_minus l ph),
      hc_max (fp_minus pc l) (hc_max (fp_minus h l) (fp_minus h pc)))"

definition vortex_step :: "HcVortex \<Rightarrow> UpdateType \<times> bar \<Rightarrow> ((FixedPt \<times> FixedPt) \<times> HcVortex) res" where
  "vortex_step v x = (case x of (t, c, h, l) \<Rightarrow> vortex_calculate_value v c h l t)"

text \<open>
  The indicator as a function of the history: the sums of the up and of the down movements over the
  sum of the true ranges of the last \<open>n\<close> movements, the current one included.
\<close>

definition vortex_ref :: "nat \<Rightarrow> bar \<times> (FixedPt \<times> FixedPt \<times> FixedPt) list \<Rightarrow> UpdateType \<times> bar \<Rightarrow>
    ((FixedPt \<times> FixedPt) \<times> bar \<times> (FixedPt \<times> FixedPt \<times> FixedPt) list) res" where
  "vortex_ref n st x =
     (case st of (prev, ms) \<Rightarrow> case x of (t, b) \<Rightarrow>
        let m = movement prev b; w = window n (ms @ [m])
        in bnd (fp_divide (fp_sum (map fst w)) (fp_sum (map (snd \<circ> snd) w))) (\<lambda>viu.
           bnd (fp_divide (fp_sum (map (fst \<circ> snd) w)) (fp_sum (map (snd \<circ> snd) w))) (\<lambda>vid.
             Inr ((viu, vid), if t = ADD then (b, ms @ [m]) else (prev, ms)))))"

definition vx_ok :: "nat \<Rightarrow> HcVortex \<Rightarrow> bar \<times> (FixedPt \<times> FixedPt \<times> FixedPt) list \<Rightarrow> bool" where
  "vx_ok c v st \<longleftrightarrow>
     (case st of (prev, ms) \<Rightarrow> prev = (vx_prev_close v, vx_prev_high v, vx_prev_low v) \<and>
        sums (vx_vmu_sum v) c (map fst ms) \<and> sums (vx_vmd_sum v) c (map (fst \<circ> snd) ms) \<and>
        sums (vx_tr_sum v) c (map (snd \<circ> snd) ms))"

lemma vx_push:
  assumes "vx_ok c v (prev, ms)" and "0 < c"
  obtains v' where "vortex_push v vmu vmd tr = Inr v'" and "vx_ok c v' (prev, ms @ [(vmu, vmd, tr)])"
proof -
  from assms(1) have s: "sums (vx_vmu_sum v) c (map fst ms)" "sums (vx_vmd_sum v) c (map (fst \<circ> snd) ms)"
    "sums (vx_tr_sum v) c (map (snd \<circ> snd) ms)" by (simp_all add: vx_ok_def)
  obtain s1 where s1: "push_back_new_value (vx_vmu_sum v) vmu = Inr s1" "sums s1 c (map fst ms @ [vmu])"
    by (rule sums_push [OF s(1) assms(2)])
  obtain s2 where s2: "push_back_new_value (vx_vmd_sum v) vmd = Inr s2" "sums s2 c (map (fst \<circ> snd) ms @ [vmd])"
    by (rule sums_push [OF s(2) assms(2)])
  obtain s3 where s3: "push_back_new_value (vx_tr_sum v) tr = Inr s3" "sums s3 c (map (snd \<circ> snd) ms @ [tr])"
    by (rule sums_push [OF s(3) assms(2)])
  show thesis
    using s1 s2 s3 assms(1)
    by (intro that [of "v\<lparr>vx_vmu_sum := s1, vx_vmd_sum := s2, vx_tr_sum := s3\<rparr>"])
      (simp_all add: vortex_push_def vx_ok_def)
qed

lemma sums_total: "sums s c xs \<Longrightarrow> fp_plus (get_total_sum s) x = fp_sum (window (Suc c) (xs @ [x]))"
  by (simp add: sums_def get_total_sum_def fp_sum_snoc window_snoc)

lemma vortex_simulates:
  assumes "vx_ok c v (prev, ms)" and "0 < c" and "t = ADD \<or> ms \<noteq> []"
  shows "sim (vx_ok c) (vortex_step v (t, b)) (vortex_ref (Suc c) (prev, ms) (t, b))"
proof -
  obtain cl h l where b: "b = (cl, h, l)" by (cases b)
  obtain vmu vmd tr where m: "movement prev b = (vmu, vmd, tr)" by (cases "movement prev b")
  from assms(1) have prev: "prev = (vx_prev_close v, vx_prev_high v, vx_prev_low v)"
    and s: "sums (vx_vmu_sum v) c (map fst ms)" "sums (vx_vmd_sum v) c (map (fst \<circ> snd) ms)"
      "sums (vx_tr_sum v) c (map (snd \<circ> snd) ms)" by (simp_all add: vx_ok_def)
  from s(1) assms(3) have i: "\<not> (t = UPDATE \<and> \<not> sr_initialized (vx_vmu_sum v))"
    by (auto simp: sums_def)
  obtain v2 where v2: "vortex_push v vmu vmd tr = Inr v2" "vx_ok c v2 (prev, ms @ [(vmu, vmd, tr)])"
    by (rule vx_push [OF assms(1,2)])
  let ?w = "window (Suc c) (ms @ [(vmu, vmd, tr)])"
  have tot: "fp_plus (get_total_sum (vx_vmu_sum v)) vmu = fp_sum (map fst ?w)"
    "fp_plus (get_total_sum (vx_vmd_sum v)) vmd = fp_sum (map (fst \<circ> snd) ?w)"
    "fp_plus (get_total_sum (vx_tr_sum v)) tr = fp_sum (map (snd \<circ> snd) ?w)"
    using sums_total [OF s(1), of vmu] sums_total [OF s(2), of vmd] sums_total [OF s(3), of tr]
    by (simp_all add: map_window)
  have "vortex_step v (t, b) =
      bnd (fp_divide (fp_sum (map fst ?w)) (fp_sum (map (snd \<circ> snd) ?w))) (\<lambda>viu.
      bnd (fp_divide (fp_sum (map (fst \<circ> snd) ?w)) (fp_sum (map (snd \<circ> snd) ?w))) (\<lambda>vid.
        Inr ((viu, vid), if t = ADD then v2\<lparr>vx_prev_close := cl, vx_prev_low := l, vx_prev_high := h\<rparr> else v)))"
    using m i unfolding b prev
    by (cases t) (auto simp: vortex_step_def vortex_calculate_value_def Let_def tot v2(1))
  moreover have "vx_ok c (v2\<lparr>vx_prev_close := cl, vx_prev_low := l, vx_prev_high := h\<rparr>) (b, ms @ [(vmu, vmd, tr)])"
    using v2(2) by (simp add: vx_ok_def b)
  ultimately show ?thesis
    using assms(1) m unfolding vortex_ref_def
    by (auto simp: Let_def bnd_def split: sum.splits)
qed

lemma vortex_simulates_run:
  assumes "vx_ok c v (prev, ms)" and "0 < c" and "ms \<noteq> []"
  shows "map_sum id fst (run_ops vortex_step v xs) = map_sum id fst (run_ops (vortex_ref (Suc c)) (prev, ms) xs)"
proof -
  let ?R = "\<lambda>v st. vx_ok c v st \<and> snd st \<noteq> []"
  have step: "sim ?R (vortex_step v x) (vortex_ref (Suc c) st x)" if "?R v st" for v st x
  proof -
    obtain prev ms t b where st: "st = (prev, ms)" "x = (t, b)" by (cases st; cases x)
    with that vortex_simulates [of c v prev ms t b] assms(2) show ?thesis
      by (auto simp: sim_def vortex_ref_def Let_def bnd_def split: sum.splits prod.splits)
  qed
  have "sim ?R (run_ops vortex_step v xs) (run_ops (vortex_ref (Suc c)) (prev, ms) xs)"
    by (rule run_ops_sim [where P = "\<lambda>_. True"]) (use step assms in \<open>simp_all add: list_all_iff\<close>)
  then show ?thesis by (cases "run_ops (vortex_ref (Suc c)) (prev, ms) xs") auto
qed

lemma vx_ok_start:
  assumes "2 \<le> n" and "n < 2 ^ 64"
  shows "vx_ok (n - 1) (vortex_initialize (HcVortex_ctor (of_nat n)) c h l) ((c, h, l), [])"
proof -
  have "(of_nat n :: 64 word) - 1 = of_nat (n - 1)" using assms(1) by (simp add: of_nat_diff)
  then have "unat ((of_nat n :: 64 word) - 1) = unat (of_nat (n - 1) :: 64 word)" by simp
  also have "\<dots> = n - 1" using assms(2) by (simp add: unat_of_nat)
  finally have "unat ((of_nat n :: 64 word) - 1) = n - 1" .
  then show ?thesis
    by (simp add: vx_ok_def vortex_initialize_def HcVortex_ctor_def sums_ctor)
qed

text \<open>
  Property C25. The hand-coded vortex indicator is the windowed one. For a number of periods \<open>n\<close> of at least 2 that fits its type,
  once an interval has been added, for any further sequence of additions and updates, each result is the sum of the up (down)
  movements over the sum of the true ranges of the last \<open>n\<close> movements, the running sums in the ring
  buffers notwithstanding; an update leaves no trace, and the only way to fail is a zero divisor.
\<close>

theorem vortex_is_windowed:
  assumes "2 \<le> n" and "n < 2 ^ 64"
  shows "map_sum id fst (run_ops vortex_step (vortex_initialize (HcVortex_ctor (of_nat n)) c h l) ((ADD, b) # xs)) =
    map_sum id fst (run_ops (vortex_ref n) ((c, h, l), []) ((ADD, b) # xs))"
proof -
  let ?v = "vortex_initialize (HcVortex_ctor (of_nat n)) c h l" and ?p = "((c, h, l), [])"
  have n: "Suc (n - 1) = n" "0 < n - 1" using assms(1) by simp_all
  have sm: "sim (vx_ok (n - 1)) (vortex_step ?v (ADD, b)) (vortex_ref n ?p (ADD, b))"
    by (rule vortex_simulates [OF vx_ok_start [OF assms] n(2), unfolded n(1)]) simp
  show ?thesis
  proof (cases "vortex_ref n ?p (ADD, b)")
    case (Inl e)
    with sm show ?thesis by simp
  next
    case (Inr r)
    then obtain out where r: "r = (out, b, [movement (c, h, l) b])"
      by (auto simp: vortex_ref_def Let_def bnd_eq_Inr)
    with sm Inr obtain v' where v': "vortex_step ?v (ADD, b) = Inr (out, v')" "vx_ok (n - 1) v' (b, [movement (c, h, l) b])"
      by auto
    have "map_sum id fst (run_ops vortex_step v' xs) =
        map_sum id fst (run_ops (vortex_ref n) (b, [movement (c, h, l) b]) xs)"
      by (rule vortex_simulates_run [OF v'(2) n(2), unfolded n(1)]) simp
    with Inr r v'(1) show ?thesis
      by (cases "run_ops vortex_step v' xs"; cases "run_ops (vortex_ref n) (b, [movement (c, h, l) b]) xs") auto
  qed
qed

theorem vortex_is_windowed_witness:
  "map_sum id fst (run_ops vortex_step (vortex_initialize (HcVortex_ctor (of_nat 3)) (fromInt 5) (fromInt 6) (fromInt 4))
      [(ADD, fromInt 5, fromInt 7, fromInt 3), (UPDATE, fromInt 8, fromInt 9, fromInt 6)]) =
   map_sum id fst (run_ops (vortex_ref 3) ((fromInt 5, fromInt 6, fromInt 4), [])
      [(ADD, fromInt 5, fromInt 7, fromInt 3), (UPDATE, fromInt 8, fromInt 9, fromInt 6)])"
  by (rule vortex_is_windowed) simp_all

text \<open>
  Property C37. An update that comes before the first addition is not provisional: its movement stays
  in the window, and all later results are computed as if an interval with that movement had been
  added, for any number of periods of at least 2 that fits its type.
\<close>

theorem vortex_keeps_first_update:
  assumes "2 \<le> n" and "n < 2 ^ 64"
    and "vortex_step (vortex_initialize (HcVortex_ctor (of_nat n)) c h l) (UPDATE, b) = Inr (out, v)"
  shows "map_sum id fst (run_ops vortex_step v xs) =
    map_sum id fst (run_ops (vortex_ref n) ((c, h, l), [movement (c, h, l) b]) xs)"
proof -
  let ?v = "vortex_initialize (HcVortex_ctor (of_nat n)) c h l"
  have n: "Suc (n - 1) = n" "0 < n - 1" using assms(1) by simp_all
  obtain vmu vmd tr where m: "movement (c, h, l) b = (vmu, vmd, tr)" by (cases "movement (c, h, l) b")
  obtain v' where v': "vortex_push ?v vmu vmd tr = Inr v'" "vx_ok (n - 1) v' ((c, h, l), [] @ [(vmu, vmd, tr)])"
    by (rule vx_push [OF vx_ok_start [OF assms(1,2)] n(2)])
  obtain cl hi lo where b: "b = (cl, hi, lo)" by (cases b)
  have "v = v'"
    using assms(3) m v'(1) unfolding b
    by (auto simp: vortex_step_def vortex_calculate_value_def vortex_initialize_def HcVortex_ctor_def
        SumRingBuffer_ctor_def Let_def bnd_eq_Inr)
  with v'(2) m show ?thesis
    by (intro vortex_simulates_run [OF _ n(2), unfolded n(1)]) simp_all
qed

theorem vortex_keeps_first_update_witness:
  "\<exists>out v. vortex_step (vortex_initialize (HcVortex_ctor (of_nat 2)) (fromC 5) (fromC 6) (fromC 4))
       (UPDATE, fromC 5, fromC 7, fromC 3) = Inr (out, v) \<and>
     map_sum id fst (run_ops vortex_step v [(ADD, fromC 6, fromC 8, fromC 4)]) =
     map_sum id fst (run_ops (vortex_ref 2) ((fromC 5, fromC 6, fromC 4), [movement (fromC 5, fromC 6, fromC 4) (fromC 5, fromC 7, fromC 3)])
       [(ADD, fromC 6, fromC 8, fromC 4)])"
proof -
  let ?s = "vortex_step (vortex_initialize (HcVortex_ctor (of_nat 2)) (fromC 5) (fromC 6) (fromC 4)) (UPDATE, fromC 5, fromC 7, fromC 3)"
  have ok: "vx_ok 1 (vortex_initialize (HcVortex_ctor (of_nat 2)) (fromC 5) (fromC 6) (fromC 4)) ((fromC 5, fromC 6, fromC 4), [])"
    using vx_ok_start [of 2 "fromC 5" "fromC 6" "fromC 4"] by simp
  obtain v' where v': "vortex_push (vortex_initialize (HcVortex_ctor (of_nat 2)) (fromC 5) (fromC 6) (fromC 4))
      (fromC 3) (fromC 3) (fromC 4) = Inr v'"
    "vx_ok 1 v' ((fromC 5, fromC 6, fromC 4), [] @ [(fromC 3, fromC 3, fromC 4)])"
    by (rule vx_push [OF ok]) simp
  have m: "fpt_abs (fp_minus (fromC 7) (fromC 4)) = fromC 3" "fpt_abs (fp_minus (fromC 3) (fromC 6)) = fromC 3"
    "hc_max (fp_minus (fromC 5) (fromC 3)) (hc_max (fp_minus (fromC 7) (fromC 3)) (fp_minus (fromC 7) (fromC 5))) = fromC 4"
    by (simp_all add: hc_max_def FixedPt_defs word_sless_alt)
  have i: "\<not> sr_initialized (vx_vmu_sum (vortex_initialize (HcVortex_ctor (of_nat 2)) (fromC 5) (fromC 6) (fromC 4)))"
    "vx_prev_close (vortex_initialize (HcVortex_ctor (of_nat 2)) (fromC 5) (fromC 6) (fromC 4)) = fromC 5"
    "vx_prev_high (vortex_initialize (HcVortex_ctor (of_nat 2)) (fromC 5) (fromC 6) (fromC 4)) = fromC 6"
    "vx_prev_low (vortex_initialize (HcVortex_ctor (of_nat 2)) (fromC 5) (fromC 6) (fromC 4)) = fromC 4"
    using ok by (simp_all add: vx_ok_def sums_def)
  have t: "get_total_sum (vx_tr_sum v') = fromC 4"
    using v'(2) by (simp add: vx_ok_def sums_def get_total_sum_def fp_sum_def window_def)
  have "\<exists>q. fp_divide x (fp_plus (fromC 4) (fromC 4)) = Inr q" for x
    using fp_divide_ok [of "fp_plus (fromC 4) (fromC 4)" x] by auto
  then obtain q q' where "fp_divide (fp_plus (get_total_sum (vx_vmu_sum v')) (fromC 3)) (fp_plus (fromC 4) (fromC 4)) = Inr q"
    "fp_divide (fp_plus (get_total_sum (vx_vmd_sum v')) (fromC 3)) (fp_plus (fromC 4) (fromC 4)) = Inr q'" by metis
  then have st: "?s = Inr ((q, q'), v')"
    using v'(1) t by (simp add: vortex_step_def vortex_calculate_value_def Let_def m i del: of_nat_numeral)
  show ?thesis
    by (intro exI conjI, rule st, rule vortex_keeps_first_update [OF _ _ st]) simp_all
qed

end
