(* ===== verification/Hc_Dmi.thy ===== *)
theory Hc_Dmi
  imports Hc_Indicators
begin

text \<open>
  The hand-coded directional movement index (hand_coded/dmi.cpp) computes a percentage: the smoothing
  keeps the movements below the true range, whatever the fixed-point rounding, so every quotient on
  the way is in range. The arithmetic of the moving average on raw values comes first.
\<close>

section \<open>The moving average on raw values\<close>

definition blend :: "int \<Rightarrow> int \<Rightarrow> int \<Rightarrow> int" where
  "blend a x y = (2 ^ 40 - a) * x div 2 ^ 40 + a * y div 2 ^ 40"

lemma div_sum_le: "0 < k \<Longrightarrow> a div k + b div k \<le> (a + b) div (k :: int)"
  using div_add1_eq [of a b k] by (simp add: pos_imp_zdiv_nonneg_iff)

lemma blend_bounds:
  assumes "0 \<le> a" and "a \<le> 2 ^ 40" and "0 \<le> x" and "x \<le> m" and "0 \<le> y" and "y \<le> m"
  shows "0 \<le> blend a x y" and "blend a x y \<le> m"
proof -
  have "(2 ^ 40 - a) * x div 2 ^ 40 + a * y div 2 ^ 40 \<le> ((2 ^ 40 - a) * x + a * y) div 2 ^ 40"
    by (rule div_sum_le) simp
  also have "\<dots> \<le> ((2 ^ 40 - a) * m + a * m) div 2 ^ 40"
    using assms by (intro zdiv_mono1 add_mono mult_left_mono) simp_all
  also have "(2 ^ 40 - a) * m + a * m = m * 2 ^ 40" by (simp add: algebra_simps)
  finally show "blend a x y \<le> m" by (simp add: blend_def)
  show "0 \<le> blend a x y"
    using assms by (simp add: blend_def pos_imp_zdiv_nonneg_iff)
qed

lemma blend_mono:
  assumes "0 \<le> a" and "a \<le> 2 ^ 40" and "x \<le> x'" and "y \<le> y'"
  shows "blend a x y \<le> blend a x' y'"
  unfolding blend_def using assms by (intro add_mono zdiv_mono1 mult_left_mono) simp_all

text \<open>A smoothing factor \<open>2 / (n + 1)\<close> is one or at most two thirds: a positive average stays positive.\<close>

lemma blend_pos:
  assumes "0 \<le> a" and "a = 2 ^ 40 \<or> 3 * a \<le> 2 * 2 ^ 40" and "3 \<le> x" and "1 \<le> y"
  shows "1 \<le> blend a x y"
  using assms(2)
proof
  assume "a = 2 ^ 40"
  then show ?thesis using assms(4) by (simp add: blend_def)
next
  assume "3 * a \<le> 2 * 2 ^ 40"
  then have k: "2 ^ 40 \<le> (2 ^ 40 - a) * 3" by simp
  have "(2 ^ 40 - a) * 3 \<le> (2 ^ 40 - a) * x"
    using k assms(3) by (intro mult_left_mono) simp_all
  with k have "2 ^ 40 div 2 ^ 40 \<le> (2 ^ 40 - a) * x div 2 ^ 40"
    by (intro zdiv_mono1) (linarith, simp)
  moreover have "0 \<le> a * y div 2 ^ 40"
    using assms(1,4) by (simp add: pos_imp_zdiv_nonneg_iff)
  ultimately show ?thesis by (simp add: blend_def)
qed

lemma raw_times:
  assumes "0 \<le> raw u * raw v" and "raw u * raw v < 2 ^ 102"
  shows "raw (fp_times u v) = raw u * raw v div 2 ^ 40 \<and> small (fp_times u v)"
proof -
  let ?q = "raw u * raw v div 2 ^ 40"
  have q: "0 \<le> ?q" "?q < 2 ^ 62"
    using assms by (simp_all add: pos_imp_zdiv_nonneg_iff div_less_iff_less_mult)
  have "fp_value (fp_times u v) = word_of_int ?q"
    by (simp add: fixedpt_mul_int raw_def)
  then have "raw (fp_times u v) = sint (word_of_int ?q :: fixedpt)"
    by (simp only: raw_def [of "fp_times u v"])
  also have "\<dots> = ?q"
    using q by (intro sint_word_of_int_id) simp_all
  finally show ?thesis using q by (simp add: small_def)
qed

text \<open>Values an average may take: from zero up to below \<open>2 ^ 62\<close>.\<close>

definition amount :: "FixedPt \<Rightarrow> bool" where
  "amount x \<longleftrightarrow> 0 \<le> raw x \<and> raw x < 2 ^ 62"

lemma raw_fromInt: "- (2 ^ 23) \<le> i \<Longrightarrow> i < 2 ^ 23 \<Longrightarrow> raw (fromInt i) = i * 2 ^ 40"
  by (simp add: raw_def sint_fromint)

lemma raw_ewma:
  assumes "0 \<le> raw a" and "raw a \<le> 2 ^ 40" and "amount x" and "amount y"
  shows "raw (fp_plus (fp_times (int_minus 1 a) x) (fp_times a y)) = blend (raw a) (raw x) (raw y)"
proof -
  have "raw (int_minus 1 a) = 2 ^ 40 - raw a"
    using raw_minus [of "fromInt 1" a] assms(1,2) raw_fromInt [of 1] by (simp add: int_minus_def small_def)
  moreover have "(2 ^ 40 - raw a) * raw x \<le> 2 ^ 40 * raw x" "2 ^ 40 * raw x < 2 ^ 40 * 2 ^ 62"
    using assms by (auto simp: amount_def intro: mult_right_mono)
  moreover have "raw a * raw y \<le> 2 ^ 40 * raw y" "2 ^ 40 * raw y < 2 ^ 40 * 2 ^ 62"
    using assms by (auto simp: amount_def intro: mult_right_mono)
  ultimately have "raw (fp_times (int_minus 1 a) x) = (2 ^ 40 - raw a) * raw x div 2 ^ 40 \<and> small (fp_times (int_minus 1 a) x)"
    "raw (fp_times a y) = raw a * raw y div 2 ^ 40 \<and> small (fp_times a y)"
    using raw_times [of "int_minus 1 a" x] raw_times [of a y] assms by (auto simp: amount_def)
  then show ?thesis by (simp add: raw_plus blend_def)
qed

text \<open>What a hand-coded average returns, and what it then remembers.\<close>

lemma smooth_raw:
  assumes "0 \<le> raw (eh_alfa e)" and "raw (eh_alfa e) \<le> 2 ^ 40" and "amount x"
    and "eh_initialized e \<Longrightarrow> amount (eh_last_value e)"
  shows "raw (fst (calculate_new_value e x)) =
    (if eh_initialized e then blend (raw (eh_alfa e)) (raw x) (raw (eh_last_value e)) else raw x)"
  using assms by (simp add: calculate_new_value_def raw_ewma)

lemma calculate_new_value_snd [simp]:
  "eh_initialized (snd (calculate_new_value e x))"
  "eh_alfa (snd (calculate_new_value e x)) = eh_alfa e"
  "eh_last_value (snd (calculate_new_value e x)) = (if eh_initialized e then eh_last_value e else x)"
  by (simp_all add: calculate_new_value_def)

lemma set_last_value_simps [simp]:
  "eh_initialized (set_last_value e x)" "eh_alfa (set_last_value e x) = eh_alfa e"
  "eh_last_value (set_last_value e x) = x"
  by (simp_all add: set_last_value_def)

section \<open>The invariant\<close>

fun bar_ok :: "bar \<Rightarrow> bool" where
  "bar_ok (c, h, l) \<longleftrightarrow> 0 \<le> raw l \<and> raw l \<le> raw c \<and> raw c \<le> raw h \<and> raw h < 2 ^ 62"

definition factor_ok :: "int \<Rightarrow> bool" where
  "factor_ok a \<longleftrightarrow> 0 \<le> a \<and> a \<le> 2 ^ 40 \<and> (a = 2 ^ 40 \<or> 3 * a \<le> 2 * 2 ^ 40)"

text \<open>
  Averages of a movement and of the true range that go together: same factor, same state, the
  movement below the true range.
\<close>

definition below :: "EwmaHc \<Rightarrow> EwmaHc \<Rightarrow> bool" where
  "below e t \<longleftrightarrow> eh_alfa e = eh_alfa t \<and> eh_initialized e = eh_initialized t \<and> factor_ok (raw (eh_alfa t)) \<and>
     (eh_initialized t \<longrightarrow> 0 \<le> raw (eh_last_value e) \<and> raw (eh_last_value e) \<le> raw (eh_last_value t) \<and>
       1 \<le> raw (eh_last_value t) \<and> raw (eh_last_value t) < 2 ^ 62)"

definition percent :: "FixedPt \<Rightarrow> bool" where
  "percent x \<longleftrightarrow> 0 \<le> raw x \<and> raw x \<le> 100 * 2 ^ 40"

definition dmi_inv :: "HcDmi \<Rightarrow> bool" where
  "dmi_inv d \<longleftrightarrow> bar_ok (dm_prev_close d, dm_prev_high d, dm_prev_low d) \<and>
     below (dm_ewma_pdm d) (dm_ewma_tr d) \<and> below (dm_ewma_ndm d) (dm_ewma_tr d) \<and>
     factor_ok (raw (eh_alfa (dm_ewma_dx d))) \<and>
     (eh_initialized (dm_ewma_dx d) \<longrightarrow> percent (eh_last_value (dm_ewma_dx d)))"

lemma below_smooth:
  assumes "below e t" and "0 \<le> raw x" and "raw x \<le> raw y" and "3 \<le> raw y" and "raw y < 2 ^ 62"
  shows "0 \<le> raw (fst (calculate_new_value e x))"
    and "raw (fst (calculate_new_value e x)) \<le> raw (fst (calculate_new_value t y))"
    and "1 \<le> raw (fst (calculate_new_value t y))" and "raw (fst (calculate_new_value t y)) < 2 ^ 62"
proof -
  let ?a = "raw (eh_alfa t)" and ?le = "raw (eh_last_value e)" and ?lt = "raw (eh_last_value t)"
  have am: "amount x" "amount y" using assms by (simp_all add: amount_def)
  have st: "eh_alfa e = eh_alfa t" "eh_initialized e = eh_initialized t" "factor_ok ?a"
    and l: "eh_initialized t \<Longrightarrow> 0 \<le> ?le \<and> ?le \<le> ?lt \<and> 1 \<le> ?lt \<and> ?lt < 2 ^ 62"
    using assms(1) by (auto simp: below_def)
  have a: "0 \<le> ?a" "?a \<le> 2 ^ 40" "?a = 2 ^ 40 \<or> 3 * ?a \<le> 2 * 2 ^ 40"
    using st(3) by (auto simp: factor_ok_def)
  have r: "raw (fst (calculate_new_value e x)) = (if eh_initialized t then blend ?a (raw x) ?le else raw x)"
    "raw (fst (calculate_new_value t y)) = (if eh_initialized t then blend ?a (raw y) ?lt else raw y)"
    using smooth_raw [of e x] smooth_raw [of t y] am st a l by (auto simp: amount_def)
  show "0 \<le> raw (fst (calculate_new_value e x))"
    using r(1) assms l blend_bounds(1) [OF a(1,2), of "raw x" "2 ^ 62" ?le] by auto
  show "raw (fst (calculate_new_value e x)) \<le> raw (fst (calculate_new_value t y))"
    using r l blend_mono [OF a(1,2) assms(3), of ?le ?lt] assms(3) by auto
  show "1 \<le> raw (fst (calculate_new_value t y))"
    using r(2) l blend_pos [OF a(1,3) assms(4), of ?lt] assms(4) by auto
  show "raw (fst (calculate_new_value t y)) < 2 ^ 62"
    using r(2) l blend_bounds(2) [OF a(1,2), of "raw y" "2 ^ 62 - 1" ?lt] assms by auto
qed

lemma below_kept:
  assumes "below e t" and "0 \<le> raw x" and "raw x \<le> raw y" and "3 \<le> raw y" and "raw y < 2 ^ 62"
  shows "below (snd (calculate_new_value e x)) (snd (calculate_new_value t y))"
    and "below (set_last_value (snd (calculate_new_value e x)) (fst (calculate_new_value e x)))
      (set_last_value (snd (calculate_new_value t y)) (fst (calculate_new_value t y)))"
  using assms below_smooth [OF assms] by (auto simp: below_def)

lemma movements_below_range:
  assumes "bar_ok (dm_prev_close d, dm_prev_high d, dm_prev_low d)" and "bar_ok (c, h, l)" and "3 \<le> raw h - raw l"
  shows "0 \<le> raw (hc_calculate_pdm d h l)" and "raw (hc_calculate_pdm d h l) \<le> raw (hc_calculate_tr d c h l)"
    and "0 \<le> raw (hc_calculate_ndm d h l)" and "raw (hc_calculate_ndm d h l) \<le> raw (hc_calculate_tr d c h l)"
    and "3 \<le> raw (hc_calculate_tr d c h l)" and "raw (hc_calculate_tr d c h l) < 2 ^ 62"
proof -
  have s: "small h" "small l" "small c" "small (dm_prev_close d)" "small (dm_prev_high d)" "small (dm_prev_low d)"
    using assms(1,2) by (simp_all add: small_def)
  have tr: "raw (hc_calculate_tr d c h l) =
      max (raw (dm_prev_close d) - raw l) (max (raw h - raw l) (raw h - raw (dm_prev_close d)))"
    using s by (simp add: hc_calculate_tr_def hc_max_def fp_gt_raw raw_minus max_def)
  have pdm: "raw (hc_calculate_pdm d h l) \<le> max 0 (raw h - raw (dm_prev_high d))" "0 \<le> raw (hc_calculate_pdm d h l)"
    using s by (auto simp: hc_calculate_pdm_def fp_lt_raw raw_minus)
  have ndm: "raw (hc_calculate_ndm d h l) \<le> max 0 (raw (dm_prev_low d) - raw l)" "0 \<le> raw (hc_calculate_ndm d h l)"
    using s by (auto simp: hc_calculate_ndm_def fp_lt_raw raw_minus)
  show "0 \<le> raw (hc_calculate_pdm d h l)" "0 \<le> raw (hc_calculate_ndm d h l)" using pdm ndm by simp_all
  show "raw (hc_calculate_pdm d h l) \<le> raw (hc_calculate_tr d c h l)" "raw (hc_calculate_ndm d h l) \<le> raw (hc_calculate_tr d c h l)"
    "3 \<le> raw (hc_calculate_tr d c h l)" "raw (hc_calculate_tr d c h l) < 2 ^ 62"
    using pdm ndm tr assms by auto
qed

lemma share_of:
  assumes "0 \<le> raw x" and "raw x \<le> raw y" and "1 \<le> raw y"
  obtains q where "fp_divide x y = Inr q" and "0 \<le> raw q" and "raw q \<le> 2 ^ 40"
proof -
  let ?q = "raw x * 2 ^ 40 div raw y"
  have eq: "(raw x * 2 ^ 40) sdiv raw y = ?q" using assms by (intro sdiv_nonneg) simp_all
  have b: "0 \<le> ?q" "?q \<le> 2 ^ 40"
    using assms scaled_div_le [of "2 ^ 40" "raw x" "raw y"] by (simp_all add: pos_imp_zdiv_nonneg_iff mult.commute)
  have "raw y \<noteq> 0" "- (2 ^ 63) \<le> ?q" "?q < 2 ^ 63" using assms b by simp_all
  then obtain q where "fp_divide x y = Inr q" "raw q = ?q"
    by (rule raw_divide [of y x, unfolded eq])
  with b show thesis by (intro that [of q]) simp_all
qed

lemma percent_smooth:
  assumes "factor_ok (raw (eh_alfa e))" and "eh_initialized e \<longrightarrow> percent (eh_last_value e)" and "percent x"
  shows "percent (fst (calculate_new_value e x))"
proof -
  let ?a = "raw (eh_alfa e)" and ?l = "raw (eh_last_value e)"
  have a: "0 \<le> ?a" "?a \<le> 2 ^ 40" using assms(1) by (simp_all add: factor_ok_def)
  have "raw (fst (calculate_new_value e x)) = (if eh_initialized e then blend ?a (raw x) ?l else raw x)"
    using assms a by (intro smooth_raw) (auto simp: amount_def percent_def)
  with assms blend_bounds [OF a, of "raw x" "100 * 2 ^ 40" ?l] show ?thesis
    by (auto simp: percent_def)
qed

definition dmi_step :: "HcDmi \<Rightarrow> UpdateType \<times> bar \<Rightarrow> (FixedPt \<times> HcDmi) res" where
  "dmi_step d x = (case x of (t, c, h, l) \<Rightarrow> dmi_calculate_value d c h l t)"

text \<open>Bars that move: their high and low are at least three raw units apart.\<close>

definition moving :: "UpdateType \<times> bar \<Rightarrow> bool" where
  "moving x \<longleftrightarrow> (case x of (t, c, h, l) \<Rightarrow> bar_ok (c, h, l) \<and> 3 \<le> raw h - raw l)"

lemma dmi_step_percent:
  assumes "dmi_inv d" and "moving x"
  obtains r d' where "dmi_step d x = Inr (r, d')" and "percent r" and "dmi_inv d'"
proof -
  obtain t c h l where x: "x = (t, c, h, l)" by (metis prod.exhaust)
  have bar: "bar_ok (c, h, l)" "3 \<le> raw h - raw l" using assms(2) by (simp_all add: moving_def x)
  have prev: "bar_ok (dm_prev_close d, dm_prev_high d, dm_prev_low d)"
    and be: "below (dm_ewma_pdm d) (dm_ewma_tr d)" "below (dm_ewma_ndm d) (dm_ewma_tr d)"
    and dx: "factor_ok (raw (eh_alfa (dm_ewma_dx d)))"
      "eh_initialized (dm_ewma_dx d) \<longrightarrow> percent (eh_last_value (dm_ewma_dx d))"
    using assms(1) by (auto simp: dmi_inv_def)
  note m = movements_below_range [OF prev bar]
  obtain p ep n en q et where calc: "calculate_new_value (dm_ewma_pdm d) (hc_calculate_pdm d h l) = (p, ep)"
    "calculate_new_value (dm_ewma_ndm d) (hc_calculate_ndm d h l) = (n, en)"
    "calculate_new_value (dm_ewma_tr d) (hc_calculate_tr d c h l) = (q, et)"
    by (meson surj_pair)
  note pb = below_smooth [OF be(1) m(1,2,5,6), unfolded calc prod.sel]
    and nb = below_smooth [OF be(2) m(3,4,5,6), unfolded calc prod.sel]
    and pk = below_kept [OF be(1) m(1,2,5,6), unfolded calc prod.sel]
    and nk = below_kept [OF be(2) m(3,4,5,6), unfolded calc prod.sel]
  obtain pdi where pdi: "fp_divide p q = Inr pdi" "0 \<le> raw pdi" "raw pdi \<le> 2 ^ 40" by (rule share_of [OF pb(1-3)])
  obtain ndi where ndi: "fp_divide n q = Inr ndi" "0 \<le> raw ndi" "raw ndi \<le> 2 ^ 40" by (rule share_of [OF nb(1-3)])
  let ?d1 = "d\<lparr>dm_ewma_pdm := ep, dm_ewma_ndm := en, dm_ewma_tr := et\<rparr>"
  have inv1: "dmi_inv ?d1"
    using prev pk(1) nk(1) dx by (simp add: dmi_inv_def)
  show thesis
  proof (cases "getC (fp_plus pdi ndi) = 0")
    case True
    then show thesis
      using calc pdi(1) ndi(1) inv1
      by (intro that [of "fromInt 0" ?d1]) (simp_all add: dmi_step_def x dmi_calculate_value_def Let_def percent_def)
  next
    case False
    have div: "fp_divide (int_times 100 (fpt_abs (fp_minus pdi ndi))) (fp_plus pdi ndi) = Inr (dx_value pdi ndi)"
      using False safe_ratio_eq [of "fp_plus pdi ndi"] by (simp add: dx_value_def)
    have "percent (dx_value pdi ndi)"
      using dx_value_percent [of pdi ndi] pdi ndi by (simp add: percent_def)
    from percent_smooth [OF dx this] obtain r ed where
      r: "calculate_new_value (dm_ewma_dx d) (dx_value pdi ndi) = (r, ed)" "percent r"
      by (metis prod.collapse)
    let ?d2 = "if t = ADD then ?d1\<lparr>dm_prev_close := c, dm_prev_high := h, dm_prev_low := l,
        dm_ewma_pdm := set_last_value ep p, dm_ewma_ndm := set_last_value en n,
        dm_ewma_tr := set_last_value et q, dm_ewma_dx := set_last_value ed r\<rparr> else ?d1\<lparr>dm_ewma_dx := ed\<rparr>"
    have "dmi_step d x = Inr (r, ?d2)"
      using False calc pdi(1) ndi(1) div r(1) by (simp add: dmi_step_def x dmi_calculate_value_def Let_def)
    moreover have "eh_alfa ed = eh_alfa (dm_ewma_dx d)" "eh_initialized ed"
      "percent (eh_last_value ed)"
      using calculate_new_value_snd [of "dm_ewma_dx d" "dx_value pdi ndi"] r(1) dx(2) \<open>percent (dx_value pdi ndi)\<close>
      by (auto split: if_splits)
    then have "dmi_inv ?d2"
      using bar(1) prev pk nk dx(1) r(2) by (simp add: dmi_inv_def)
    ultimately show thesis using r(2) that by blast
  qed
qed

lemma smoothing_factor:
  assumes "1 \<le> n" and "n < 2 ^ 22"
  obtains alfa where "fp_divide (fromInt 2) (fp_plus (fromInt n) (fromInt 1)) = Inr alfa" and "factor_ok (raw alfa)"
proof -
  have y: "raw (fp_plus (fromInt n) (fromInt 1)) = (n + 1) * 2 ^ 40"
    using raw_plus [of "fromInt n" "fromInt 1"] raw_fromInt [of n] raw_fromInt [of 1] assms
    by (simp add: small_def algebra_simps)
  have "(raw (fromInt 2) * 2 ^ 40) sdiv ((n + 1) * 2 ^ 40) = 2 ^ 41 * 2 ^ 40 div ((n + 1) * 2 ^ 40)"
    using raw_fromInt [of 2] assms(1) by (simp add: sdiv_nonneg)
  also have "\<dots> = 2 ^ 41 div (n + 1)"
    by (rule div_mult_mult2) simp
  finally have eq: "(raw (fromInt 2) * 2 ^ 40) sdiv ((n + 1) * 2 ^ 40) = 2 ^ 41 div (n + 1)" .
  have nn: "0 \<le> (2 :: int) ^ 41 div (n + 1)"
    using assms(1) by (simp add: pos_imp_zdiv_nonneg_iff)
  have le: "2 ^ 41 div (n + 1) \<le> (2 :: int) ^ 41 div k" if "0 < k" "k \<le> n + 1" for k
    using that by (intro zdiv_mono2) simp_all
  have "n = 1 \<or> 3 \<le> n + 1" using assms(1) by linarith
  then have f: "factor_ok (2 ^ 41 div (n + 1))"
    using nn le [of 3] by (auto simp: factor_ok_def)
  then have b: "- (2 ^ 63) \<le> (2 :: int) ^ 41 div (n + 1)" "(2 :: int) ^ 41 div (n + 1) < 2 ^ 63"
    by (simp_all add: factor_ok_def)
  have "(n + 1) * 2 ^ 40 \<noteq> 0" using assms(1) by simp
  then obtain q where "fp_divide (fromInt 2) (fp_plus (fromInt n) (fromInt 1)) = Inr q" "raw q = 2 ^ 41 div (n + 1)"
    by (rule raw_divide [of "fp_plus (fromInt n) (fromInt 1)" "fromInt 2", unfolded y eq, OF _ b])
  with f show thesis by (intro that [of q]) simp_all
qed

lemma dmi_start:
  assumes "1 \<le> n" and "n < 2 ^ 22" and "bar_ok (c, h, l)"
  obtains d where "HcDmi_ctor n = Inr d" and "dmi_inv (dmi_initialize d c h l)"
proof -
  obtain alfa where "fp_divide (fromInt 2) (fp_plus (fromInt n) (fromInt 1)) = Inr alfa" "factor_ok (raw alfa)"
    using assms(1,2) by (rule smoothing_factor)
  then obtain d where d: "HcDmi_ctor n = Inr d" "d = \<lparr>dm_prev_close = FixedPt_ctor, dm_prev_high = FixedPt_ctor,
      dm_prev_low = FixedPt_ctor, dm_ewma_pdm = set_alfa EwmaHc_ctor alfa, dm_ewma_ndm = set_alfa EwmaHc_ctor alfa,
      dm_ewma_tr = set_alfa EwmaHc_ctor alfa, dm_ewma_dx = set_alfa EwmaHc_ctor alfa\<rparr>" "factor_ok (raw alfa)"
    by (simp add: HcDmi_ctor_def)
  have "dmi_inv (dmi_initialize d c h l)"
    using assms(3) d(3) by (simp add: d(2) dmi_initialize_def dmi_inv_def below_def set_alfa_def EwmaHc_ctor_def)
  with d(1) show thesis by (rule that)
qed

lemma dmi_run_percent:
  "dmi_inv d \<Longrightarrow> list_all moving xs \<Longrightarrow>
   \<exists>outs d'. run_ops dmi_step d xs = Inr (outs, d') \<and> length outs = length xs \<and> list_all percent outs"
proof (induction xs arbitrary: d)
  case (Cons x xs)
  obtain r d' where "dmi_step d x = Inr (r, d')" "percent r" "dmi_inv d'"
    using Cons.prems by (auto elim: dmi_step_percent)
  with Cons.IH [of d'] Cons.prems(2) show ?case by auto
qed simp

text \<open>
  Property C27. The hand-coded directional movement index is a percentage: with at least 1 and fewer than \<open>2 ^ 22\<close> periods,
  for any sequence of additions and updates of bars whose prices are not negative and below \<open>2 ^ 22\<close>, with low, close and
  high in order and at least three units in the last place between low and high, every call returns, none divides by zero, and
  every result lies between 0 and 100.
\<close>

theorem dmi_is_a_percentage:
  assumes "1 \<le> n" and "n < 2 ^ 22" and "bar_ok (c, h, l)" and "list_all moving xs"
  shows "\<exists>outs. bnd (HcDmi_ctor n) (\<lambda>d. map_sum id fst (run_ops dmi_step (dmi_initialize d c h l) xs)) = Inr outs \<and>
    length outs = length xs \<and> (\<forall>r\<in>set outs. 0 \<le> raw r \<and> raw r \<le> 100 * 2 ^ 40)"
proof -
  obtain d where d: "HcDmi_ctor n = Inr d" "dmi_inv (dmi_initialize d c h l)"
    using assms(1-3) by (rule dmi_start)
  with dmi_run_percent [OF d(2) assms(4)] show ?thesis
    by (auto simp: list_all_iff percent_def)
qed

theorem dmi_is_a_percentage_witness:
  "\<exists>outs. bnd (HcDmi_ctor 13) (\<lambda>d. map_sum id fst (run_ops dmi_step (dmi_initialize d (fromC 50) (fromC 50) (fromC 50))
      [(UPDATE, fromC 55, fromC 60, fromC 50), (ADD, fromC 61, fromC 65, fromC 50)])) = Inr outs \<and>
    length outs = length [(UPDATE, fromC 55, fromC 60, fromC 50), (ADD, fromC 61, fromC 65, fromC 50)] \<and>
    (\<forall>r\<in>set outs. 0 \<le> raw r \<and> raw r \<le> 100 * 2 ^ 40)"
  by (rule dmi_is_a_percentage) (simp_all add: moving_def raw_def)

end
