(* ===== verification/Element_Steps.thy ===== *)
theory Element_Steps
  imports Stream_Elements Hc_Dmi
begin

text \<open>
  Single elements in their incremental mode, one round at a time, against the hand-coded objects: what an
  element pushes for a value of each port, and the history it stands at afterwards. The moving-average
  element follows \<open>EwmaHc\<close>, the summing element \<open>SumRingBuffer\<close>; elements of one previous round and elements
  without memory are functions of what they were last given.
\<close>

section \<open>Packets one by one\<close>

lemma run_ops_one: "run_ops f s [x] = Inr (rs, s') \<longleftrightarrow> (\<exists>a. rs = [a] \<and> f s x = Inr (a, s'))"
  by (auto simp: bnd_eq_Inr)

lemma run_ops_two:
  "run_ops f s [x, y] = Inr (rs, s') \<longleftrightarrow>
   (\<exists>a b s1. rs = [a, b] \<and> f s x = Inr (a, s1) \<and> f s1 y = Inr (b, s'))"
  by (auto simp: bnd_eq_Inr)

lemma run_ops_three:
  "run_ops f s [x, y, z] = Inr (rs, s') \<longleftrightarrow>
   (\<exists>a b c s1 s2. rs = [a, b, c] \<and> f s x = Inr (a, s1) \<and> f s1 y = Inr (b, s2) \<and> f s2 z = Inr (c, s'))"
  by (auto simp: bnd_eq_Inr)

lemma all_ports_simps [simp]:
  "all_ports 1 [(0, v)]" "all_ports (Suc 0) [(0, v)]" "all_ports 2 [(0, v), (1, w)]"
  "all_ports 2 [(0, v), (Suc 0, w)]" "all_ports 3 [(0, v), (2, u), (1, w)]" "all_ports 3 [(0, v), (2, u), (Suc 0, w)]"
  by (auto simp: all_ports_def)

lemma in_front_first: "0 < c \<Longrightarrow> in_front c arr (\<lambda>_. []) = (\<lambda>p. [the (map_of arr p)])"
  by (simp add: in_front_def fun_eq_iff)

lemma in_front_second: "2 \<le> c \<Longrightarrow> in_front c arr (\<lambda>p. [w p]) = (\<lambda>p. [the (map_of arr p), w p])"
  by (simp add: in_front_def fun_eq_iff)

lemma get_valid_simps [simp]:
  "get_valid (fromC v)" "get_valid (fromInt i)" "get_valid (fp_plus x y)" "get_valid (fp_minus x y)"
  "get_valid (fp_times x y)"
  by (simp_all add: get_valid_def)

text \<open>The first round an element gets, whatever the type of its messages.\<close>

lemma first_round:
  assumes "0 < n" and "2 \<le> c" and "0 < ts" and "all_ports n arr" and "t \<in> {MSG_ADD, MSG_UPDATE, MSG_INIT}"
    and "\<And>b'. holds b' c (\<lambda>p. [the (map_of arr p)]) \<Longrightarrow> num_ports b' = n \<Longrightarrow> initialize_element ops b' = Inr iv"
    and "lok local"
  obtains ib' where "run_ops (ib_push ops) (configured local nout n c 2) (typed_msgs rest t ts arr) =
      Inr (map (\<lambda>(p, v). KillPkt (value_packet t v ts rest)) (butlast arr) @
          [if get_valid iv then checked_output_push nout 0 (value_packet t iv ts rest)
           else KillPkt (value_packet t (snd (last arr)) ts rest)], ib')"
    and "\<And>crep. standing crep lok nout n c ts (\<lambda>p. [the (map_of arr p)]) ib'"
proof -
  have c: "0 < c" using assms(2) by simp
  obtain b' where b': "initialize_element ops b' = Inr iv"
    "\<And>mode. run_ops (ib_push ops) (configured local nout n c mode) (typed_msgs rest t ts arr) =
      Inr (map (\<lambda>(p, v). KillPkt (value_packet t v ts rest)) (butlast arr) @
          [if get_valid iv then checked_output_push nout 0 (value_packet t iv ts rest)
           else KillPkt (value_packet t (snd (last arr)) ts rest)],
        (configured local nout n c mode)\<lparr>buffers := Some b', initialized := True\<rparr>)"
    "num_ports b' = n" "tstamp b' = ts" "committed b' c (\<lambda>p. [the (map_of arr p)])"
  proof (rule typed_init_round [OF assms(1) c assms(3-5), of ops local nout rest])
    show "\<exists>iv. initialize_element ops b' = Inr iv"
      if "holds b' c (in_front c arr (\<lambda>_. []))" "num_ports b' = n" for b'
      using assms(6) [of b'] that by (simp add: in_front_first [OF c])
  qed (use assms(6) in \<open>auto simp: in_front_first [OF c]\<close>)
  let ?ib = "(configured local nout n c 2)\<lparr>buffers := Some b', initialized := True\<rparr>"
  have "standing crep lok nout n c ts (\<lambda>p. [the (map_of arr p)]) ?ib" for crep
    using assms(1,2,7) b'(3-5)
    by (simp add: standing_def tracks_def configured_def ib_configure_def IndicatorBase_ctor_def)
  with b'(2) [of 2] show thesis by (rule that)
qed

section \<open>Moving averages\<close>

text \<open>An element of the graph that stands where a hand-coded average stands.\<close>

definition ewma_at :: "nat \<Rightarrow> 64 word \<Rightarrow> EwmaHc \<Rightarrow> IndicatorBase \<Rightarrow> bool" where
  "ewma_at c t e ib \<longleftrightarrow>
     (if eh_initialized e
      then \<exists>w. w 0 = eh_last_value e \<and> standing (keeps_average (eh_alfa e)) (sized 2) 1 1 c t (\<lambda>p. [w p]) ib
      else ib = configured Ewma_ctor 1 1 c 2)"

text \<open>What the hand-coded indicators do with one of their averages: take a value in, keep the result on an addition.\<close>

definition ewma_next :: "bool \<Rightarrow> EwmaHc \<Rightarrow> FixedPt \<Rightarrow> EwmaHc" where
  "ewma_next temp e v =
     (case calculate_new_value e v of (x, e') \<Rightarrow> if temp then e' else set_last_value e' x)"

lemma Ewma_first:
  assumes "2 \<le> c" and "0 < ts" and "get_valid v" and "t \<in> {MSG_ADD, MSG_UPDATE, MSG_INIT}"
  obtains ib' w where "ib_push (Ewma_ops a) (configured Ewma_ctor 1 1 c 2) (0, value_packet t v ts rest) =
      Inr (PushOut 0 (value_packet t v ts rest), ib')"
    and "w 0 = v" and "\<And>crep. standing crep (sized 2) 1 1 c ts (\<lambda>p. [w p]) ib'"
proof -
  have loc: "sized 2 Ewma_ctor" by (simp add: Ewma_ctor_def sized_def)
  have iv: "initialize_element (Ewma_ops a) b' = Inr v"
    if "holds b' c (\<lambda>p. [the (map_of [(0, v)] p)])" "num_ports b' = 1" for b'
    using peek_newest(1) [OF that] by (simp add: Ewma_ops_def Ewma_initialize_element_def)
  obtain ib' where ib': "run_ops (ib_push (Ewma_ops a)) (configured Ewma_ctor 1 1 c 2) (typed_msgs rest t ts [(0, v)]) =
      Inr (map (\<lambda>(p, v). KillPkt (value_packet t v ts rest)) (butlast [(0 :: nat, v)]) @
          [if get_valid v then checked_output_push 1 0 (value_packet t v ts rest)
           else KillPkt (value_packet t (snd (last [(0 :: nat, v)])) ts rest)], ib')"
    "\<And>crep. standing crep (sized 2) 1 1 c ts (\<lambda>p. [the (map_of [(0, v)] p)]) ib'"
    using first_round [where lok = "sized 2", OF zero_less_one assms(1,2) all_ports_simps(1) assms(4) iv loc] by blast
  from ib' assms(3) show thesis
    by (intro that [of ib' "\<lambda>p. the (map_of [(0, v)] p)"])
      (simp_all add: typed_msgs_def checked_output_push_def run_ops_one del: run_ops.simps)
qed

lemma ewma_at_push:
  assumes "ewma_at c t e ib" and "2 \<le> c" and "t < ts" and "get_valid v"
  obtains ib' where "ib_push (Ewma_ops (eh_alfa e)) ib (0, value_packet (round_type temp) v ts rest) =
      Inr (PushOut 0 (value_packet (round_type temp) (fst (calculate_new_value e v)) ts rest), ib')"
    and "ewma_at c ts (ewma_next temp e v) ib'"
proof (cases "eh_initialized e")
  case False
  have "0 < ts" using assms(3) by (rule le_less_trans [OF word_zero_le])
  then obtain ib' w where ib': "ib_push (Ewma_ops (eh_alfa e)) (configured Ewma_ctor 1 1 c 2)
      (0, value_packet (round_type temp) v ts rest) = Inr (PushOut 0 (value_packet (round_type temp) v ts rest), ib')"
    "w 0 = v" "\<And>crep. standing crep (sized 2) 1 1 c ts (\<lambda>p. [w p]) ib'"
    using Ewma_first [OF assms(2) _ assms(4) round_type_simps(4), of ts "eh_alfa e" temp rest] by blast
  with False assms(1) show thesis
    by (intro that [of ib'])
      (auto simp: ewma_at_def ewma_next_def calculate_new_value_def set_last_value_def)
next
  case True
  with assms(1) obtain w where w: "w 0 = eh_last_value e"
    "standing (keeps_average (eh_alfa e)) (sized 2) 1 1 c t (\<lambda>p. [w p]) ib"
    by (auto simp: ewma_at_def)
  let ?x = "fst (calculate_new_value e v)" and ?arr = "[(0, v)] :: (nat \<times> FixedPt) list"
  have ad: "length (the (map_of ?arr 0) # [w 0]) \<le> c" using assms(2) by simp
  obtain ib' where ib': "run_ops (ib_push (Ewma_ops (eh_alfa e))) ib (round_msgs rest (temp, ts, ?arr)) =
      Inr (round_actions rest 1 (temp, ts, ?arr) (ewma_window (eh_alfa e) (in_front c ?arr (\<lambda>p. [w p]) 0)), ib')"
    "standing (keeps_average (eh_alfa e)) (sized 2) 1 1 c ts (if temp then \<lambda>p. [w p] else in_front c ?arr (\<lambda>p. [w p])) ib'"
    "temp \<or> op_mode ib' = NORMAL"
    by (rule ewma.standing_round [OF w(2) assms(2,3) all_ports_simps(1) ad])
  have x: "ewma_window (eh_alfa e) (in_front c ?arr (\<lambda>p. [w p]) 0) = ?x"
    using True w(1) by (simp add: in_front_second [OF assms(2)] calculate_new_value_def)
  have "standing (keeps_average (eh_alfa e)) (sized 2) 1 1 c ts (\<lambda>p. [?x]) ib'" if "\<not> temp"
    by (rule ewma.standing_change [OF ib'(2)]) (use that ib'(3) x assms(2) in \<open>auto simp: keeps_average_def\<close>)
  then have "ewma_at c ts (ewma_next temp e v) ib'"
    using True w ib'(2) by (cases temp) (auto simp: ewma_at_def ewma_next_def calculate_new_value_def set_last_value_def)
  with ib'(1) show thesis
    by (intro that [of ib'])
      (simp_all add: x round_msgs_eq typed_msgs_def round_actions_def checked_output_push_def run_ops_one del: run_ops.simps)
qed

section \<open>Elements of one previous round\<close>

lemma invalid_not_valid [simp]: "\<not> get_valid invalid_result"
  by (simp add: invalid_result_def get_valid_def set_valid_def)

context previous_round
begin

abbreviation prev_at :: "nat \<Rightarrow> nat \<Rightarrow> 64 word \<Rightarrow> (nat \<Rightarrow> FixedPt) \<Rightarrow> IndicatorBase \<Rightarrow> bool" where
  "prev_at nout c t w ib \<equiv> standing (\<lambda>_ cache X. keeps cache (\<lambda>p. X p ! 0)) (sized k) nout n c t (\<lambda>p. [w p]) ib"

lemma prev_round:
  assumes "prev_at nout c t w ib" and "2 \<le> c" and "t < ts" and "all_ports n arr"
  obtains ib' where "run_ops (ib_push ops) ib (typed_msgs rest (round_type temp) ts arr) =
      Inr (round_actions rest nout (temp, ts, arr) (h (\<lambda>p. the (map_of arr p)) w), ib')"
    and "prev_at nout c ts (if temp then w else (\<lambda>p. the (map_of arr p))) ib'"
proof -
  let ?v = "\<lambda>p. the (map_of arr p)" and ?keeps = "\<lambda>_ cache X. keeps cache (\<lambda>p. X p ! 0)"
  obtain ib' where ib': "run_ops (ib_push ops) ib (round_msgs rest (temp, ts, arr)) =
      Inr (round_actions rest nout (temp, ts, arr)
        (h (\<lambda>p. in_front c arr (\<lambda>p. [w p]) p ! 0) (\<lambda>p. in_front c arr (\<lambda>p. [w p]) p ! Suc 0)), ib')"
    "standing ?keeps (sized k) nout n c ts (if temp then \<lambda>p. [w p] else in_front c arr (\<lambda>p. [w p])) ib'"
    "temp \<or> op_mode ib' = NORMAL"
    by (rule standing_round [OF assms TrueI])
  have "prev_at nout c ts ?v ib'" if "\<not> temp"
    by (rule standing_change [OF ib'(2)]) (use that ib'(3) assms(2) in \<open>simp_all add: in_front_second\<close>)
  with ib' assms(2) show thesis
    by (intro that [of ib']) (auto simp: in_front_second round_msgs_eq)
qed

lemma prev_first:
  assumes "\<And>b. initialize_element ops b = Inr invalid_result" and "sized k local" and "2 \<le> c" and "0 < ts"
    and "all_ports n arr" and "t \<in> {MSG_ADD, MSG_UPDATE, MSG_INIT}"
  obtains ib' where "run_ops (ib_push ops) (configured local nout n c 2) (typed_msgs rest t ts arr) =
      Inr (map (\<lambda>(p, v). KillPkt (value_packet t v ts rest)) (butlast arr) @
        [KillPkt (value_packet t (snd (last arr)) ts rest)], ib')"
    and "prev_at nout c ts (\<lambda>p. the (map_of arr p)) ib'"
proof -
  obtain ib' where "run_ops (ib_push ops) (configured local nout n c 2) (typed_msgs rest t ts arr) =
      Inr (map (\<lambda>(p, v). KillPkt (value_packet t v ts rest)) (butlast arr) @
          [if get_valid invalid_result then checked_output_push nout 0 (value_packet t invalid_result ts rest)
           else KillPkt (value_packet t (snd (last arr)) ts rest)], ib')"
    "\<And>crep. standing crep (sized k) nout n c ts (\<lambda>p. [the (map_of arr p)]) ib'"
    using first_round [where lok = "sized k", OF ports assms(3-6) assms(1) assms(2)] by blast
  then show thesis by (intro that [of ib']) simp_all
qed

end

text \<open>Elements of one previous round take in the prices of a bar packet by packet.\<close>

context previous_round
begin

lemma prev_push_two:
  assumes "n = 2" and "prev_at nout c t w ib" and "2 \<le> c" and "t < ts"
  obtains ib1 ib' w' where "ib_push ops ib (0, value_packet (round_type temp) x ts rest) =
      Inr (KillPkt (value_packet (round_type temp) x ts rest), ib1)"
    and "ib_push ops ib1 (1, value_packet (round_type temp) y ts rest) =
      Inr (checked_output_push nout 0 (value_packet (round_type temp) (h (\<lambda>p. the (map_of [(0, x), (1, y)] p)) w) ts rest), ib')"
    and "prev_at nout c ts w' ib'" and "w' 0 = (if temp then w 0 else x)" and "w' 1 = (if temp then w 1 else y)"
proof -
  let ?arr = "[(0, x), (1, y)] :: (nat \<times> FixedPt) list"
  obtain ib' where ib': "run_ops (ib_push ops) ib (typed_msgs rest (round_type temp) ts ?arr) =
      Inr (round_actions rest nout (temp, ts, ?arr) (h (\<lambda>p. the (map_of ?arr p)) w), ib')"
    "prev_at nout c ts (if temp then w else (\<lambda>p. the (map_of ?arr p))) ib'"
    using prev_round [OF assms(2-4), of ?arr rest temp] assms(1) by (auto simp del: One_nat_def)
  from ib'(1) obtain ib1 where "ib_push ops ib (0, value_packet (round_type temp) x ts rest) =
      Inr (KillPkt (value_packet (round_type temp) x ts rest), ib1)"
    "ib_push ops ib1 (1, value_packet (round_type temp) y ts rest) =
      Inr (checked_output_push nout 0 (value_packet (round_type temp) (h (\<lambda>p. the (map_of ?arr p)) w) ts rest), ib')"
    by (auto simp: typed_msgs_def round_actions_def run_ops_two simp del: run_ops.simps)
  from this ib'(2) show thesis by (rule that) simp_all
qed

lemma prev_push_three:
  assumes "n = 3" and "prev_at nout c t w ib" and "2 \<le> c" and "t < ts"
  obtains ib1 ib2 ib' w' where "ib_push ops ib (0, value_packet (round_type temp) x ts rest) =
      Inr (KillPkt (value_packet (round_type temp) x ts rest), ib1)"
    and "ib_push ops ib1 (2, value_packet (round_type temp) z ts rest) =
      Inr (KillPkt (value_packet (round_type temp) z ts rest), ib2)"
    and "ib_push ops ib2 (1, value_packet (round_type temp) y ts rest) =
      Inr (checked_output_push nout 0 (value_packet (round_type temp) (h (\<lambda>p. the (map_of [(0, x), (2, z), (1, y)] p)) w) ts rest), ib')"
    and "prev_at nout c ts w' ib'" and "w' 2 = (if temp then w 2 else z)"
proof -
  let ?arr = "[(0, x), (2, z), (1, y)] :: (nat \<times> FixedPt) list"
  obtain ib' where ib': "run_ops (ib_push ops) ib (typed_msgs rest (round_type temp) ts ?arr) =
      Inr (round_actions rest nout (temp, ts, ?arr) (h (\<lambda>p. the (map_of ?arr p)) w), ib')"
    "prev_at nout c ts (if temp then w else (\<lambda>p. the (map_of ?arr p))) ib'"
    using prev_round [OF assms(2-4), of ?arr rest temp] assms(1) by (auto simp del: One_nat_def)
  from ib'(1) obtain ib1 ib2 where "ib_push ops ib (0, value_packet (round_type temp) x ts rest) =
      Inr (KillPkt (value_packet (round_type temp) x ts rest), ib1)"
    "ib_push ops ib1 (2, value_packet (round_type temp) z ts rest) =
      Inr (KillPkt (value_packet (round_type temp) z ts rest), ib2)"
    "ib_push ops ib2 (1, value_packet (round_type temp) y ts rest) =
      Inr (checked_output_push nout 0 (value_packet (round_type temp) (h (\<lambda>p. the (map_of ?arr p)) w) ts rest), ib')"
    by (auto simp: typed_msgs_def round_actions_def run_ops_three simp del: run_ops.simps)
  from this ib'(2) show thesis by (rule that) simp_all
qed

end

context previous_round
begin

lemma prev_first_two:
  assumes "n = 2" and "\<And>b. initialize_element ops b = Inr invalid_result" and "sized k local" and "2 \<le> c" and "0 < ts"
  obtains ib1 ib' w where "ib_push ops (configured local nout 2 c 2) (0, value_packet MSG_INIT x ts rest) =
      Inr (KillPkt (value_packet MSG_INIT x ts rest), ib1)"
    and "ib_push ops ib1 (1, value_packet MSG_INIT y ts rest) = Inr (KillPkt (value_packet MSG_INIT y ts rest), ib')"
    and "prev_at nout c ts w ib'" and "w 0 = x" and "w 1 = y"
proof -
  let ?arr = "[(0, x), (1, y)] :: (nat \<times> FixedPt) list"
  have ap: "all_ports n ?arr" and ty: "MSG_INIT \<in> {MSG_ADD, MSG_UPDATE, MSG_INIT}"
    using assms(1) by (simp_all add: all_ports_simps del: One_nat_def)
  obtain ib' where ib': "run_ops (ib_push ops) (configured local nout n c 2) (typed_msgs rest MSG_INIT ts ?arr) =
      Inr (map (\<lambda>(p, v). KillPkt (value_packet MSG_INIT v ts rest)) (butlast ?arr) @
        [KillPkt (value_packet MSG_INIT (snd (last ?arr)) ts rest)], ib')" "prev_at nout c ts (\<lambda>p. the (map_of ?arr p)) ib'"
    by (rule prev_first [OF assms(2-5) ap ty])
  from ib'(1) obtain ib1 where "ib_push ops (configured local nout 2 c 2) (0, value_packet MSG_INIT x ts rest) =
      Inr (KillPkt (value_packet MSG_INIT x ts rest), ib1)"
    "ib_push ops ib1 (1, value_packet MSG_INIT y ts rest) = Inr (KillPkt (value_packet MSG_INIT y ts rest), ib')"
    by (auto simp: typed_msgs_def run_ops_two assms(1) simp del: run_ops.simps)
  from this ib'(2) show thesis by (rule that) simp_all
qed

lemma prev_first_three:
  assumes "n = 3" and "\<And>b. initialize_element ops b = Inr invalid_result" and "sized k local" and "2 \<le> c" and "0 < ts"
  obtains ib1 ib2 ib' w where "ib_push ops (configured local nout 3 c 2) (0, value_packet MSG_INIT x ts rest) =
      Inr (KillPkt (value_packet MSG_INIT x ts rest), ib1)"
    and "ib_push ops ib1 (2, value_packet MSG_INIT z ts rest) = Inr (KillPkt (value_packet MSG_INIT z ts rest), ib2)"
    and "ib_push ops ib2 (1, value_packet MSG_INIT y ts rest) = Inr (KillPkt (value_packet MSG_INIT y ts rest), ib')"
    and "prev_at nout c ts w ib'" and "w 2 = z"
proof -
  let ?arr = "[(0, x), (2, z), (1, y)] :: (nat \<times> FixedPt) list"
  have ap: "all_ports n ?arr" and ty: "MSG_INIT \<in> {MSG_ADD, MSG_UPDATE, MSG_INIT}"
    using assms(1) by (simp_all add: all_ports_simps del: One_nat_def)
  obtain ib' where ib': "run_ops (ib_push ops) (configured local nout n c 2) (typed_msgs rest MSG_INIT ts ?arr) =
      Inr (map (\<lambda>(p, v). KillPkt (value_packet MSG_INIT v ts rest)) (butlast ?arr) @
        [KillPkt (value_packet MSG_INIT (snd (last ?arr)) ts rest)], ib')" "prev_at nout c ts (\<lambda>p. the (map_of ?arr p)) ib'"
    by (rule prev_first [OF assms(2-5) ap ty])
  from ib'(1) obtain ib1 ib2 where "ib_push ops (configured local nout 3 c 2) (0, value_packet MSG_INIT x ts rest) =
      Inr (KillPkt (value_packet MSG_INIT x ts rest), ib1)"
    "ib_push ops ib1 (2, value_packet MSG_INIT z ts rest) = Inr (KillPkt (value_packet MSG_INIT z ts rest), ib2)"
    "ib_push ops ib2 (1, value_packet MSG_INIT y ts rest) = Inr (KillPkt (value_packet MSG_INIT y ts rest), ib')"
    by (auto simp: typed_msgs_def run_ops_three assms(1) simp del: run_ops.simps)
  from this ib'(2) show thesis by (rule that) simp_all
qed

end

definition tr_at :: "64 word \<Rightarrow> FixedPt \<Rightarrow> IndicatorBase \<Rightarrow> bool" where
  "tr_at t pc ib \<longleftrightarrow> (\<exists>w. new_tr.prev_at 1 10 t w ib \<and> w 2 = pc)"

lemma tr_push:
  assumes "tr_at t pc ib" and "t < ts"
  obtains ib1 ib2 ib' where "ib_push NewTrueRange_ops ib (0, value_packet (round_type temp) h ts rest) =
      Inr (KillPkt (value_packet (round_type temp) h ts rest), ib1)"
    and "ib_push NewTrueRange_ops ib1 (2, value_packet (round_type temp) c ts rest) =
      Inr (KillPkt (value_packet (round_type temp) c ts rest), ib2)"
    and "ib_push NewTrueRange_ops ib2 (1, value_packet (round_type temp) l ts rest) =
      Inr (PushOut 0 (value_packet (round_type temp) (calculate_tr l h pc) ts rest), ib')"
    and "tr_at ts (if temp then pc else c) ib'"
proof -
  obtain w where w: "new_tr.prev_at 1 10 t w ib" "w 2 = pc"
    using assms(1) unfolding tr_at_def by blast
  have "2 \<le> (10 :: nat)" by simp
  then show thesis
  proof (rule new_tr.prev_push_three [OF refl w(1) _ assms(2), of temp h rest c l], goal_cases)
    case (1 ib1 ib2 ib' w')
    with w show ?case by (intro that [of ib1 ib2 ib']) (auto simp: tr_at_def checked_output_push_def)
  qed
qed

lemma starts_invalid:
  "initialize_element Pdm_ops b = Inr invalid_result" "initialize_element Ndm_ops b = Inr invalid_result"
  "initialize_element NewTrueRange_ops b = Inr invalid_result" "initialize_element Vmu_ops b = Inr invalid_result"
  "initialize_element Vmd_ops b = Inr invalid_result"
  by (simp_all add: Pdm_ops_def Pdm_initialize_element_def Ndm_ops_def Ndm_initialize_element_def NewTrueRange_ops_def
      NewTrueRange_initialize_element_def Vmu_ops_def Vmu_initialize_element_def Vmd_ops_def Vmd_initialize_element_def)

section \<open>Elements without memory\<close>

definition pair_at :: "nat \<Rightarrow> nat \<Rightarrow> 64 word \<Rightarrow> IndicatorBase \<Rightarrow> bool" where
  "pair_at nout c t ib \<longleftrightarrow>
     ib = configured [CacheStruct_ctor] nout 2 c 2 \<or>
     (\<exists>w. standing (\<lambda>_ _ _. True) (sized 1) nout 2 c t (\<lambda>p. [w p]) ib)"

context memoryless_pair
begin

lemma pair_push:
  assumes "pair_at nout c t ib" and "2 \<le> c" and "t < ts" and "get_valid (h x y)"
  obtains ib1 ib' where "ib_push ops ib (0, value_packet (round_type temp) x ts rest) =
      Inr (KillPkt (value_packet (round_type temp) x ts rest), ib1)"
    and "ib_push ops ib1 (1, value_packet (round_type temp) y ts rest) =
      Inr (checked_output_push nout 0 (value_packet (round_type temp) (h x y) ts rest), ib')"
    and "pair_at nout c ts ib'"
proof -
  let ?arr = "[(0, x), (1, y)] :: (nat \<times> FixedPt) list"
  have "\<exists>ib'. run_ops (ib_push ops) ib (typed_msgs rest (round_type temp) ts ?arr) =
      Inr (round_actions rest nout (temp, ts, ?arr) (h x y), ib') \<and> pair_at nout c ts ib'"
    using assms(1) [unfolded pair_at_def]
  proof (elim disjE exE)
    assume ib: "ib = configured [CacheStruct_ctor] nout 2 c 2"
    have ts: "0 < ts" using assms(3) by (rule le_less_trans [OF word_zero_le])
    have iv: "initialize_element ops b' = Inr (h x y)"
      if "holds b' c (\<lambda>p. [the (map_of ?arr p)])" "num_ports b' = 2" for b'
      using peek_newest [OF that] by (simp add: init_eq naive_eq)
    have loc: "sized 1 [CacheStruct_ctor]" by (simp add: sized_def)
    obtain ib' where ib': "run_ops (ib_push ops) ib (typed_msgs rest (round_type temp) ts ?arr) =
        Inr (round_actions rest nout (temp, ts, ?arr) (h x y), ib')"
      "\<And>crep. standing crep (sized 1) nout 2 c ts (\<lambda>p. [the (map_of ?arr p)]) ib'"
      using first_round [where lok = "sized 1" and nout = nout and rest = rest,
          OF ports assms(2) ts all_ports_simps(3) round_type_simps(4) [of temp] iv loc] assms(4)
      unfolding ib by (auto simp: round_actions_def)
    from ib'(2) have "pair_at nout c ts ib'"
      unfolding pair_at_def by (intro disjI2 exI [where x = "\<lambda>p. the (map_of ?arr p)"])
    with ib'(1) show ?thesis by blast
  next
    fix w assume st: "standing (\<lambda>_ _ _. True) (sized 1) nout 2 c t (\<lambda>p. [w p]) ib"
    obtain ib' where ib': "run_ops (ib_push ops) ib (round_msgs rest (temp, ts, ?arr)) =
        Inr (round_actions rest nout (temp, ts, ?arr)
          (h (in_front c ?arr (\<lambda>p. [w p]) 0 ! 0) (in_front c ?arr (\<lambda>p. [w p]) (Suc 0) ! 0)), ib')"
      "standing (\<lambda>_ _ _. True) (sized 1) nout 2 c ts (if temp then \<lambda>p. [w p] else in_front c ?arr (\<lambda>p. [w p])) ib'"
      "temp \<or> op_mode ib' = NORMAL"
      by (rule standing_round [OF st assms(2,3) all_ports_simps(3) TrueI])
    have "standing (\<lambda>_ _ _. True) (sized 1) nout 2 c ts (\<lambda>p. [w p]) ib'"
      using ib'(2,3) standing_change [OF ib'(2)] assms(2) by (cases temp) simp_all
    then have "pair_at nout c ts ib'" unfolding pair_at_def by (intro disjI2 exI)
    moreover have "run_ops (ib_push ops) ib (typed_msgs rest (round_type temp) ts ?arr) =
        Inr (round_actions rest nout (temp, ts, ?arr) (h x y), ib')"
      using ib'(1) assms(2) by (simp add: in_front_second round_msgs_eq)
    ultimately show ?thesis by blast
  qed
  then show thesis
    by (auto simp: typed_msgs_def round_actions_def run_ops_two simp del: run_ops.simps intro: that)
qed

end

section \<open>The rate of change of an average\<close>

definition trix_value :: "FixedPt \<Rightarrow> FixedPt \<Rightarrow> FixedPt" where
  "trix_value v prev = int_times 100 (projr (fp_divide (fp_minus v prev) prev))"

definition keeps_newest :: "nat \<Rightarrow> VectorCache \<Rightarrow> (nat \<Rightarrow> FixedPt list) \<Rightarrow> bool" where
  "keeps_newest c cache X \<longleftrightarrow> sized 2 cache \<and> cs_value (cache ! 1) = X 0 ! 0"

text \<open>Past its start, \<open>Trix\<close> is an incremental element wherever the previous average is not zero.\<close>

interpretation trix: incremental_step Trix_ops 1 "\<lambda>X. trix_value (X 0 ! 0) (X 0 ! Suc 0)" keeps_newest "sized 2"
  "\<lambda>_ X. fp_value (X 0 ! Suc 0) \<noteq> 0"
proof unfold_locales
  fix c cache X loc and v :: "nat \<Rightarrow> FixedPt"
  assume kp: "keeps_newest c cache X" and c: "2 \<le> c" "\<forall>p < 1. X p \<noteq> [] \<and> length (X p) \<le> c"
    and loc: "sized 2 loc" and nz: "fp_value ((v 0 # X 0) ! Suc 0) \<noteq> 0"
  obtain q where q: "fp_divide (fp_minus (v 0) (X 0 ! 0)) (X 0 ! 0) = Inr (fromC q)"
    using fp_divide_ok [of "X 0 ! 0"] nz by auto
  then show "\<exists>loc'. process_opt_ext Trix_ops loc (map v [0..<1]) cache = Inr loc' \<and>
      first_value loc' = Inr (trix_value (take c (v 0 # X 0) ! 0) (take c (v 0 # X 0) ! Suc 0)) \<and>
      keeps_newest c loc' (\<lambda>p. take c (v p # X p)) \<and> sized 2 loc'"
    using kp c loc by (auto simp: Trix_ops_def Trix_process_opt_ext_def keeps_newest_def trix_value_def
        take_window sized_simps)
qed simp

lemma Trix_startup:
  assumes "holds b c (\<lambda>p. [v p, w p])" and "num_ports b = 1" and "sized 2 loc" and "fp_value (w 0) \<noteq> 0"
  obtains loc' y where "process_ext Trix_ops loc b = Inr loc'" and "first_value loc' = Inr y"
    and "sized 2 loc'" and "cs_value (loc' ! 1) = v 0"
proof -
  have nv: "process_naive Trix_ops b = fp_divide (int_times 100 (fp_minus (v 0) (w 0))) (w 0)"
    using Trix_naive_rep [OF assms(1,2)] by simp
  obtain q where q: "fp_divide (int_times 100 (fp_minus (v 0) (w 0))) (w 0) = Inr (fromC q)"
    using fp_divide_ok [OF assms(4)] by blast
  have pk: "peek b 0 0 = Inr (v 0)"
    using peek_newest(1) [OF assms(1,2)] by simp
  have "process_ext Trix_ops loc b = bnd (set_cache loc 0 (fromC q)) (\<lambda>l. set_cache l 1 (v 0))"
    using nv q pk by (simp add: Trix_ops_def Trix_process_ext_def)
  with assms(3) that show thesis by (auto simp: sized_simps)
qed

abbreviation trix_at :: "nat \<Rightarrow> 64 word \<Rightarrow> (nat \<Rightarrow> FixedPt) \<Rightarrow> IndicatorBase \<Rightarrow> bool" where
  "trix_at c t w ib \<equiv> standing keeps_newest (sized 2) 1 1 c t (\<lambda>p. [w p]) ib"

lemma trix_startup_push:
  assumes "tracks STARTUP ib 1 c t (\<lambda>p. [w p])" and "sized 2 (local_cache ib)" and "noutputs ib = 1"
    and "2 \<le> c" and "t < ts" and "fp_value (w 0) \<noteq> 0"
  obtains y ib' where "run_ops (ib_push Trix_ops) ib (round_msgs rest (temp, ts, [(0, v)])) =
      Inr (round_actions rest 1 (temp, ts, [(0, v)]) y, ib')"
    and "trix_at c ts (if temp then w else (\<lambda>p. the (map_of [(0, v)] p))) ib'" and "temp \<or> op_mode ib' = NORMAL"
proof -
  let ?arr = "[(0, v)] :: (nat \<times> FixedPt) list" and ?v = "\<lambda>p. the (map_of [(0 :: nat, v)] p)"
  have c: "0 < c" using assms(4) by simp
  have st: "active ib" "initialized ib" "op_mode ib = STARTUP" and tmp: "temporary ib (round_type temp) = temp"
    using assms(1) by (auto simp: tracks_def temporary_def)
  obtain b b' where "buffers ib = Some b" and b': "num_ports b' = 1" "tstamp b' = ts" "is_update_complete b'"
    "holds b' c (in_front c ?arr (\<lambda>p. [w p]))"
    "committed b' c (if temporary ib (round_type temp) then (\<lambda>p. [w p]) else in_front c ?arr (\<lambda>p. [w p]))"
    "temporary ib (round_type temp) \<or> bstate b' = ACCUMULATED"
    and run: "\<forall>ops rest. ends_with ops ib rest temp ts ?arr b'"
    by (rule tracks_round [OF assms(1) zero_less_one c assms(5) all_ports_simps(1) [of v], of temp])
  obtain loc y where loc: "process_ext Trix_ops (local_cache ib) b' = Inr loc" "first_value loc = Inr y"
    "sized 2 loc" "cs_value (loc ! 1) = ?v 0"
    by (rule Trix_startup [OF b'(4) [unfolded in_front_second [OF assms(4)]] b'(1) assms(2,6)])
  let ?ib = "(if temp then ib else ib\<lparr>ib_cache := loc, op_mode := NORMAL\<rparr>)\<lparr>buffers := Some b', local_cache := loc\<rparr>"
  have "run_ops (ib_push Trix_ops) ib (round_msgs rest (temp, ts, ?arr)) =
      Inr (round_actions rest 1 (temp, ts, ?arr) y, ?ib)"
    by (rule ends_withD [OF run [rule_format]])
      (use st tmp loc b'(3) assms(3) push_startup_last [of "ib\<lparr>buffers := Some _\<rparr>"] in \<open>cases temp; simp\<close>)
  moreover have "trix_at c ts (if temp then w else ?v) ?ib"
    using st tmp b' loc assms(3,4)
    by (cases temp) (auto simp: standing_def tracks_def keeps_newest_def in_front_second)
  ultimately show thesis by (intro that [of y ?ib]) auto
qed

lemma trix_push:
  assumes "trix_at c t w ib" and "2 \<le> c" and "t < ts" and "fp_value (w 0) \<noteq> 0"
  obtains y ib' w' where "ib_push Trix_ops ib (0, value_packet (round_type temp) v ts rest) =
      Inr (PushOut 0 (value_packet (round_type temp) y ts rest), ib')"
    and "trix_at c ts w' ib'" and "w' 0 = (if temp then w 0 else v)"
    and "\<not> temp \<or> op_mode ib = NORMAL \<longrightarrow> op_mode ib' = NORMAL" and "op_mode ib = NORMAL \<longrightarrow> y = trix_value v (w 0)"
proof -
  let ?arr = "[(0, v)] :: (nat \<times> FixedPt) list" and ?v = "\<lambda>p. the (map_of [(0 :: nat, v)] p)"
  have st: "noutputs ib = 1" "sized 2 (local_cache ib)" "\<forall>p < 1. [w p] \<noteq> [] \<and> length [w p] \<le> c"
    "tracks STARTUP ib 1 c t (\<lambda>p. [w p]) \<or> (\<exists>Z. tracks NORMAL ib 1 c t Z \<and> keeps_newest c (ib_cache ib) (\<lambda>p. [w p]))"
    using assms(1) by (simp_all add: standing_def)
  have "\<exists>y ib' w'. run_ops (ib_push Trix_ops) ib (round_msgs rest (temp, ts, ?arr)) =
      Inr (round_actions rest 1 (temp, ts, ?arr) y, ib') \<and> trix_at c ts w' ib' \<and> w' 0 = (if temp then w 0 else v) \<and>
      (\<not> temp \<or> op_mode ib = NORMAL \<longrightarrow> op_mode ib' = NORMAL) \<and> (op_mode ib = NORMAL \<longrightarrow> y = trix_value v (w 0))"
    using st(4)
  proof (elim disjE exE conjE)
    assume tr: "tracks STARTUP ib 1 c t (\<lambda>p. [w p])"
    obtain y ib' where ib': "run_ops (ib_push Trix_ops) ib (round_msgs rest (temp, ts, ?arr)) =
        Inr (round_actions rest 1 (temp, ts, ?arr) y, ib')"
      "trix_at c ts (if temp then w else ?v) ib'" "temp \<or> op_mode ib' = NORMAL"
      by (rule trix_startup_push [OF tr st(2,1) assms(2-4)])
    moreover have "op_mode ib = STARTUP" using tr by (simp add: tracks_def)
    ultimately show ?thesis
      by (intro exI [of _ y] exI [of _ ib'] exI [of _ "if temp then w else ?v"]) auto
  next
    fix Z assume tr: "tracks NORMAL ib 1 c t Z" and kp: "keeps_newest c (ib_cache ib) (\<lambda>p. [w p])"
    have nz: "fp_value ((the (map_of ?arr 0) # [w 0]) ! Suc 0) \<noteq> 0" using assms(4) by simp
    let ?X = "if temp then \<lambda>p. [w p] else in_front c ?arr (\<lambda>p. [w p])" and ?w = "if temp then w else ?v"
    obtain ib' Z' where ib': "run_ops (ib_push Trix_ops) ib (round_msgs rest (temp, ts, ?arr)) =
        Inr (round_actions rest (noutputs ib) (temp, ts, ?arr)
          (trix_value (in_front c ?arr (\<lambda>p. [w p]) 0 ! 0) (in_front c ?arr (\<lambda>p. [w p]) 0 ! Suc 0)), ib')"
      "tracks NORMAL ib' 1 c ts Z'" "noutputs ib' = noutputs ib" "sized 2 (local_cache ib')"
      "keeps_newest c (ib_cache ib') ?X"
      by (rule trix.normal_round [OF tr assms(2,3) all_ports_simps(1) st(3,2) kp nz])
    have "keeps_newest c (ib_cache ib') (\<lambda>p. [?w p])"
      using ib'(5) assms(2) by (auto simp: keeps_newest_def in_front_second)
    moreover have "op_mode ib' = NORMAL" using ib'(2) by (simp add: tracks_def)
    ultimately show ?thesis
      using ib' st(1) assms(2)
      by (intro exI [of _ "trix_value v (w 0)"] exI [of _ ib'] exI [of _ ?w]) (auto simp: standing_def in_front_second)
  qed
  then show thesis
    by (auto simp: round_msgs_eq typed_msgs_def round_actions_def checked_output_push_def run_ops_one
        simp del: run_ops.simps intro: that)
qed

section \<open>Sums\<close>

text \<open>The summing element after the values \<open>xs\<close> were added, oldest first.\<close>

definition sum_at :: "nat \<Rightarrow> 64 word \<Rightarrow> FixedPt list \<Rightarrow> IndicatorBase \<Rightarrow> bool" where
  "sum_at c t xs ib \<longleftrightarrow>
     (if xs = [] then ib = configured Sum_ctor 1 1 c 2
      else \<exists>X. X 0 = rev (window c xs) \<and> standing keeps_window sum_local_ok 1 1 c t X ib)"

lemma rev_window_snoc: "0 < c \<Longrightarrow> take c (v # rev (window c xs)) = rev (window c (xs @ [v]))"
  by (cases c) (simp_all add: window_snoc, simp add: window_def rev_drop min_def)

lemma fp_sum_single: "get_valid v \<Longrightarrow> fp_sum [v] = v"
  by (simp add: fp_sum_def fromC_cong get_valid_def)

lemma sum_window_rev: "2 \<le> length ys \<Longrightarrow> sum_window (rev ys) = fp_sum ys"
  by (simp add: sum_window_raw fp_sum_def rev_map [symmetric] sum_list_rev)

lemma sum_at_push:
  assumes "sum_at c t xs ib" and "2 \<le> c" and "t < ts" and "get_valid v"
  obtains ib' where "ib_push Sum_ops ib (0, value_packet (round_type temp) v ts rest) =
      Inr (PushOut 0 (value_packet (round_type temp) (fp_sum (window c (xs @ [v]))) ts rest), ib')"
    and "sum_at c ts (if temp \<and> xs \<noteq> [] then xs else xs @ [v]) ib'"
proof -
  let ?arr = "[(0, v)] :: (nat \<times> FixedPt) list" and ?x = "fp_sum (window c (xs @ [v]))"
  have c: "0 < c" using assms(2) by simp
  have "\<exists>ib'. run_ops (ib_push Sum_ops) ib (typed_msgs rest (round_type temp) ts ?arr) =
      Inr (round_actions rest 1 (temp, ts, ?arr) ?x, ib') \<and> sum_at c ts (if temp \<and> xs \<noteq> [] then xs else xs @ [v]) ib'"
  proof (cases "xs = []")
    case True
    then have x: "?x = v" using c assms(4) by (simp add: window_def fp_sum_single)
    have ts: "0 < ts" using assms(3) by (rule le_less_trans [OF word_zero_le])
    have iv: "initialize_element Sum_ops b' = Inr v"
      if "holds b' c (\<lambda>p. [the (map_of ?arr p)])" "num_ports b' = 1" for b'
      using peek_newest(1) [OF that] by (simp add: Sum_ops_def Sum_initialize_element_def)
    have loc: "sum_local_ok Sum_ctor" by (rule sized_ctors(13))
    obtain ib' where ib': "run_ops (ib_push Sum_ops) (configured Sum_ctor 1 1 c 2) (typed_msgs rest (round_type temp) ts ?arr) =
        Inr (round_actions rest 1 (temp, ts, ?arr) ?x, ib')"
      "\<And>crep. standing crep sum_local_ok 1 1 c ts (\<lambda>p. [the (map_of ?arr p)]) ib'"
      using first_round [where lok = sum_local_ok and nout = 1 and rest = rest,
          OF zero_less_one assms(2) ts all_ports_simps(1) round_type_simps(4) [of temp] iv loc] assms(4) x
      by (auto simp: round_actions_def)
    have "sum_at c ts [v] ib'"
      using ib'(2) c unfolding sum_at_def by (auto simp: window_def intro!: exI [of _ "\<lambda>p. [the (map_of ?arr p)]"])
    with True assms(1) ib'(1) show ?thesis by (auto simp: sum_at_def)
  next
    case False
    with assms(1) obtain X where X: "X 0 = rev (window c xs)" "standing keeps_window sum_local_ok 1 1 c t X ib"
      by (auto simp: sum_at_def)
    obtain ib' where ib': "run_ops (ib_push Sum_ops) ib (round_msgs rest (temp, ts, ?arr)) =
        Inr (round_actions rest 1 (temp, ts, ?arr) (sum_window (in_front c ?arr X 0)), ib')"
      "standing keeps_window sum_local_ok 1 1 c ts (if temp then X else in_front c ?arr X) ib'"
      "temp \<or> op_mode ib' = NORMAL"
      by (rule summ.standing_round [OF X(2) assms(2,3) all_ports_simps(1) TrueI])
    have w: "in_front c ?arr X 0 = rev (window c (xs @ [v]))"
      using X(1) rev_window_snoc [OF c] by (simp add: in_front_def)
    have "2 \<le> length (window c (xs @ [v]))"
      using False assms(2) by (cases xs) (simp_all add: length_window)
    then have "sum_window (in_front c ?arr X 0) = ?x" by (simp add: w sum_window_rev)
    moreover have "sum_at c ts (if temp \<and> xs \<noteq> [] then xs else xs @ [v]) ib'"
      using False X(1) ib'(2) w by (cases temp) (auto simp: sum_at_def)
    ultimately show ?thesis using ib'(1) by (auto simp: round_msgs_eq)
  qed
  then show thesis
    by (auto simp: typed_msgs_def round_actions_def checked_output_push_def run_ops_one simp del: run_ops.simps intro: that)
qed

end
