(* ===== verification/Click_Graph.thy ===== *)
theory Click_Graph
  imports Element_Steps
begin

text \<open>
  Graphs of elements as the configurations in src/indicator_configs put them together, and the way Click
  moves a packet through them: pushing to an output calls the connected element before the pushing
  element goes on, so the packets an element sends are taken to their end one after the other. The
  graphs here begin at the \<open>Timestamper\<close> behind the \<open>TradeProcessor\<close> and end where the \<open>StatPrinter\<close> gets its
  packets.
\<close>

section \<open>The router\<close>

datatype element =
    Indicator indicator_ops IndicatorBase
  | Split nat SourceSplit
  | Tee nat
  | Stamp Timestamper
  | Sink "Packet list"

text \<open>\<open>tsc\<close> is the reading of the time-stamp counter while a packet travels.\<close>

fun element_push :: "64 word \<Rightarrow> element \<Rightarrow> int \<times> Packet \<Rightarrow> (action list \<times> element) res" where
  "element_push tsc (Indicator ops ib) x = bnd (ib_push ops ib x) (\<lambda>(a, ib'). Inr ([a], Indicator ops ib'))"
| "element_push tsc (Split nout ss) x = bnd (ss_push nout ss (snd x)) (\<lambda>acts. Inr (acts, Split nout ss))"
| "element_push tsc (Tee n) x = bnd (ReuseTee_push n (snd x)) (\<lambda>acts. Inr (acts, Tee n))"
| "element_push tsc (Stamp t) x =
     bnd (tst_simple_action tsc tsc t (snd x)) (\<lambda>(p, t'). Inr ([PushOut 0 p], Stamp t'))"
| "element_push tsc (Sink log) x = Inr ([], Sink (log @ [snd x]))"

type_synonym 'n wiring = "(('n \<times> nat) \<times> ('n \<times> nat)) list"

definition targets :: "'n wiring \<Rightarrow> 'n \<Rightarrow> action list \<Rightarrow> ('n \<times> int \<times> Packet) list" where
  "targets conns e acts =
     concat (map (\<lambda>a. case a of KillPkt _ \<Rightarrow> []
                      | PushOut i p \<Rightarrow> (case map_of conns (e, i) of None \<Rightarrow> []
                                        | Some (e', j) \<Rightarrow> [(e', int j, p)])) acts)"

text \<open>The packets still to be delivered, the next one first; None if they never run out.\<close>

partial_function (option) router_run :: "'n wiring \<Rightarrow> 64 word \<Rightarrow> ('n \<Rightarrow> element) \<Rightarrow> ('n \<times> int \<times> Packet) list \<Rightarrow>
    (fault + ('n \<Rightarrow> element)) option" where
  "router_run conns tsc net work =
     (case work of
        [] \<Rightarrow> Some (Inr net)
      | w # ws \<Rightarrow>
          (case element_push tsc (net (fst w)) (snd w) of
             Inl f \<Rightarrow> Some (Inl f)
           | Inr r \<Rightarrow> router_run conns tsc (net(fst w := snd r)) (targets conns (fst w) (fst r) @ ws)))"

declare router_run.simps [code]

text \<open>A source message as the \<open>TradeProcessor\<close> hands it on, with the counter reading at that time.\<close>

record source_msg =
  sm_type :: PacketAppType
  sm_tsc :: "64 word"
  sm_msg :: MsgSource
  sm_rest :: "byte list"

definition source_packet :: "source_msg \<Rightarrow> Packet" where
  "source_packet x = \<lparr>pdata = put_MsgSource (sm_msg x) @ sm_rest x, packet_app_type = sm_type x\<rparr>"

primrec feed :: "'n wiring \<Rightarrow> 'n \<Rightarrow> ('n \<Rightarrow> element) \<Rightarrow> source_msg list \<Rightarrow> (fault + ('n \<Rightarrow> element)) option" where
  "feed conns entry net [] = Some (Inr net)"
| "feed conns entry net (x # xs) =
     (case router_run conns (sm_tsc x) net [(entry, 0, source_packet x)] of
        None \<Rightarrow> None
      | Some (Inl f) \<Rightarrow> Some (Inl f)
      | Some (Inr net') \<Rightarrow> feed conns entry net' xs)"

section \<open>The configurations\<close>

text \<open>trix_opt.click\<close>

datatype trix_node = T_tstamp | T_split_1 | T_ewma_1 | T_ewma_2 | T_ewma_3 | T_trix | T_stats

definition trix_wiring :: "trix_node wiring" where
  "trix_wiring =
     [((T_tstamp, 0), (T_split_1, 0)), ((T_split_1, 0), (T_ewma_1, 0)), ((T_ewma_1, 0), (T_ewma_2, 0)),
      ((T_ewma_2, 0), (T_ewma_3, 0)), ((T_ewma_3, 0), (T_trix, 0)), ((T_trix, 0), (T_stats, 0))]"

definition trix_opt :: "(trix_node \<Rightarrow> element) res" where
  "trix_opt =
     bnd (Ewma_alpha (Some 13)) (\<lambda>alpha.
       let ewma = Indicator (Ewma_ops alpha) (configured Ewma_ctor 1 1 13 2)
       in Inr (\<lambda>e. case e of
            T_tstamp \<Rightarrow> Stamp Timestamper_ctor
          | T_split_1 \<Rightarrow> Split 1 (SourceSplit_ctor\<lparr>close_port := 0\<rparr>)
          | T_ewma_1 \<Rightarrow> ewma | T_ewma_2 \<Rightarrow> ewma | T_ewma_3 \<Rightarrow> ewma
          | T_trix \<Rightarrow> Indicator Trix_ops (configured Trix_ctor 1 1 13 2)
          | T_stats \<Rightarrow> Sink []))"

text \<open>dmi_opt.click; without BUF_SIZE the buffers hold ten values.\<close>

datatype dmi_node = D_tstamp | D_split_1 | D_tee_high | D_tee_low | D_pdm | D_ndm | D_tr
  | D_ewma_pdm | D_ewma_ndm | D_ewma_tr | D_tee_ewma_tr | D_pdi | D_ndi | D_dx | D_ewma_dx | D_stats

definition dmi_wiring :: "dmi_node wiring" where
  "dmi_wiring =
     [((D_tstamp, 0), (D_split_1, 0)), ((D_split_1, 0), (D_tee_high, 0)), ((D_split_1, 1), (D_tee_low, 0)),
      ((D_split_1, 2), (D_tr, 2)),
      ((D_tee_high, 0), (D_pdm, 0)), ((D_tee_high, 1), (D_ndm, 0)), ((D_tee_high, 2), (D_tr, 0)),
      ((D_tee_low, 0), (D_pdm, 1)), ((D_tee_low, 1), (D_ndm, 1)), ((D_tee_low, 2), (D_tr, 1)),
      ((D_pdm, 0), (D_ewma_pdm, 0)), ((D_ndm, 0), (D_ewma_ndm, 0)), ((D_tr, 0), (D_ewma_tr, 0)),
      ((D_ewma_tr, 0), (D_tee_ewma_tr, 0)), ((D_ewma_pdm, 0), (D_pdi, 0)), ((D_ewma_ndm, 0), (D_ndi, 0)),
      ((D_tee_ewma_tr, 0), (D_pdi, 1)), ((D_tee_ewma_tr, 1), (D_ndi, 1)),
      ((D_pdi, 0), (D_dx, 0)), ((D_ndi, 0), (D_dx, 1)), ((D_dx, 0), (D_ewma_dx, 0)), ((D_ewma_dx, 0), (D_stats, 0))]"

definition dmi_opt :: "(dmi_node \<Rightarrow> element) res" where
  "dmi_opt =
     bnd (Ewma_alpha (Some 13)) (\<lambda>alpha.
       let ewma = Indicator (Ewma_ops alpha) (configured Ewma_ctor 1 1 13 2)
       in Inr (\<lambda>e. case e of
            D_tstamp \<Rightarrow> Stamp Timestamper_ctor
          | D_split_1 \<Rightarrow> Split 3 (SourceSplit_ctor\<lparr>high_port := 0, low_port := 1, close_port := 2\<rparr>)
          | D_tee_high \<Rightarrow> Tee 3 | D_tee_low \<Rightarrow> Tee 3 | D_tee_ewma_tr \<Rightarrow> Tee 2
          | D_pdm \<Rightarrow> Indicator Pdm_ops (configured Pdm_ctor 1 2 10 2)
          | D_ndm \<Rightarrow> Indicator Ndm_ops (configured Ndm_ctor 1 2 10 2)
          | D_tr \<Rightarrow> Indicator NewTrueRange_ops (configured NewTrueRange_ctor 1 3 10 2)
          | D_ewma_pdm \<Rightarrow> ewma | D_ewma_ndm \<Rightarrow> ewma | D_ewma_tr \<Rightarrow> ewma | D_ewma_dx \<Rightarrow> ewma
          | D_pdi \<Rightarrow> Indicator Pdi_ops (configured Pdi_ctor 1 2 10 2)
          | D_ndi \<Rightarrow> Indicator Ndi_ops (configured Ndi_ctor 1 2 10 2)
          | D_dx \<Rightarrow> Indicator Dx_ops (configured Dx_ctor 1 2 10 2)
          | D_stats \<Rightarrow> Sink []))"

text \<open>vortex_opt.click; the output of \<open>viu\<close> is not connected.\<close>

datatype vortex_node = V_tstamp | V_split_1 | V_tee_high | V_tee_low | V_vmu | V_vmd | V_tr
  | V_sum_vmu | V_sum_vmd | V_sum_tr | V_tee_sum_tr | V_viu | V_vid | V_stats

definition vortex_wiring :: "vortex_node wiring" where
  "vortex_wiring =
     [((V_tstamp, 0), (V_split_1, 0)), ((V_split_1, 0), (V_tee_high, 0)), ((V_split_1, 1), (V_tee_low, 0)),
      ((V_split_1, 2), (V_tr, 2)),
      ((V_tee_high, 0), (V_vmu, 0)), ((V_tee_high, 1), (V_vmd, 0)), ((V_tee_high, 2), (V_tr, 0)),
      ((V_tee_low, 0), (V_vmu, 1)), ((V_tee_low, 1), (V_vmd, 1)), ((V_tee_low, 2), (V_tr, 1)),
      ((V_vmu, 0), (V_sum_vmu, 0)), ((V_vmd, 0), (V_sum_vmd, 0)), ((V_tr, 0), (V_sum_tr, 0)),
      ((V_sum_tr, 0), (V_tee_sum_tr, 0)), ((V_sum_vmu, 0), (V_viu, 0)), ((V_sum_vmd, 0), (V_vid, 0)),
      ((V_tee_sum_tr, 0), (V_viu, 1)), ((V_tee_sum_tr, 1), (V_vid, 1)), ((V_vid, 0), (V_stats, 0))]"

definition vortex_opt :: "vortex_node \<Rightarrow> element" where
  "vortex_opt =
     (let sum = Indicator Sum_ops (configured Sum_ctor 1 1 13 2)
      in (\<lambda>e. case e of
            V_tstamp \<Rightarrow> Stamp Timestamper_ctor
          | V_split_1 \<Rightarrow> Split 3 (SourceSplit_ctor\<lparr>high_port := 0, low_port := 1, close_port := 2\<rparr>)
          | V_tee_high \<Rightarrow> Tee 3 | V_tee_low \<Rightarrow> Tee 3 | V_tee_sum_tr \<Rightarrow> Tee 2
          | V_vmu \<Rightarrow> Indicator Vmu_ops (configured Vmu_ctor 1 2 10 2)
          | V_vmd \<Rightarrow> Indicator Vmd_ops (configured Vmd_ctor 1 2 10 2)
          | V_tr \<Rightarrow> Indicator NewTrueRange_ops (configured NewTrueRange_ctor 1 3 10 2)
          | V_sum_vmu \<Rightarrow> sum | V_sum_vmd \<Rightarrow> sum | V_sum_tr \<Rightarrow> sum
          | V_viu \<Rightarrow> Indicator Viu_ops (configured Viu_ctor 0 2 10 2)
          | V_vid \<Rightarrow> Indicator Vid_ops (configured Vid_ctor 1 2 10 2)
          | V_stats \<Rightarrow> Sink []))"

section \<open>Steps of the router\<close>

lemma router_done [simp]: "router_run conns tsc net [] = Some (Inr net)"
  by (simp add: router_run.simps)

lemma router_Cons:
  "router_run conns tsc net ((e, x) # ws) =
   (case element_push tsc (net e) x of
      Inl f \<Rightarrow> Some (Inl f)
    | Inr r \<Rightarrow> router_run conns tsc (net(e := snd r)) (targets conns e (fst r) @ ws))"
  by (simp add: router_run.simps [of conns tsc net "(e, x) # ws"] split: sum.split)

end
