(* ===== verification/Graph_Results.thy ===== *)
theory Graph_Results
  imports Click_Graph
begin

text \<open>
  The graphs of Click elements compute what the hand-coded indicators compute: for every stream of
  source messages with increasing time stamps the packets that reach the end of the graph carry the
  values of the hand-coded object fed with the same prices.
\<close>

lemma run_ops_length: "run_ops f s xs = Inr (rs, s') \<Longrightarrow> length rs = length xs"
  by (induction xs arbitrary: s rs) (auto simp: bnd_eq_Inr)

section \<open>Source messages\<close>

text \<open>The time stamp a message has behind the \<open>Timestamper\<close>.\<close>

definition stamp_of :: "source_msg \<Rightarrow> 64 word" where
  "stamp_of x = (if sm_type x = MSG_UPDATE_SOURCE then sm_tsc x else ms_timestamp (sm_msg x))"

definition stamped :: "source_msg \<Rightarrow> Packet" where
  "stamped x = \<lparr>pdata = put_MsgSource ((sm_msg x)\<lparr>ms_timestamp := stamp_of x\<rparr>) @ sm_rest x,
     packet_app_type = sm_type x\<rparr>"

definition tail_of :: "source_msg \<Rightarrow> byte list" where
  "tail_of x = drop 24 (put_MsgSource ((sm_msg x)\<lparr>ms_timestamp := stamp_of x\<rparr>)) @ sm_rest x"

text \<open>The packet that carries a value of the round a source message starts.\<close>

definition carry :: "source_msg \<Rightarrow> FixedPt \<Rightarrow> Packet" where
  "carry x v = value_packet (split_type (sm_type x)) v (stamp_of x) (tail_of x)"

text \<open>Messages that go on after the first one: additions and updates, each later than the one before.\<close>

definition provisional :: "source_msg \<Rightarrow> bool" where
  "provisional x \<longleftrightarrow> sm_type x = MSG_UPDATE_SOURCE"

fun later :: "64 word \<Rightarrow> source_msg list \<Rightarrow> bool" where
  "later t [] \<longleftrightarrow> True"
| "later t (x # xs) \<longleftrightarrow> sm_type x \<in> {MSG_ADD_SOURCE, MSG_UPDATE_SOURCE} \<and> length (sm_rest x) < 200 \<and>
     t < stamp_of x \<and> later (stamp_of x) xs"

definition first_msg :: "source_msg \<Rightarrow> bool" where
  "first_msg x \<longleftrightarrow> sm_type x = MSG_INIT_SOURCE \<and> length (sm_rest x) < 200 \<and> 0 < stamp_of x"

definition hc_type :: "source_msg \<Rightarrow> UpdateType" where
  "hc_type x = (if provisional x then UPDATE else ADD)"

definition hc_bar :: "source_msg \<Rightarrow> bar" where
  "hc_bar x = (fromC (ms_close (sm_msg x)), fromC (ms_high (sm_msg x)), fromC (ms_low (sm_msg x)))"

definition logged :: "Packet \<Rightarrow> (FixedPt \<times> 64 word) res" where
  "logged p = bnd (get_MsgValue (pdata p)) (\<lambda>m. Inr (mv_value m, mv_timestamp m))"

lemma logged_carry [simp]: "logged (carry x v) = Inr (v, stamp_of x)"
  by (simp add: logged_def carry_def)

lemma enter:
  "element_push (sm_tsc x) (Stamp Timestamper_ctor) (0, source_packet x) =
   Inr ([PushOut 0 (stamped x)], Stamp Timestamper_ctor)" if "sm_type x \<noteq> MSG_UPDATE"
proof -
  have "(sm_msg x)\<lparr>ms_timestamp := ms_timestamp (sm_msg x)\<rparr> = sm_msg x" by simp
  with that show ?thesis
    by (auto simp: tst_simple_action_def Timestamper_ctor_def stamp_at_def get_packet_app_type_def
        source_packet_def stamped_def stamp_of_def put64_at_MsgSource)
qed

lemma split_push:
  assumes "sm_type x \<in> {MSG_ADD_SOURCE, MSG_UPDATE_SOURCE, MSG_INIT_SOURCE}"
  shows "element_push tsc (Split nout ss) (i, stamped x) =
    Inr (map (\<lambda>(port, v). checked_output_push nout port (carry x (fromC v)))
         (filter (\<lambda>(port, v). port \<ge> 0)
           [(open_port ss, ms_open (sm_msg x)), (high_port ss, ms_high (sm_msg x)), (close_port ss, ms_close (sm_msg x)),
            (low_port ss, ms_low (sm_msg x)), (volume_port ss, fixedpt_fromint (sint (ms_volume (sm_msg x))))]) @
         [KillPkt (stamped x)], Split nout ss)"
  using ss_push_values [OF assms, of nout ss "(sm_msg x)\<lparr>ms_timestamp := stamp_of x\<rparr>" "sm_rest x"]
  by (simp add: stamped_def carry_def value_packet_def tail_of_def)

lemma carry_round:
  "sm_type x \<in> {MSG_ADD_SOURCE, MSG_UPDATE_SOURCE} \<Longrightarrow>
   carry x v = value_packet (round_type (provisional x)) v (stamp_of x) (tail_of x)"
  by (auto simp: carry_def split_type_def round_type_def provisional_def)

lemma indicator_push:
  "ib_push ops ib (i, p) = Inr (a, ib') \<Longrightarrow> element_push tsc (Indicator ops ib) (i, p) = Inr ([a], Indicator ops ib')"
  by simp

lemma targets_simps [simp]:
  "targets conns e [] = []" "targets conns e (KillPkt p # acts) = targets conns e acts"
  "targets conns e (PushOut i p # acts) =
     (case map_of conns (e, i) of None \<Rightarrow> [] | Some (e', j) \<Rightarrow> [(e', int j, p)]) @ targets conns e acts"
  by (simp_all add: targets_def)

lemma length_carry: "length (sm_rest x) < 200 \<Longrightarrow> length (pdata (carry x v)) < COPY_MSG_MAX_LEN"
  by (simp add: carry_def value_packet_def tail_of_def COPY_MSG_MAX_LEN_def)

lemma tee_push:
  assumes "length (sm_rest x) < 200"
  shows "element_push tsc (Tee 2) (i, carry x v) = Inr ([PushOut 0 (carry x v), PushOut 1 (carry x v)], Tee 2)"
    "element_push tsc (Tee 3) (i, carry x v) =
     Inr ([PushOut 0 (carry x v), PushOut 1 (carry x v), PushOut 2 (carry x v)], Tee 3)"
  using tees_push [of 2 "carry x v"] tees_push [of 3 "carry x v"] length_carry [OF assms]
  by (simp_all add: numeral_2_eq_2 numeral_3_eq_3)

section \<open>Trix\<close>

lemma trix_calculate_next:
  assumes "eh_initialized (tx_ewma_3 tx)"
    and "v1 = fst (calculate_new_value (tx_ewma_1 tx) v)" and "v2 = fst (calculate_new_value (tx_ewma_2 tx) v1)"
    and "v3 = fst (calculate_new_value (tx_ewma_3 tx) v2)"
  shows "trix_calculate_value tx v ty =
    bnd (fp_divide (fp_minus v3 (eh_last_value (tx_ewma_3 tx))) (eh_last_value (tx_ewma_3 tx))) (\<lambda>q.
      Inr (int_times 100 q, \<lparr>tx_ewma_1 = ewma_next (ty \<noteq> ADD) (tx_ewma_1 tx) v,
        tx_ewma_2 = ewma_next (ty \<noteq> ADD) (tx_ewma_2 tx) v1, tx_ewma_3 = ewma_next (ty \<noteq> ADD) (tx_ewma_3 tx) v2\<rparr>))"
  using assms(1) unfolding assms(2-4)
  by (simp add: trix_calculate_value_def case_prod_unfold ewma_next_def get_last_value_def Let_def)

text \<open>A state of the graph that stands where a hand-coded \<open>Trix\<close> stands.\<close>

definition trix_net :: "HcTrix \<Rightarrow> IndicatorBase \<Rightarrow> IndicatorBase \<Rightarrow> IndicatorBase \<Rightarrow> IndicatorBase \<Rightarrow> Packet list \<Rightarrow>
    trix_node \<Rightarrow> element" where
  "trix_net tx i1 i2 i3 i4 log =
     (\<lambda>e. case e of
        T_tstamp \<Rightarrow> Stamp Timestamper_ctor
      | T_split_1 \<Rightarrow> Split 1 (SourceSplit_ctor\<lparr>close_port := 0\<rparr>)
      | T_ewma_1 \<Rightarrow> Indicator (Ewma_ops (eh_alfa (tx_ewma_1 tx))) i1
      | T_ewma_2 \<Rightarrow> Indicator (Ewma_ops (eh_alfa (tx_ewma_2 tx))) i2
      | T_ewma_3 \<Rightarrow> Indicator (Ewma_ops (eh_alfa (tx_ewma_3 tx))) i3
      | T_trix \<Rightarrow> Indicator Trix_ops i4
      | T_stats \<Rightarrow> Sink log)"

definition trix_stand :: "64 word \<Rightarrow> HcTrix \<Rightarrow> (nat \<Rightarrow> FixedPt) \<Rightarrow> IndicatorBase \<Rightarrow> IndicatorBase \<Rightarrow> IndicatorBase \<Rightarrow>
    IndicatorBase \<Rightarrow> bool" where
  "trix_stand t tx w i1 i2 i3 i4 \<longleftrightarrow>
     eh_initialized (tx_ewma_1 tx) \<and> eh_initialized (tx_ewma_2 tx) \<and> eh_initialized (tx_ewma_3 tx) \<and>
     ewma_at 13 t (tx_ewma_1 tx) i1 \<and> ewma_at 13 t (tx_ewma_2 tx) i2 \<and> ewma_at 13 t (tx_ewma_3 tx) i3 \<and>
     trix_at 13 t w i4 \<and> w 0 = eh_last_value (tx_ewma_3 tx)"

definition trix_follows :: "bool \<Rightarrow> 64 word \<Rightarrow> HcTrix \<Rightarrow> Packet list \<Rightarrow> (trix_node \<Rightarrow> element) \<Rightarrow> bool" where
  "trix_follows normal t tx log net \<longleftrightarrow>
     (\<exists>i1 i2 i3 i4 w. net = trix_net tx i1 i2 i3 i4 log \<and> trix_stand t tx w i1 i2 i3 i4 \<and>
       (normal \<longrightarrow> op_mode i4 = NORMAL))"

lemma trix_followsI:
  "trix_stand t tx w i1 i2 i3 i4 \<Longrightarrow> (normal \<longrightarrow> op_mode i4 = NORMAL) \<Longrightarrow>
   trix_follows normal t tx log (trix_net tx i1 i2 i3 i4 log)"
  unfolding trix_follows_def by blast

lemma ewma_next_simps [simp]:
  "eh_initialized (ewma_next temp e v)" "eh_alfa (ewma_next temp e v) = eh_alfa e"
  by (simp_all add: ewma_next_def case_prod_unfold)

lemma ewma_next_last:
  "eh_last_value (ewma_next temp e v) = (if temp then (if eh_initialized e then eh_last_value e else v)
     else fst (calculate_new_value e v))"
  by (simp add: ewma_next_def case_prod_unfold)

lemma trix_net_simps:
  "trix_net tx i1 i2 i3 i4 log T_tstamp = Stamp Timestamper_ctor"
  "trix_net tx i1 i2 i3 i4 log T_split_1 = Split 1 (SourceSplit_ctor\<lparr>close_port := 0\<rparr>)"
  "trix_net tx i1 i2 i3 i4 log T_ewma_1 = Indicator (Ewma_ops (eh_alfa (tx_ewma_1 tx))) i1"
  "trix_net tx i1 i2 i3 i4 log T_ewma_2 = Indicator (Ewma_ops (eh_alfa (tx_ewma_2 tx))) i2"
  "trix_net tx i1 i2 i3 i4 log T_ewma_3 = Indicator (Ewma_ops (eh_alfa (tx_ewma_3 tx))) i3"
  "trix_net tx i1 i2 i3 i4 log T_trix = Indicator Trix_ops i4"
  "trix_net tx i1 i2 i3 i4 log T_stats = Sink log"
  by (simp_all add: trix_net_def)

lemma trix_net_run:
  assumes "sm_type x \<in> {MSG_ADD_SOURCE, MSG_UPDATE_SOURCE, MSG_INIT_SOURCE}"
    and "ib_push (Ewma_ops (eh_alfa (tx_ewma_1 tx))) i1 (0, carry x (fromC (ms_close (sm_msg x)))) = Inr (PushOut 0 p1, j1)"
    and "ib_push (Ewma_ops (eh_alfa (tx_ewma_2 tx))) i2 (0, p1) = Inr (PushOut 0 p2, j2)"
    and "ib_push (Ewma_ops (eh_alfa (tx_ewma_3 tx))) i3 (0, p2) = Inr (PushOut 0 p3, j3)"
    and "ib_push Trix_ops i4 (0, p3) = Inr (PushOut 0 p4, j4)"
  shows "router_run trix_wiring (sm_tsc x) (trix_net tx i1 i2 i3 i4 log) [(T_tstamp, 0, source_packet x)] =
    Some (Inr (trix_net tx j1 j2 j3 j4 (log @ [p4])))"
proof -
  have "sm_type x \<noteq> MSG_UPDATE" using assms(1) by auto
  note steps = enter [OF this] split_push [OF assms(1)]
  have net: "(trix_net tx i1 i2 i3 i4 log)(T_tstamp := Stamp Timestamper_ctor,
      T_split_1 := Split 1 (SourceSplit_ctor\<lparr>close_port := 0\<rparr>),
      T_ewma_1 := Indicator (Ewma_ops (eh_alfa (tx_ewma_1 tx))) j1,
      T_ewma_2 := Indicator (Ewma_ops (eh_alfa (tx_ewma_2 tx))) j2,
      T_ewma_3 := Indicator (Ewma_ops (eh_alfa (tx_ewma_3 tx))) j3,
      T_trix := Indicator Trix_ops j4, T_stats := Sink (log @ [p4])) = trix_net tx j1 j2 j3 j4 (log @ [p4])"
    by (rule ext) (simp add: trix_net_def split: trix_node.split)
  show ?thesis
    unfolding net [symmetric]
    using assms(2-5) by (simp add: router_Cons steps trix_net_simps trix_wiring_def checked_output_push_def
        SourceSplit_ctor_def del: element_push.simps(2,4))
qed


lemma trix_net_cong:
  "eh_alfa (tx_ewma_1 tx) = eh_alfa (tx_ewma_1 tx') \<Longrightarrow> eh_alfa (tx_ewma_2 tx) = eh_alfa (tx_ewma_2 tx') \<Longrightarrow>
   eh_alfa (tx_ewma_3 tx) = eh_alfa (tx_ewma_3 tx') \<Longrightarrow> trix_net tx = trix_net tx'"
  by (intro ext) (simp add: trix_net_def split: trix_node.split)

definition trix_step :: "HcTrix \<Rightarrow> source_msg \<Rightarrow> (FixedPt \<times> HcTrix) res" where
  "trix_step tx x = trix_calculate_value tx (fromC (ms_close (sm_msg x))) (hc_type x)"

lemma trix_follows_round:
  assumes "trix_follows normal t tx log net" and "later t (x # xs)" and "trix_step tx x = Inr (r, tx')"
  obtains net' y where "router_run trix_wiring (sm_tsc x) net [(T_tstamp, 0, source_packet x)] = Some (Inr net')"
    and "trix_follows (normal \<or> \<not> provisional x) (stamp_of x) tx' (log @ [carry x y]) net'" and "normal \<Longrightarrow> y = r"
proof -
  let ?ts = "stamp_of x" and ?tmp = "provisional x" and ?v = "fromC (ms_close (sm_msg x))"
  define v1 where "v1 = fst (calculate_new_value (tx_ewma_1 tx) ?v)"
  define v2 where "v2 = fst (calculate_new_value (tx_ewma_2 tx) v1)"
  define v3 where "v3 = fst (calculate_new_value (tx_ewma_3 tx) v2)"
  have ty: "sm_type x \<in> {MSG_ADD_SOURCE, MSG_UPDATE_SOURCE}" "sm_type x \<in> {MSG_ADD_SOURCE, MSG_UPDATE_SOURCE, MSG_INIT_SOURCE}"
    and ts: "t < ?ts" using assms(2) by auto
  have c: "2 \<le> (13 :: nat)" by simp
  obtain i1 i2 i3 i4 w where net: "net = trix_net tx i1 i2 i3 i4 log" and st: "trix_stand t tx w i1 i2 i3 i4"
    and nm: "normal \<longrightarrow> op_mode i4 = NORMAL"
    using assms(1) unfolding trix_follows_def by blast
  have init: "eh_initialized (tx_ewma_1 tx)" "eh_initialized (tx_ewma_2 tx)" "eh_initialized (tx_ewma_3 tx)"
    and at: "ewma_at 13 t (tx_ewma_1 tx) i1" "ewma_at 13 t (tx_ewma_2 tx) i2" "ewma_at 13 t (tx_ewma_3 tx) i3"
      "trix_at 13 t w i4" and w: "w 0 = eh_last_value (tx_ewma_3 tx)"
    using st by (simp_all add: trix_stand_def)
  note calc = trix_calculate_next [OF init(3) v1_def v2_def v3_def, of "hc_type x", folded w]
  obtain q where q: "fp_divide (fp_minus v3 (w 0)) (w 0) = Inr q" and r: "r = int_times 100 q"
    and tx': "tx' = \<lparr>tx_ewma_1 = ewma_next ?tmp (tx_ewma_1 tx) ?v, tx_ewma_2 = ewma_next ?tmp (tx_ewma_2 tx) v1,
        tx_ewma_3 = ewma_next ?tmp (tx_ewma_3 tx) v2\<rparr>"
    using assms(3) unfolding trix_step_def calc by (auto simp: bnd_eq_Inr hc_type_def)
  have nz: "fp_value (w 0) \<noteq> 0" using q fp_divide_zero [of "w 0"] by auto
  have val: "get_valid ?v" "get_valid v1" "get_valid v2"
    using init by (simp_all add: v1_def v2_def calculate_new_value_def)
  note cr = carry_round [OF ty(1)]
  obtain j1 where j1: "ib_push (Ewma_ops (eh_alfa (tx_ewma_1 tx))) i1 (0, carry x ?v) = Inr (PushOut 0 (carry x v1), j1)"
    "ewma_at 13 ?ts (ewma_next ?tmp (tx_ewma_1 tx) ?v) j1"
    unfolding cr v1_def by (rule ewma_at_push [OF at(1) c ts val(1)])
  obtain j2 where j2: "ib_push (Ewma_ops (eh_alfa (tx_ewma_2 tx))) i2 (0, carry x v1) = Inr (PushOut 0 (carry x v2), j2)"
    "ewma_at 13 ?ts (ewma_next ?tmp (tx_ewma_2 tx) v1) j2"
    unfolding cr v2_def by (rule ewma_at_push [OF at(2) c ts val(2)])
  obtain j3 where j3: "ib_push (Ewma_ops (eh_alfa (tx_ewma_3 tx))) i3 (0, carry x v2) = Inr (PushOut 0 (carry x v3), j3)"
    "ewma_at 13 ?ts (ewma_next ?tmp (tx_ewma_3 tx) v2) j3"
    unfolding cr v3_def by (rule ewma_at_push [OF at(3) c ts val(3)])
  obtain y j4 w' where j4: "ib_push Trix_ops i4 (0, carry x v3) = Inr (PushOut 0 (carry x y), j4)"
    "trix_at 13 ?ts w' j4" "w' 0 = (if ?tmp then w 0 else v3)"
    "\<not> ?tmp \<or> op_mode i4 = NORMAL \<longrightarrow> op_mode j4 = NORMAL" "op_mode i4 = NORMAL \<longrightarrow> y = trix_value v3 (w 0)"
    unfolding cr by (rule trix_push [OF at(4) c ts nz])
  have "trix_stand ?ts tx' w' j1 j2 j3 j4"
    using j1(2) j2(2) j3(2) j4(2,3) init w by (simp add: trix_stand_def tx' ewma_next_last v3_def)
  then have "trix_follows (normal \<or> \<not> ?tmp) ?ts tx' (log @ [carry x y]) (trix_net tx' j1 j2 j3 j4 (log @ [carry x y]))"
    by (rule trix_followsI) (use j4(4) nm in blast)
  moreover have "trix_net tx = trix_net tx'" by (rule trix_net_cong) (simp_all add: tx')
  moreover have "y = r" if normal using j4(5) nm that q r by (simp add: trix_value_def)
  ultimately show thesis
    using trix_net_run [OF ty(2) j1(1) j2(1) j3(1) j4(1), of log]
    by (intro that [of "trix_net tx' j1 j2 j3 j4 (log @ [carry x y])" y]) (simp_all add: net)
qed

lemma feed_Cons:
  "router_run conns (sm_tsc x) net [(entry, 0, source_packet x)] = Some (Inr net') \<Longrightarrow>
   feed conns entry net (x # xs) = feed conns entry net' xs"
  by simp

lemma trix_follows_run:
  assumes "trix_follows True t tx log net" and "later t xs" and "run_ops trix_step tx xs = Inr (outs, tx')"
  shows "\<exists>net'. feed trix_wiring T_tstamp net xs = Some (Inr net') \<and> net' T_stats = Sink (log @ map2 carry xs outs)"
  using assms
proof (induction xs arbitrary: t tx log net outs)
  case Nil
  then show ?case by (auto simp: trix_follows_def trix_net_def)
next
  case (Cons x xs)
  obtain r tx1 rs where st: "trix_step tx x = Inr (r, tx1)" "run_ops trix_step tx1 xs = Inr (rs, tx')" "outs = r # rs"
    using Cons.prems(3) by (auto simp: bnd_eq_Inr)
  obtain net1 y where net1: "router_run trix_wiring (sm_tsc x) net [(T_tstamp, 0, source_packet x)] = Some (Inr net1)"
    "trix_follows (True \<or> \<not> provisional x) (stamp_of x) tx1 (log @ [carry x y]) net1" "True \<Longrightarrow> y = r"
    using trix_follows_round [OF Cons.prems(1,2) st(1)] by blast
  from Cons.IH [OF net1(2) [simplified] _ st(2)] Cons.prems(2) net1(1,3) st(3) show ?case
    by (auto simp: feed_Cons)
qed

text \<open>Before the first addition the element starts up and uses its other formula.\<close>

lemma trix_follows_start:
  assumes "trix_follows False t tx log net" and "later t (xs @ x # ys)" and "list_all provisional xs" and "\<not> provisional x"
    and "run_ops trix_step tx (xs @ [x]) = Inr (outs, tx')"
  shows "\<exists>net' log'. feed trix_wiring T_tstamp net (xs @ x # ys) = feed trix_wiring T_tstamp net' ys \<and>
    trix_follows True (stamp_of x) tx' (log @ log') net' \<and> length log' = length xs + 1 \<and> later (stamp_of x) ys"
  using assms
proof (induction xs arbitrary: t tx log net outs)
  case Nil
  then have st: "trix_step tx x = Inr (hd outs, tx')" by (auto simp: bnd_eq_Inr)
  obtain net1 y where net1: "router_run trix_wiring (sm_tsc x) net [(T_tstamp, 0, source_packet x)] = Some (Inr net1)"
    "trix_follows (False \<or> \<not> provisional x) (stamp_of x) tx' (log @ [carry x y]) net1"
    using trix_follows_round [OF Nil.prems(1) Nil.prems(2) [unfolded append_Nil] st] by blast
  with Nil.prems(2,4) show ?case
    by (intro exI [of _ net1] exI [of _ "[carry x y]"]) (simp add: feed_Cons)
next
  case (Cons z xs)
  obtain r tx1 rs where st: "trix_step tx z = Inr (r, tx1)" "run_ops trix_step tx1 (xs @ [x]) = Inr (rs, tx')"
    using Cons.prems(5) by (auto simp: bnd_eq_Inr)
  obtain net1 y where net1: "router_run trix_wiring (sm_tsc z) net [(T_tstamp, 0, source_packet z)] = Some (Inr net1)"
    "trix_follows (False \<or> \<not> provisional z) (stamp_of z) tx1 (log @ [carry z y]) net1"
    using trix_follows_round [OF Cons.prems(1) Cons.prems(2) [unfolded append_Cons] st(1)] by blast
  have "trix_follows False (stamp_of z) tx1 (log @ [carry z y]) net1"
    using net1(2) unfolding trix_follows_def by blast
  moreover have "later (stamp_of z) (xs @ x # ys)" "list_all provisional xs" using Cons.prems(2,3) by simp_all
  ultimately obtain net' log' where "feed trix_wiring T_tstamp net1 (xs @ x # ys) = feed trix_wiring T_tstamp net' ys"
    "trix_follows True (stamp_of x) tx' ((log @ [carry z y]) @ log') net'" "length log' = length xs + 1" "later (stamp_of x) ys"
    using Cons.IH [OF _ _ _ Cons.prems(4) st(2)] by blast
  with net1(1) show ?case
    by (intro exI [of _ net'] exI [of _ "carry z y # log'"]) (simp add: feed_Cons)
qed

lemma Trix_first:
  assumes "2 \<le> c" and "0 < ts" and "t \<in> {MSG_ADD, MSG_UPDATE, MSG_INIT}"
  obtains ib' w where "ib_push Trix_ops (configured Trix_ctor 1 1 c 2) (0, value_packet t v ts rest) =
      Inr (PushOut 0 (value_packet t (fromInt 0) ts rest), ib')"
    and "trix_at c ts w ib'" and "w 0 = v"
proof -
  have iv: "initialize_element Trix_ops b' = Inr (fromInt 0)" for b'
    by (simp add: Trix_ops_def Trix_initialize_element_def)
  obtain ib' where ib': "run_ops (ib_push Trix_ops) (configured Trix_ctor 1 1 c 2) (typed_msgs rest t ts [(0, v)]) =
      Inr (map (\<lambda>(p, v). KillPkt (value_packet t v ts rest)) (butlast [(0 :: nat, v)]) @
          [if get_valid (fromInt 0) then checked_output_push 1 0 (value_packet t (fromInt 0) ts rest)
           else KillPkt (value_packet t (snd (last [(0 :: nat, v)])) ts rest)], ib')"
    "\<And>crep. standing crep (sized 2) 1 1 c ts (\<lambda>p. [the (map_of [(0, v)] p)]) ib'"
    using first_round [where lok = "sized 2", OF zero_less_one assms(1,2) all_ports_simps(1) assms(3) iv sized_ctors(12)]
    by blast
  from ib' show thesis
    by (intro that [of ib' "\<lambda>p. the (map_of [(0, v)] p)"])
      (simp_all add: typed_msgs_def checked_output_push_def run_ops_one del: run_ops.simps)
qed

text \<open>Both configurations compute the same smoothing factor.\<close>

lemma same_alpha:
  assumes "trix_opt = Inr net" and "HcTrix_ctor 13 = Inr tx"
  obtains alpha where "net = trix_net tx (configured Ewma_ctor 1 1 13 2) (configured Ewma_ctor 1 1 13 2)
      (configured Ewma_ctor 1 1 13 2) (configured Trix_ctor 1 1 13 2) []"
    and "tx = \<lparr>tx_ewma_1 = set_alfa EwmaHc_ctor alpha, tx_ewma_2 = set_alfa EwmaHc_ctor alpha,
      tx_ewma_3 = set_alfa EwmaHc_ctor alpha\<rparr>"
proof -
  from assms obtain alpha where "Ewma_alpha (Some 13) = Inr alpha" 
    "tx = \<lparr>tx_ewma_1 = set_alfa EwmaHc_ctor alpha, tx_ewma_2 = set_alfa EwmaHc_ctor alpha,
      tx_ewma_3 = set_alfa EwmaHc_ctor alpha\<rparr>"
    by (auto simp: HcTrix_ctor_def Ewma_alpha_def bnd_eq_Inr)
  with assms(1) show thesis
    by (intro that [of alpha] ext) (auto simp: trix_opt_def trix_net_def set_alfa_def Let_def split: trix_node.split)
qed

lemma trix_follows_init:
  assumes "trix_opt = Inr net" and "HcTrix_ctor 13 = Inr tx" and "first_msg x"
  obtains net' y where "router_run trix_wiring (sm_tsc x) net [(T_tstamp, 0, source_packet x)] = Some (Inr net')"
    and "trix_follows False (stamp_of x) (trix_initialize tx (fromC (ms_close (sm_msg x)))) [carry x y] net'"
proof -
  let ?ts = "stamp_of x" and ?v = "fromC (ms_close (sm_msg x))" and ?e = "configured Ewma_ctor 1 1 13 2"
  obtain alpha where net: "net = trix_net tx ?e ?e ?e (configured Trix_ctor 1 1 13 2) []"
    and tx: "tx = \<lparr>tx_ewma_1 = set_alfa EwmaHc_ctor alpha, tx_ewma_2 = set_alfa EwmaHc_ctor alpha,
      tx_ewma_3 = set_alfa EwmaHc_ctor alpha\<rparr>"
    by (rule same_alpha [OF assms(1,2)])
  have c: "2 \<le> (13 :: nat)" and ts: "0 < ?ts" and ty: "MSG_INIT \<in> {MSG_ADD, MSG_UPDATE, MSG_INIT}" and v: "get_valid ?v"
    and sy: "sm_type x \<in> {MSG_ADD_SOURCE, MSG_UPDATE_SOURCE, MSG_INIT_SOURCE}"
    using assms(3) by (simp_all add: first_msg_def)
  have cr: "carry x y = value_packet MSG_INIT y ?ts (tail_of x)" for y
    using assms(3) by (simp add: carry_def first_msg_def split_type_def)
  obtain j w where j: "ib_push (Ewma_ops alpha) ?e (0, carry x ?v) = Inr (PushOut 0 (carry x ?v), j)"
    "w 0 = ?v" "\<And>crep. standing crep (sized 2) 1 1 13 ?ts (\<lambda>p. [w p]) j"
    unfolding cr using Ewma_first [OF c ts v ty] by blast
  obtain k w' where k: "ib_push Trix_ops (configured Trix_ctor 1 1 13 2) (0, carry x ?v) = Inr (PushOut 0 (carry x (fromInt 0)), k)"
    "trix_at 13 ?ts w' k" "w' 0 = ?v"
    unfolding cr by (rule Trix_first [OF c ts ty])
  let ?tx = "trix_initialize tx ?v"
  have al: "eh_alfa (tx_ewma_1 tx) = alpha" "eh_alfa (tx_ewma_2 tx) = alpha" "eh_alfa (tx_ewma_3 tx) = alpha"
    by (simp_all add: tx set_alfa_def)
  have "ewma_at 13 ?ts (set_last_value (set_alfa EwmaHc_ctor alpha) ?v) j"
    using j(2,3) by (auto simp: ewma_at_def set_alfa_def)
  then have "trix_stand ?ts ?tx w' j j j k"
    using k(2,3) by (simp add: trix_stand_def trix_initialize_def tx)
  then have "trix_follows False ?ts ?tx [carry x (fromInt 0)] (trix_net ?tx j j j k [carry x (fromInt 0)])"
    by (rule trix_followsI) simp
  moreover have "trix_net ?tx = trix_net tx" by (rule trix_net_cong) (simp_all add: trix_initialize_def)
  ultimately show thesis
    using trix_net_run [OF sy, of tx ?e _ j ?e _ j ?e _ j "configured Trix_ctor 1 1 13 2" _ k "[]", unfolded al, OF j(1) j(1) j(1) k(1)]
    by (intro that [of "trix_net tx j j j k [carry x (fromInt 0)]" "fromInt 0"]) (simp_all add: net)
qed

text \<open>
  Property C4. The Click graph of trix_opt.click computes the hand-coded triple-smoothed rate of change:
  whatever source messages follow the first one, additions and updates with increasing time
  stamps above 0 and fewer than 200 bytes behind the message, as long as the hand-coded indicator does not divide by zero on
  their prices, the packets that reach the end of the graph after the first addition carry exactly the
  values, and the time stamps, that the hand-coded indicator gives for the same prices; every
  earlier message gets one packet too.
\<close>

theorem trix_graph_computes_trix:
  assumes "trix_opt = Inr net" and "HcTrix_ctor 13 = Inr tx" and "first_msg x0"
    and "later (stamp_of x0) (us @ a # xs)" and "list_all provisional us" and "\<not> provisional a"
    and "run_ops trix_step (trix_initialize tx (fromC (ms_close (sm_msg x0)))) (us @ [a]) = Inr (outs0, tx1)"
    and "run_ops trix_step tx1 xs = Inr (outs, tx2)"
  shows "\<exists>net' log. feed trix_wiring T_tstamp net (x0 # us @ a # xs) = Some (Inr net') \<and> net' T_stats = Sink log \<and>
    length log = length us + 2 + length xs \<and>
    map logged (drop (length us + 2) log) = map (\<lambda>(x, y). Inr (y, stamp_of x)) (zip xs outs)"
proof -
  obtain net1 y where net1: "router_run trix_wiring (sm_tsc x0) net [(T_tstamp, 0, source_packet x0)] = Some (Inr net1)"
    "trix_follows False (stamp_of x0) (trix_initialize tx (fromC (ms_close (sm_msg x0)))) [carry x0 y] net1"
    by (rule trix_follows_init [OF assms(1-3)])
  obtain net2 log' where net2: "feed trix_wiring T_tstamp net1 (us @ a # xs) = feed trix_wiring T_tstamp net2 xs"
    "trix_follows True (stamp_of a) tx1 ([carry x0 y] @ log') net2" "length log' = length us + 1" "later (stamp_of a) xs"
    using trix_follows_start [OF net1(2) assms(4-7)] by blast
  obtain net' where net': "feed trix_wiring T_tstamp net2 xs = Some (Inr net')"
    "net' T_stats = Sink (([carry x0 y] @ log') @ map2 carry xs outs)"
    using trix_follows_run [OF net2(2,4) assms(8)] by blast
  have "length outs = length xs" by (rule run_ops_length [OF assms(8)])
  with net' net1(1) net2(1,3) show ?thesis
    by (intro exI [of _ net'] exI [of _ "([carry x0 y] @ log') @ map2 carry xs outs"])
      (simp add: feed_Cons case_prod_unfold comp_def)
qed

text \<open>A source message with given prices.\<close>

definition sample :: "PacketAppType \<Rightarrow> 64 word \<Rightarrow> 64 word \<Rightarrow> 64 word \<Rightarrow> 64 word \<Rightarrow> source_msg" where
  "sample ty ts c h l =
     \<lparr>sm_type = ty, sm_tsc = ts, sm_msg = MsgSource_ctor\<lparr>ms_timestamp := ts, ms_close := c, ms_high := h, ms_low := l\<rparr>,
      sm_rest = []\<rparr>"

lemma stamp_of_sample [simp]: "stamp_of (sample ty ts c h l) = ts"
  by (simp add: stamp_of_def sample_def)

lemma sample_simps [simp]:
  "sm_type (sample ty ts c h l) = ty" "sm_rest (sample ty ts c h l) = []"
  "provisional (sample ty ts c h l) \<longleftrightarrow> ty = MSG_UPDATE_SOURCE"
  by (simp_all add: sample_def provisional_def)

lemmas fixed_eval = fp_divide_def fp_plus_def fp_minus_def fp_times_def int_minus_def int_times_def fromC_def
  fromInt_def fixedpt_add_def fixedpt_sub_def fixedpt_div_int fixedpt_mul_int fixedpt_fromint_int signed_divide_int_def

lemmas ewma_eval = calculate_new_value_def set_last_value_def get_last_value_def set_alfa_def EwmaHc_ctor_def

theorem trix_graph_computes_trix_witness:
  "\<exists>net tx outs0 tx1 outs tx2 net' log.
     trix_opt = Inr net \<and> HcTrix_ctor 13 = Inr tx \<and>
     run_ops trix_step (trix_initialize tx (fromC (ms_close (sm_msg (sample MSG_INIT_SOURCE 1 500 600 400)))))
       ([] @ [sample MSG_ADD_SOURCE 3 520 600 400]) = Inr (outs0, tx1) \<and>
     run_ops trix_step tx1 [sample MSG_UPDATE_SOURCE 4 530 600 400] = Inr (outs, tx2) \<and>
     feed trix_wiring T_tstamp net (sample MSG_INIT_SOURCE 1 500 600 400 # [] @
       sample MSG_ADD_SOURCE 3 520 600 400 # [sample MSG_UPDATE_SOURCE 4 530 600 400]) = Some (Inr net') \<and>
     net' T_stats = Sink log \<and>
     map logged (drop 2 log) = map (\<lambda>(x, y). Inr (y, stamp_of x)) (zip [sample MSG_UPDATE_SOURCE 4 530 600 400] outs)"
proof -
  let ?i = "sample MSG_INIT_SOURCE 1 500 600 400" and ?a = "sample MSG_ADD_SOURCE 3 520 600 400"
    and ?x = "sample MSG_UPDATE_SOURCE 4 530 600 400"
  have "case HcTrix_ctor 13 of Inl _ \<Rightarrow> False | Inr tx \<Rightarrow>
      (case run_ops trix_step (trix_initialize tx (fromC (ms_close (sm_msg ?i)))) ([] @ [?a]) of Inl _ \<Rightarrow> False
       | Inr r \<Rightarrow> (case run_ops trix_step (snd r) [?x] of Inl _ \<Rightarrow> False | Inr _ \<Rightarrow> True))"
    by (simp add: HcTrix_ctor_def trix_step_def trix_initialize_def trix_calculate_value_def Let_def hc_type_def
        sample_def provisional_def ewma_eval fixed_eval)
  then obtain tx outs0 tx1 outs tx2 where tx: "HcTrix_ctor 13 = Inr tx"
    "run_ops trix_step (trix_initialize tx (fromC (ms_close (sm_msg ?i)))) ([] @ [?a]) = Inr (outs0, tx1)"
    "run_ops trix_step tx1 [?x] = Inr (outs, tx2)"
    by (auto split: sum.splits prod.splits simp del: run_ops.simps)
  have "\<exists>alpha. Ewma_alpha (Some 13) = Inr alpha"
    using tx(1) by (auto simp: HcTrix_ctor_def Ewma_alpha_def bnd_eq_Inr)
  then obtain net where net: "trix_opt = Inr net" by (auto simp: trix_opt_def Let_def)
  have "\<exists>net' log. feed trix_wiring T_tstamp net (?i # [] @ ?a # [?x]) = Some (Inr net') \<and> net' T_stats = Sink log \<and>
    length log = length ([] :: source_msg list) + 2 + length [?x] \<and>
    map logged (drop (length ([] :: source_msg list) + 2) log) = map (\<lambda>(x, y). Inr (y, stamp_of x)) (zip [?x] outs)"
    by (rule trix_graph_computes_trix [OF net tx(1) _ _ _ _ tx(2,3)]) (simp_all add: first_msg_def)
  with net tx show ?thesis by (auto simp del: run_ops.simps feed.simps append_Cons append_Nil simp: eval_nat_numeral)
qed

end
