(* ===== verification/Graph_Dmi.thy ===== *)
theory Graph_Dmi
  imports Graph_Results
begin

text \<open>
  The graph of dmi_opt.click against the hand-coded \<open>Dmi\<close>: ten indicator elements, three tees and the
  splitter, one round of high, close and low at a time.
\<close>

section \<open>One step of the hand-coded index\<close>

text \<open>The two directional indices of a step, and whether they leave the index defined.\<close>

definition dmi_indices :: "HcDmi \<Rightarrow> bar \<Rightarrow> (FixedPt \<times> FixedPt) res" where
  "dmi_indices d b =
     (case b of (c, h, l) \<Rightarrow>
        let tr = fst (calculate_new_value (dm_ewma_tr d) (hc_calculate_tr d c h l))
        in bnd (fp_divide (fst (calculate_new_value (dm_ewma_pdm d) (hc_calculate_pdm d h l))) tr) (\<lambda>pdi.
           bnd (fp_divide (fst (calculate_new_value (dm_ewma_ndm d) (hc_calculate_ndm d h l))) tr) (\<lambda>ndi.
             Inr (pdi, ndi))))"

definition directed :: "HcDmi \<Rightarrow> bar \<Rightarrow> bool" where
  "directed d b \<longleftrightarrow> (case dmi_indices d b of Inl _ \<Rightarrow> False | Inr r \<Rightarrow> getC (fp_plus (fst r) (snd r)) \<noteq> 0)"

fun directed_run :: "HcDmi \<Rightarrow> (UpdateType \<times> bar) list \<Rightarrow> bool" where
  "directed_run d [] \<longleftrightarrow> True"
| "directed_run d (x # xs) \<longleftrightarrow> directed d (snd x) \<and>
     (case dmi_step d x of Inl _ \<Rightarrow> False | Inr r \<Rightarrow> directed_run (snd r) xs)"

definition dmi_next :: "bool \<Rightarrow> HcDmi \<Rightarrow> bar \<Rightarrow> FixedPt \<Rightarrow> HcDmi" where
  "dmi_next temp d b dx =
     (case b of (c, h, l) \<Rightarrow>
        \<lparr>dm_prev_close = (if temp then dm_prev_close d else c), dm_prev_high = (if temp then dm_prev_high d else h),
         dm_prev_low = (if temp then dm_prev_low d else l),
         dm_ewma_pdm = ewma_next temp (dm_ewma_pdm d) (hc_calculate_pdm d h l),
         dm_ewma_ndm = ewma_next temp (dm_ewma_ndm d) (hc_calculate_ndm d h l),
         dm_ewma_tr = ewma_next temp (dm_ewma_tr d) (hc_calculate_tr d c h l),
         dm_ewma_dx = ewma_next temp (dm_ewma_dx d) dx\<rparr>)"

lemma safe_ratio_divide: "fp_divide x y = Inr q \<Longrightarrow> safe_ratio x y = q"
  by (cases "fp_value y = 0") (simp_all add: safe_ratio_def)

lemma dmi_step_next:
  assumes "directed d (c, h, l)"
    and "p = fst (calculate_new_value (dm_ewma_pdm d) (hc_calculate_pdm d h l))"
    and "n = fst (calculate_new_value (dm_ewma_ndm d) (hc_calculate_ndm d h l))"
    and "tr = fst (calculate_new_value (dm_ewma_tr d) (hc_calculate_tr d c h l))"
    and "dx = dx_value (safe_ratio p tr) (safe_ratio n tr)"
  shows "dmi_step d (ty, c, h, l) = Inr (fst (calculate_new_value (dm_ewma_dx d) dx), dmi_next (ty \<noteq> ADD) d (c, h, l) dx)"
proof -
  obtain pdi ndi where i: "fp_divide p tr = Inr pdi" "fp_divide n tr = Inr ndi" "getC (fp_plus pdi ndi) \<noteq> 0"
    using assms(1) by (auto simp: directed_def dmi_indices_def assms(2-4) Let_def bnd_def split: sum.splits)
  have "fp_divide (int_times 100 (fpt_abs (fp_minus pdi ndi))) (fp_plus pdi ndi) = Inr (dx_value pdi ndi)"
    using safe_ratio_eq [of "fp_plus pdi ndi" "int_times 100 (fpt_abs (fp_minus pdi ndi))"] i(3) by (simp add: dx_value_def)
  moreover have "dx = dx_value pdi ndi" using i by (simp add: assms(5) safe_ratio_divide)
  ultimately show ?thesis
    using i assms(2-4)
    by (cases "ty = ADD") (simp_all add: dmi_step_def dmi_calculate_value_def dmi_next_def case_prod_unfold ewma_next_def Let_def)
qed

lemma movements_eq:
  "calculate_pdm l (dm_prev_low d) h (dm_prev_high d) = hc_calculate_pdm d h l"
  "calculate_ndm l (dm_prev_low d) h (dm_prev_high d) = hc_calculate_ndm d h l"
  "calculate_tr l h (dm_prev_close d) = hc_calculate_tr d c h l"
  by (simp_all add: calculate_pdm_def hc_calculate_pdm_def calculate_ndm_def hc_calculate_ndm_def
      calculate_tr_def hc_calculate_tr_def fpt_max_def hc_max_def)

lemma valid_values [simp]:
  "get_valid (hc_calculate_pdm d h l)" "get_valid (hc_calculate_ndm d h l)" "get_valid (hc_calculate_tr d c h l)"
  "get_valid (safe_ratio x y)" "get_valid (dx_value x y)"
proof -
  show s: "get_valid (safe_ratio x y)" for x y
    using fp_divide_ok [of y x] by (auto simp: safe_ratio_def)
  show "get_valid (dx_value x y)" by (simp add: dx_value_def s)
qed (simp_all add: hc_calculate_pdm_def hc_calculate_ndm_def hc_calculate_tr_def hc_max_def)

lemma valid_average [simp]: "get_valid v \<Longrightarrow> get_valid (fst (calculate_new_value e v))"
  by (simp add: calculate_new_value_def)

section \<open>One round of the graph\<close>

definition dmi_net :: "HcDmi \<Rightarrow> IndicatorBase \<Rightarrow> IndicatorBase \<Rightarrow> IndicatorBase \<Rightarrow> IndicatorBase \<Rightarrow> IndicatorBase \<Rightarrow>
    IndicatorBase \<Rightarrow> IndicatorBase \<Rightarrow> IndicatorBase \<Rightarrow> IndicatorBase \<Rightarrow> IndicatorBase \<Rightarrow> Packet list \<Rightarrow> dmi_node \<Rightarrow> element" where
  "dmi_net d pdm ndm tr e_pdm e_ndm e_tr pdi ndi dx e_dx log =
     (\<lambda>e. case e of
        D_tstamp \<Rightarrow> Stamp Timestamper_ctor
      | D_split_1 \<Rightarrow> Split 3 (SourceSplit_ctor\<lparr>high_port := 0, low_port := 1, close_port := 2\<rparr>)
      | D_tee_high \<Rightarrow> Tee 3 | D_tee_low \<Rightarrow> Tee 3 | D_tee_ewma_tr \<Rightarrow> Tee 2
      | D_pdm \<Rightarrow> Indicator Pdm_ops pdm | D_ndm \<Rightarrow> Indicator Ndm_ops ndm | D_tr \<Rightarrow> Indicator NewTrueRange_ops tr
      | D_ewma_pdm \<Rightarrow> Indicator (Ewma_ops (eh_alfa (dm_ewma_pdm d))) e_pdm
      | D_ewma_ndm \<Rightarrow> Indicator (Ewma_ops (eh_alfa (dm_ewma_ndm d))) e_ndm
      | D_ewma_tr \<Rightarrow> Indicator (Ewma_ops (eh_alfa (dm_ewma_tr d))) e_tr
      | D_pdi \<Rightarrow> Indicator Pdi_ops pdi | D_ndi \<Rightarrow> Indicator Ndi_ops ndi | D_dx \<Rightarrow> Indicator Dx_ops dx
      | D_ewma_dx \<Rightarrow> Indicator (Ewma_ops (eh_alfa (dm_ewma_dx d))) e_dx
      | D_stats \<Rightarrow> Sink log)"

lemma dmi_net_simps:
  "dmi_net d pdm ndm tr e_pdm e_ndm e_tr pdi ndi dx e_dx log D_tstamp = Stamp Timestamper_ctor"
  "dmi_net d pdm ndm tr e_pdm e_ndm e_tr pdi ndi dx e_dx log D_split_1 = Split 3 (SourceSplit_ctor\<lparr>high_port := 0, low_port := 1, close_port := 2\<rparr>)"
  "dmi_net d pdm ndm tr e_pdm e_ndm e_tr pdi ndi dx e_dx log D_tee_high = Tee 3"
  "dmi_net d pdm ndm tr e_pdm e_ndm e_tr pdi ndi dx e_dx log D_tee_low = Tee 3"
  "dmi_net d pdm ndm tr e_pdm e_ndm e_tr pdi ndi dx e_dx log D_tee_ewma_tr = Tee 2"
  "dmi_net d pdm ndm tr e_pdm e_ndm e_tr pdi ndi dx e_dx log D_pdm = Indicator Pdm_ops pdm"
  "dmi_net d pdm ndm tr e_pdm e_ndm e_tr pdi ndi dx e_dx log D_ndm = Indicator Ndm_ops ndm"
  "dmi_net d pdm ndm tr e_pdm e_ndm e_tr pdi ndi dx e_dx log D_tr = Indicator NewTrueRange_ops tr"
  "dmi_net d pdm ndm tr e_pdm e_ndm e_tr pdi ndi dx e_dx log D_ewma_pdm = Indicator (Ewma_ops (eh_alfa (dm_ewma_pdm d))) e_pdm"
  "dmi_net d pdm ndm tr e_pdm e_ndm e_tr pdi ndi dx e_dx log D_ewma_ndm = Indicator (Ewma_ops (eh_alfa (dm_ewma_ndm d))) e_ndm"
  "dmi_net d pdm ndm tr e_pdm e_ndm e_tr pdi ndi dx e_dx log D_ewma_tr = Indicator (Ewma_ops (eh_alfa (dm_ewma_tr d))) e_tr"
  "dmi_net d pdm ndm tr e_pdm e_ndm e_tr pdi ndi dx e_dx log D_ewma_dx = Indicator (Ewma_ops (eh_alfa (dm_ewma_dx d))) e_dx"
  "dmi_net d pdm ndm tr e_pdm e_ndm e_tr pdi ndi dx e_dx log D_pdi = Indicator Pdi_ops pdi"
  "dmi_net d pdm ndm tr e_pdm e_ndm e_tr pdi ndi dx e_dx log D_ndi = Indicator Ndi_ops ndi"
  "dmi_net d pdm ndm tr e_pdm e_ndm e_tr pdi ndi dx e_dx log D_dx = Indicator Dx_ops dx"
  "dmi_net d pdm ndm tr e_pdm e_ndm e_tr pdi ndi dx e_dx log D_stats = Sink log"
  by (simp_all add: dmi_net_def)

lemma dmi_wires:
  "map_of dmi_wiring (D_tstamp, 0) = Some (D_split_1, 0)" "map_of dmi_wiring (D_split_1, 0) = Some (D_tee_high, 0)"
  "map_of dmi_wiring (D_split_1, Suc 0) = Some (D_tee_low, 0)" "map_of dmi_wiring (D_split_1, 2) = Some (D_tr, 2)"
  "map_of dmi_wiring (D_tee_high, 0) = Some (D_pdm, 0)" "map_of dmi_wiring (D_tee_high, Suc 0) = Some (D_ndm, 0)"
  "map_of dmi_wiring (D_tee_high, 2) = Some (D_tr, 0)" "map_of dmi_wiring (D_tee_low, 0) = Some (D_pdm, Suc 0)"
  "map_of dmi_wiring (D_tee_low, Suc 0) = Some (D_ndm, Suc 0)" "map_of dmi_wiring (D_tee_low, 2) = Some (D_tr, Suc 0)"
  "map_of dmi_wiring (D_pdm, 0) = Some (D_ewma_pdm, 0)" "map_of dmi_wiring (D_ndm, 0) = Some (D_ewma_ndm, 0)"
  "map_of dmi_wiring (D_tr, 0) = Some (D_ewma_tr, 0)" "map_of dmi_wiring (D_ewma_tr, 0) = Some (D_tee_ewma_tr, 0)"
  "map_of dmi_wiring (D_ewma_pdm, 0) = Some (D_pdi, 0)" "map_of dmi_wiring (D_ewma_ndm, 0) = Some (D_ndi, 0)"
  "map_of dmi_wiring (D_tee_ewma_tr, 0) = Some (D_pdi, Suc 0)" "map_of dmi_wiring (D_tee_ewma_tr, Suc 0) = Some (D_ndi, Suc 0)"
  "map_of dmi_wiring (D_pdi, 0) = Some (D_dx, 0)" "map_of dmi_wiring (D_ndi, 0) = Some (D_dx, Suc 0)"
  "map_of dmi_wiring (D_dx, 0) = Some (D_ewma_dx, 0)" "map_of dmi_wiring (D_ewma_dx, 0) = Some (D_stats, 0)"
  by (simp_all add: dmi_wiring_def)

lemma dmi_net_run:
  assumes "sm_type x \<in> {MSG_ADD_SOURCE, MSG_UPDATE_SOURCE, MSG_INIT_SOURCE}" and "length (sm_rest x) < 200"
    and "h = fromC (ms_high (sm_msg x))" and "l = fromC (ms_low (sm_msg x))"
    and "c = fromC (ms_close (sm_msg x))"
    and "ib_push Pdm_ops pdm (0, carry x h) = Inr (KillPkt k1, pdm1)" and "ib_push Pdm_ops pdm1 (1, carry x l) = Inr (PushOut 0 p, pdm2)"
    and "ib_push Ndm_ops ndm (0, carry x h) = Inr (KillPkt k2, ndm1)" and "ib_push Ndm_ops ndm1 (1, carry x l) = Inr (PushOut 0 n, ndm2)"
    and "ib_push NewTrueRange_ops tr (0, carry x h) = Inr (KillPkt k3, tr1)"
    and "ib_push NewTrueRange_ops tr1 (2, carry x c) = Inr (KillPkt k4, tr2)"
    and "ib_push NewTrueRange_ops tr2 (1, carry x l) = Inr (PushOut 0 t, tr3)"
    and "ib_push (Ewma_ops (eh_alfa (dm_ewma_pdm d))) e_pdm (0, p) = Inr (PushOut 0 ps, e_pdm1)"
    and "ib_push (Ewma_ops (eh_alfa (dm_ewma_ndm d))) e_ndm (0, n) = Inr (PushOut 0 ns, e_ndm1)"
    and "ib_push (Ewma_ops (eh_alfa (dm_ewma_tr d))) e_tr (0, t) = Inr (PushOut 0 (carry x ts), e_tr1)"
    and "ib_push Pdi_ops pdi (0, ps) = Inr (KillPkt k5, pdi1)" and "ib_push Pdi_ops pdi1 (1, carry x ts) = Inr (PushOut 0 pi, pdi2)"
    and "ib_push Ndi_ops ndi (0, ns) = Inr (KillPkt k6, ndi1)" and "ib_push Ndi_ops ndi1 (1, carry x ts) = Inr (PushOut 0 ni, ndi2)"
    and "ib_push Dx_ops dx (0, pi) = Inr (KillPkt k7, dx1)" and "ib_push Dx_ops dx1 (1, ni) = Inr (PushOut 0 dv, dx2)"
    and "ib_push (Ewma_ops (eh_alfa (dm_ewma_dx d))) e_dx (0, dv) = Inr (PushOut 0 out, e_dx1)"
  shows "router_run dmi_wiring (sm_tsc x) (dmi_net d pdm ndm tr e_pdm e_ndm e_tr pdi ndi dx e_dx log) [(D_tstamp, 0, source_packet x)] =
    Some (Inr (dmi_net d pdm2 ndm2 tr3 e_pdm1 e_ndm1 e_tr1 pdi2 ndi2 dx2 e_dx1 (log @ [out])))"
proof -
  have "sm_type x \<noteq> MSG_UPDATE" using assms(1) by auto
  note steps = enter [OF this] split_push [OF assms(1)] tee_push [OF assms(2)]
  show ?thesis
    using assms(6-)
    by (simp add: router_Cons steps dmi_net_simps dmi_wires checked_output_push_def SourceSplit_ctor_def
        assms(3-5) [symmetric] del: element_push.simps(2-4))
      (intro ext, simp add: dmi_net_def SourceSplit_ctor_def split: dmi_node.split)
qed

definition pdm_at :: "64 word \<Rightarrow> FixedPt \<Rightarrow> FixedPt \<Rightarrow> IndicatorBase \<Rightarrow> bool" where
  "pdm_at t ph pl ib \<longleftrightarrow> (\<exists>w. pdm.prev_at 1 10 t w ib \<and> w 0 = ph \<and> w 1 = pl)"

lemma pdm_push:
  assumes "pdm_at t ph pl ib" and "t < ts"
  obtains ib1 ib' where "ib_push Pdm_ops ib (0, value_packet (round_type temp) h ts rest) =
      Inr (KillPkt (value_packet (round_type temp) h ts rest), ib1)"
    and "ib_push Pdm_ops ib1 (1, value_packet (round_type temp) l ts rest) =
      Inr (PushOut 0 (value_packet (round_type temp) (calculate_pdm l pl h ph) ts rest), ib')"
    and "pdm_at ts (if temp then ph else h) (if temp then pl else l) ib'"
proof -
  obtain w where w: "pdm.prev_at 1 10 t w ib" "w 0 = ph" "w 1 = pl"
    using assms(1) unfolding pdm_at_def by blast
  have "2 \<le> (10 :: nat)" by simp
  then show thesis
  proof (rule pdm.prev_push_two [OF refl w(1) _ assms(2), of temp h rest l], goal_cases)
    case (1 ib1 ib' w')
    with w show ?case by (intro that [of ib1 ib']) (auto simp: pdm_at_def checked_output_push_def)
  qed
qed

definition ndm_at :: "64 word \<Rightarrow> FixedPt \<Rightarrow> FixedPt \<Rightarrow> IndicatorBase \<Rightarrow> bool" where
  "ndm_at t ph pl ib \<longleftrightarrow> (\<exists>w. ndm.prev_at 1 10 t w ib \<and> w 0 = ph \<and> w 1 = pl)"

lemma ndm_push:
  assumes "ndm_at t ph pl ib" and "t < ts"
  obtains ib1 ib' where "ib_push Ndm_ops ib (0, value_packet (round_type temp) h ts rest) =
      Inr (KillPkt (value_packet (round_type temp) h ts rest), ib1)"
    and "ib_push Ndm_ops ib1 (1, value_packet (round_type temp) l ts rest) =
      Inr (PushOut 0 (value_packet (round_type temp) (calculate_ndm l pl h ph) ts rest), ib')"
    and "ndm_at ts (if temp then ph else h) (if temp then pl else l) ib'"
proof -
  obtain w where w: "ndm.prev_at 1 10 t w ib" "w 0 = ph" "w 1 = pl"
    using assms(1) unfolding ndm_at_def by blast
  have "2 \<le> (10 :: nat)" by simp
  then show thesis
  proof (rule ndm.prev_push_two [OF refl w(1) _ assms(2), of temp h rest l], goal_cases)
    case (1 ib1 ib' w')
    with w show ?case by (intro that [of ib1 ib']) (auto simp: ndm_at_def checked_output_push_def)
  qed
qed

section \<open>Following the hand-coded object\<close>

definition dmi_stand :: "64 word \<Rightarrow> HcDmi \<Rightarrow> IndicatorBase \<Rightarrow> IndicatorBase \<Rightarrow> IndicatorBase \<Rightarrow> IndicatorBase \<Rightarrow> IndicatorBase \<Rightarrow>
    IndicatorBase \<Rightarrow> IndicatorBase \<Rightarrow> IndicatorBase \<Rightarrow> IndicatorBase \<Rightarrow> IndicatorBase \<Rightarrow> bool" where
  "dmi_stand t d pdm ndm tr e_pdm e_ndm e_tr pdi ndi dx e_dx \<longleftrightarrow>
     pdm_at t (dm_prev_high d) (dm_prev_low d) pdm \<and> ndm_at t (dm_prev_high d) (dm_prev_low d) ndm \<and>
     tr_at t (dm_prev_close d) tr \<and>
     ewma_at 13 t (dm_ewma_pdm d) e_pdm \<and> ewma_at 13 t (dm_ewma_ndm d) e_ndm \<and> ewma_at 13 t (dm_ewma_tr d) e_tr \<and>
     pair_at 1 10 t pdi \<and> pair_at 1 10 t ndi \<and> pair_at 1 10 t dx \<and> ewma_at 13 t (dm_ewma_dx d) e_dx"

definition dmi_follows :: "64 word \<Rightarrow> HcDmi \<Rightarrow> Packet list \<Rightarrow> (dmi_node \<Rightarrow> element) \<Rightarrow> bool" where
  "dmi_follows t d log net \<longleftrightarrow>
     (\<exists>pdm ndm tr e_pdm e_ndm e_tr pdi ndi dx e_dx.
        net = dmi_net d pdm ndm tr e_pdm e_ndm e_tr pdi ndi dx e_dx log \<and>
        dmi_stand t d pdm ndm tr e_pdm e_ndm e_tr pdi ndi dx e_dx)"

lemma dmi_net_next: "dmi_net (dmi_next temp d b dx) = dmi_net d"
  by (intro ext) (simp add: dmi_net_def dmi_next_def case_prod_unfold split: dmi_node.split)

text \<open>A round in three stages: the movements, their averages, the indices.\<close>

lemma movements_pushed:
  assumes "later t (x # xs)" and "pdm_at t (dm_prev_high d) (dm_prev_low d) pdm" and "ndm_at t (dm_prev_high d) (dm_prev_low d) ndm"
    and "tr_at t (dm_prev_close d) tr"
  obtains pdm1 pdm2 ndm1 ndm2 tr1 tr2 tr3
  where "ib_push Pdm_ops pdm (0, carry x h) = Inr (KillPkt (carry x h), pdm1)"
    and "ib_push Pdm_ops pdm1 (1, carry x l) = Inr (PushOut 0 (carry x (hc_calculate_pdm d h l)), pdm2)"
    and "ib_push Ndm_ops ndm (0, carry x h) = Inr (KillPkt (carry x h), ndm1)"
    and "ib_push Ndm_ops ndm1 (1, carry x l) = Inr (PushOut 0 (carry x (hc_calculate_ndm d h l)), ndm2)"
    and "ib_push NewTrueRange_ops tr (0, carry x h) = Inr (KillPkt (carry x h), tr1)"
    and "ib_push NewTrueRange_ops tr1 (2, carry x c) = Inr (KillPkt (carry x c), tr2)"
    and "ib_push NewTrueRange_ops tr2 (1, carry x l) = Inr (PushOut 0 (carry x (hc_calculate_tr d c h l)), tr3)"
    and "pdm_at (stamp_of x) (if provisional x then dm_prev_high d else h) (if provisional x then dm_prev_low d else l) pdm2"
    and "ndm_at (stamp_of x) (if provisional x then dm_prev_high d else h) (if provisional x then dm_prev_low d else l) ndm2"
    and "tr_at (stamp_of x) (if provisional x then dm_prev_close d else c) tr3"
proof -
  have ty: "sm_type x \<in> {MSG_ADD_SOURCE, MSG_UPDATE_SOURCE}" and ts: "t < stamp_of x" using assms(1) by auto
  note cr = carry_round [OF ty]
  obtain pdm1 pdm2 where pdm: "ib_push Pdm_ops pdm (0, carry x h) = Inr (KillPkt (carry x h), pdm1)"
    "ib_push Pdm_ops pdm1 (1, carry x l) = Inr (PushOut 0 (carry x (hc_calculate_pdm d h l)), pdm2)"
    "pdm_at (stamp_of x) (if provisional x then dm_prev_high d else h) (if provisional x then dm_prev_low d else l) pdm2"
    unfolding cr movements_eq [symmetric] by (rule pdm_push [OF assms(2) ts])
  obtain ndm1 ndm2 where ndm: "ib_push Ndm_ops ndm (0, carry x h) = Inr (KillPkt (carry x h), ndm1)"
    "ib_push Ndm_ops ndm1 (1, carry x l) = Inr (PushOut 0 (carry x (hc_calculate_ndm d h l)), ndm2)"
    "ndm_at (stamp_of x) (if provisional x then dm_prev_high d else h) (if provisional x then dm_prev_low d else l) ndm2"
    unfolding cr movements_eq [symmetric] by (rule ndm_push [OF assms(3) ts])
  obtain tr1 tr2 tr3 where tr: "ib_push NewTrueRange_ops tr (0, carry x h) = Inr (KillPkt (carry x h), tr1)"
    "ib_push NewTrueRange_ops tr1 (2, carry x c) = Inr (KillPkt (carry x c), tr2)"
    "ib_push NewTrueRange_ops tr2 (1, carry x l) = Inr (PushOut 0 (carry x (hc_calculate_tr d c h l)), tr3)"
    "tr_at (stamp_of x) (if provisional x then dm_prev_close d else c) tr3"
    unfolding cr movements_eq(3) [symmetric] by (rule tr_push [OF assms(4) ts])
  from pdm(1,2) ndm(1,2) tr(1-3) pdm(3) ndm(3) tr(4) show thesis by (rule that)
qed

lemma average_pushed:
  assumes "later t (x # xs)" and "ewma_at 13 t e ib" and "get_valid v"
  obtains ib' where "ib_push (Ewma_ops (eh_alfa e)) ib (0, carry x v) = Inr (PushOut 0 (carry x (fst (calculate_new_value e v))), ib')"
    and "ewma_at 13 (stamp_of x) (ewma_next (provisional x) e v) ib'"
proof -
  have ty: "sm_type x \<in> {MSG_ADD_SOURCE, MSG_UPDATE_SOURCE}" and ts: "t < stamp_of x" and two: "2 \<le> (13 :: nat)"
    using assms(1) by auto
  show thesis
    using that unfolding carry_round [OF ty] by (rule ewma_at_push [OF assms(2) two ts assms(3)])
qed

lemma indices_pushed:
  assumes "later t (x # xs)" and "pair_at 1 10 t pdi" and "pair_at 1 10 t ndi" and "pair_at 1 10 t dx"
    and "v = dx_value (safe_ratio p q) (safe_ratio n q)"
  obtains pdi1 pdi2 ndi1 ndi2 dx1 dx2
  where "ib_push Pdi_ops pdi (0, carry x p) = Inr (KillPkt (carry x p), pdi1)"
    and "ib_push Pdi_ops pdi1 (1, carry x q) = Inr (PushOut 0 (carry x (safe_ratio p q)), pdi2)"
    and "ib_push Ndi_ops ndi (0, carry x n) = Inr (KillPkt (carry x n), ndi1)"
    and "ib_push Ndi_ops ndi1 (1, carry x q) = Inr (PushOut 0 (carry x (safe_ratio n q)), ndi2)"
    and "ib_push Dx_ops dx (0, carry x (safe_ratio p q)) = Inr (KillPkt (carry x (safe_ratio p q)), dx1)"
    and "ib_push Dx_ops dx1 (1, carry x (safe_ratio n q)) = Inr (PushOut 0 (carry x v), dx2)"
    and "pair_at 1 10 (stamp_of x) pdi2" and "pair_at 1 10 (stamp_of x) ndi2" and "pair_at 1 10 (stamp_of x) dx2"
proof -
  have ty: "sm_type x \<in> {MSG_ADD_SOURCE, MSG_UPDATE_SOURCE}" and ts: "t < stamp_of x" and two: "2 \<le> (10 :: nat)"
    using assms(1) by auto
  have out: "PushOut 0 y = checked_output_push 1 0 y" for y by (simp add: checked_output_push_def)
  note cr = carry_round [OF ty]
  obtain pdi1 pdi2 where pdi: "ib_push Pdi_ops pdi (0, carry x p) = Inr (KillPkt (carry x p), pdi1)"
    "ib_push Pdi_ops pdi1 (1, carry x q) = Inr (PushOut 0 (carry x (safe_ratio p q)), pdi2)" "pair_at 1 10 (stamp_of x) pdi2"
    unfolding cr out by (rule pdi.pair_push [OF assms(2) two ts valid_values(4)])
  obtain ndi1 ndi2 where ndi: "ib_push Ndi_ops ndi (0, carry x n) = Inr (KillPkt (carry x n), ndi1)"
    "ib_push Ndi_ops ndi1 (1, carry x q) = Inr (PushOut 0 (carry x (safe_ratio n q)), ndi2)" "pair_at 1 10 (stamp_of x) ndi2"
    unfolding cr out by (rule ndi.pair_push [OF assms(3) two ts valid_values(4)])
  obtain dx1 dx2 where dx: "ib_push Dx_ops dx (0, carry x (safe_ratio p q)) = Inr (KillPkt (carry x (safe_ratio p q)), dx1)"
    "ib_push Dx_ops dx1 (1, carry x (safe_ratio n q)) = Inr (PushOut 0 (carry x v), dx2)" "pair_at 1 10 (stamp_of x) dx2"
    unfolding cr out assms(5) by (rule dx.pair_push [OF assms(4) two ts valid_values(5)])
  from pdi(1,2) ndi(1,2) dx(1,2) pdi(3) ndi(3) dx(3) show thesis by (rule that)
qed

lemma dmi_follows_round:
  assumes "dmi_follows t d log net" and "later t (x # xs)" and "directed d (hc_bar x)"
  obtains net' r d' where "router_run dmi_wiring (sm_tsc x) net [(D_tstamp, 0, source_packet x)] = Some (Inr net')"
    and "dmi_step d (hc_type x, hc_bar x) = Inr (r, d')" and "dmi_follows (stamp_of x) d' (log @ [carry x r]) net'"
proof -
  define h l c where hlc: "h = fromC (ms_high (sm_msg x))" "l = fromC (ms_low (sm_msg x))" "c = fromC (ms_close (sm_msg x))"
  define p where "p = fst (calculate_new_value (dm_ewma_pdm d) (hc_calculate_pdm d h l))"
  define n where "n = fst (calculate_new_value (dm_ewma_ndm d) (hc_calculate_ndm d h l))"
  define q where "q = fst (calculate_new_value (dm_ewma_tr d) (hc_calculate_tr d c h l))"
  define v where "v = dx_value (safe_ratio p q) (safe_ratio n q)"
  let ?ts = "stamp_of x" and ?tmp = "provisional x" and ?r = "fst (calculate_new_value (dm_ewma_dx d) v)"
  have b: "hc_bar x = (c, h, l)" by (simp add: hc_bar_def hlc)
  have ty: "sm_type x \<in> {MSG_ADD_SOURCE, MSG_UPDATE_SOURCE, MSG_INIT_SOURCE}" and len: "length (sm_rest x) < 200"
    using assms(2) by auto
  obtain pdm ndm tr e_pdm e_ndm e_tr pdi ndi dx e_dx where
    net: "net = dmi_net d pdm ndm tr e_pdm e_ndm e_tr pdi ndi dx e_dx log"
    and st: "dmi_stand t d pdm ndm tr e_pdm e_ndm e_tr pdi ndi dx e_dx"
    using assms(1) unfolding dmi_follows_def by blast
  then have at: "pdm_at t (dm_prev_high d) (dm_prev_low d) pdm" "ndm_at t (dm_prev_high d) (dm_prev_low d) ndm"
    "tr_at t (dm_prev_close d) tr"
    "ewma_at 13 t (dm_ewma_pdm d) e_pdm" "ewma_at 13 t (dm_ewma_ndm d) e_ndm" "ewma_at 13 t (dm_ewma_tr d) e_tr"
    "pair_at 1 10 t pdi" "pair_at 1 10 t ndi" "pair_at 1 10 t dx" "ewma_at 13 t (dm_ewma_dx d) e_dx"
    by (simp_all add: dmi_stand_def)
  obtain e1 where e1: "ib_push (Ewma_ops (eh_alfa (dm_ewma_pdm d))) e_pdm (0, carry x (hc_calculate_pdm d h l)) =
      Inr (PushOut 0 (carry x p), e1)" "ewma_at 13 ?ts (ewma_next ?tmp (dm_ewma_pdm d) (hc_calculate_pdm d h l)) e1"
    unfolding p_def by (rule average_pushed [OF assms(2) at(4) valid_values(1)])
  obtain e2 where e2: "ib_push (Ewma_ops (eh_alfa (dm_ewma_ndm d))) e_ndm (0, carry x (hc_calculate_ndm d h l)) =
      Inr (PushOut 0 (carry x n), e2)" "ewma_at 13 ?ts (ewma_next ?tmp (dm_ewma_ndm d) (hc_calculate_ndm d h l)) e2"
    unfolding n_def by (rule average_pushed [OF assms(2) at(5) valid_values(2)])
  obtain e3 where e3: "ib_push (Ewma_ops (eh_alfa (dm_ewma_tr d))) e_tr (0, carry x (hc_calculate_tr d c h l)) =
      Inr (PushOut 0 (carry x q), e3)" "ewma_at 13 ?ts (ewma_next ?tmp (dm_ewma_tr d) (hc_calculate_tr d c h l)) e3"
    unfolding q_def by (rule average_pushed [OF assms(2) at(6) valid_values(3)])
  have "get_valid v" by (simp add: v_def)
  then obtain e4 where e4: "ib_push (Ewma_ops (eh_alfa (dm_ewma_dx d))) e_dx (0, carry x v) = Inr (PushOut 0 (carry x ?r), e4)"
    "ewma_at 13 ?ts (ewma_next ?tmp (dm_ewma_dx d) v) e4"
    by (rule average_pushed [OF assms(2) at(10)])
  let ?d = "dmi_next ?tmp d (c, h, l) v"
  have "dmi_step d (hc_type x, hc_bar x) = Inr (?r, dmi_next (hc_type x \<noteq> ADD) d (c, h, l) v)"
    unfolding b by (rule dmi_step_next [OF assms(3) [unfolded b] p_def n_def q_def v_def])
  then have step: "dmi_step d (hc_type x, hc_bar x) = Inr (?r, ?d)" by (simp add: hc_type_def)
  show thesis
  proof (rule movements_pushed [OF assms(2) at(1-3), of h l c], goal_cases)
    case mv: (1 pdm1 pdm2 ndm1 ndm2 tr1 tr2 tr3)
    show ?case
    proof (rule indices_pushed [OF assms(2) at(7-9) v_def], goal_cases)
      case ix: (1 pdi1 pdi2 ndi1 ndi2 dx1 dx2)
      have "dmi_stand ?ts ?d pdm2 ndm2 tr3 e1 e2 e3 pdi2 ndi2 dx2 e4"
        using mv(8-10) e1(2) e2(2) e3(2) ix(7-9) e4(2) by (simp add: dmi_stand_def dmi_next_def)
      then have "dmi_follows ?ts ?d (log @ [carry x ?r]) (dmi_net d pdm2 ndm2 tr3 e1 e2 e3 pdi2 ndi2 dx2 e4 (log @ [carry x ?r]))"
        unfolding dmi_follows_def dmi_net_next by blast
      with dmi_net_run [OF ty len hlc mv(1-7) e1(1) e2(1) e3(1) ix(1-6) e4(1), of log, folded net] step show ?case
        by (rule that)
    qed
  qed
qed

section \<open>The first message\<close>

lemma dmi_net_init:
  assumes "first_msg x" and "h = fromC (ms_high (sm_msg x))" and "l = fromC (ms_low (sm_msg x))"
    and "c = fromC (ms_close (sm_msg x))"
    and "ib_push Pdm_ops pdm (0, carry x h) = Inr (KillPkt k1, pdm1)" and "ib_push Pdm_ops pdm1 (1, carry x l) = Inr (KillPkt p, pdm2)"
    and "ib_push Ndm_ops ndm (0, carry x h) = Inr (KillPkt k2, ndm1)" and "ib_push Ndm_ops ndm1 (1, carry x l) = Inr (KillPkt n, ndm2)"
    and "ib_push NewTrueRange_ops tr (0, carry x h) = Inr (KillPkt k3, tr1)"
    and "ib_push NewTrueRange_ops tr1 (2, carry x c) = Inr (KillPkt k4, tr2)"
    and "ib_push NewTrueRange_ops tr2 (1, carry x l) = Inr (KillPkt t, tr3)"
  shows "router_run dmi_wiring (sm_tsc x) (dmi_net d pdm ndm tr e_pdm e_ndm e_tr pdi ndi dx e_dx log) [(D_tstamp, 0, source_packet x)] =
    Some (Inr (dmi_net d pdm2 ndm2 tr3 e_pdm e_ndm e_tr pdi ndi dx e_dx log))"
proof -
  have ty: "sm_type x \<noteq> MSG_UPDATE" "sm_type x \<in> {MSG_ADD_SOURCE, MSG_UPDATE_SOURCE, MSG_INIT_SOURCE}" "length (sm_rest x) < 200"
    using assms(1) by (simp_all add: first_msg_def)
  note steps = enter [OF ty(1)] split_push [OF ty(2)] tee_push [OF ty(3)]
  show ?thesis
    using assms(5-)
    by (simp add: router_Cons steps dmi_net_simps dmi_wires checked_output_push_def SourceSplit_ctor_def
        assms(2-4) [symmetric] del: element_push.simps(2-4))
      (intro ext, simp add: dmi_net_def SourceSplit_ctor_def split: dmi_node.split)
qed

definition dmi_begin :: "HcDmi \<Rightarrow> bar \<Rightarrow> HcDmi" where
  "dmi_begin d b = (case b of (c, h, l) \<Rightarrow> dmi_initialize d c h l)"

lemma dmi_opt_net:
  assumes "dmi_opt = Inr net" and "HcDmi_ctor 13 = Inr d" and "e = configured Ewma_ctor 1 1 13 2"
    and "i = configured [CacheStruct_ctor] 1 2 10 2"
  shows "net = dmi_net d (configured Pdm_ctor 1 2 10 2) (configured Ndm_ctor 1 2 10 2) (configured NewTrueRange_ctor 1 3 10 2)
      e e e i i i e []"
    and "\<not> eh_initialized (dm_ewma_pdm d)" "\<not> eh_initialized (dm_ewma_ndm d)" "\<not> eh_initialized (dm_ewma_tr d)"
      "\<not> eh_initialized (dm_ewma_dx d)"
proof -
  obtain alpha where a: "Ewma_alpha (Some 13) = Inr alpha"
    and d: "d = \<lparr>dm_prev_close = FixedPt_ctor, dm_prev_high = FixedPt_ctor, dm_prev_low = FixedPt_ctor,
      dm_ewma_pdm = set_alfa EwmaHc_ctor alpha, dm_ewma_ndm = set_alfa EwmaHc_ctor alpha,
      dm_ewma_tr = set_alfa EwmaHc_ctor alpha, dm_ewma_dx = set_alfa EwmaHc_ctor alpha\<rparr>"
    using assms(2) by (auto simp: HcDmi_ctor_def Ewma_alpha_def bnd_eq_Inr)
  show "net = dmi_net d (configured Pdm_ctor 1 2 10 2) (configured Ndm_ctor 1 2 10 2) (configured NewTrueRange_ctor 1 3 10 2)
      e e e i i i e []"
    using assms(1) a unfolding d assms(3,4)
    by (intro ext) (auto simp: dmi_opt_def dmi_net_def set_alfa_def Let_def Pdi_ctor_def Ndi_ctor_def Dx_ctor_def split: dmi_node.split)
qed (use assms(2) in \<open>auto simp: HcDmi_ctor_def bnd_eq_Inr set_alfa_def EwmaHc_ctor_def\<close>)

lemma dmi_follows_init:
  assumes "dmi_opt = Inr net" and "HcDmi_ctor 13 = Inr d" and "first_msg x"
  obtains net' where "router_run dmi_wiring (sm_tsc x) net [(D_tstamp, 0, source_packet x)] = Some (Inr net')"
    and "dmi_follows (stamp_of x) (dmi_begin d (hc_bar x)) [] net'"
proof -
  define h l c where hlc: "h = fromC (ms_high (sm_msg x))" "l = fromC (ms_low (sm_msg x))" "c = fromC (ms_close (sm_msg x))"
  have b: "hc_bar x = (c, h, l)" by (simp add: hc_bar_def hlc)
  have ts: "0 < stamp_of x" using assms(3) by (simp add: first_msg_def)
  have two: "2 \<le> (10 :: nat)" by simp
  have cr: "carry x y = value_packet MSG_INIT y (stamp_of x) (tail_of x)" for y
    using assms(3) by (simp add: carry_def first_msg_def split_type_def)
  note net = dmi_opt_net [OF assms(1,2) refl refl]
  let ?d = "dmi_begin d (hc_bar x)"
  show thesis
  proof (rule pdm.prev_first_two [OF refl starts_invalid(1) sized_ctors(6) two ts, of 1 h "tail_of x" l], fold cr, goal_cases)
    case pdm: (1 pdm1 pdm2 w1)
    show ?case
    proof (rule ndm.prev_first_two [OF refl starts_invalid(2) sized_ctors(7) two ts, of 1 h "tail_of x" l], fold cr, goal_cases)
      case ndm: (1 ndm1 ndm2 w2)
      show ?case
      proof (rule new_tr.prev_first_three [OF refl starts_invalid(3) sized_ctors(8) two ts, of 1 h "tail_of x" c l], fold cr, goal_cases)
        case tr: (1 tr1 tr2 tr3 w3)
        let ?e = "configured Ewma_ctor 1 1 13 2" and ?i = "configured [CacheStruct_ctor] 1 2 10 2"
        have "dmi_stand (stamp_of x) ?d pdm2 ndm2 tr3 ?e ?e ?e ?i ?i ?i ?e"
          using pdm(3-5) ndm(3-5) tr(4,5) net(2-5)
          by (auto simp: dmi_stand_def dmi_begin_def b dmi_initialize_def ewma_at_def pair_at_def pdm_at_def ndm_at_def tr_at_def)
        moreover have "dmi_net ?d = dmi_net d"
          by (intro ext) (simp add: dmi_net_def dmi_begin_def b dmi_initialize_def split: dmi_node.split)
        ultimately have "dmi_follows (stamp_of x) ?d [] (dmi_net d pdm2 ndm2 tr3 ?e ?e ?e ?i ?i ?i ?e [])"
          unfolding dmi_follows_def by metis
        with dmi_net_init [OF assms(3) hlc pdm(1,2) ndm(1,2) tr(1-3), of d ?e ?e ?e ?i ?i ?i ?e "[]", folded net(1)]
        show ?case by (rule that)
      qed
    qed
  qed
qed

lemma dmi_follows_run:
  assumes "dmi_follows t d log net" and "later t xs" and "directed_run d (map (\<lambda>x. (hc_type x, hc_bar x)) xs)"
  shows "\<exists>net' outs d'. run_ops dmi_step d (map (\<lambda>x. (hc_type x, hc_bar x)) xs) = Inr (outs, d') \<and>
    feed dmi_wiring D_tstamp net xs = Some (Inr net') \<and> net' D_stats = Sink (log @ map2 carry xs outs)"
  using assms
proof (induction xs arbitrary: t d log net)
  case Nil
  then show ?case by (auto simp: dmi_follows_def dmi_net_def)
next
  case (Cons x xs)
  obtain net1 r d1 where net1: "router_run dmi_wiring (sm_tsc x) net [(D_tstamp, 0, source_packet x)] = Some (Inr net1)"
    "dmi_step d (hc_type x, hc_bar x) = Inr (r, d1)" "dmi_follows (stamp_of x) d1 (log @ [carry x r]) net1"
    using Cons.prems(3) by (auto intro: dmi_follows_round [OF Cons.prems(1,2)])
  have "later (stamp_of x) xs" "directed_run d1 (map (\<lambda>x. (hc_type x, hc_bar x)) xs)"
    using Cons.prems(2,3) net1(2) by simp_all
  from Cons.IH [OF net1(3) this] net1(1,2) show ?case by (auto simp: feed_Cons)
qed

text \<open>
  Property C2. The Click graph of dmi_opt.click computes the hand-coded directional movement index: for
  every first message and every sequence of additions and updates with increasing time stamps above 0 and fewer than
  200 bytes behind the message, as the copying tee takes packets of less than 256 bytes only,
  as long as the hand-coded object has a direction to report, one packet per message reaches the
  end of the graph, with the time stamp of the message and the value the hand-coded object
  returns for the same prices.
\<close>

theorem dmi_graph_computes_dmi:
  assumes "dmi_opt = Inr net" and "HcDmi_ctor 13 = Inr d" and "first_msg x0" and "later (stamp_of x0) xs"
    and "directed_run (dmi_begin d (hc_bar x0)) (map (\<lambda>x. (hc_type x, hc_bar x)) xs)"
  shows "\<exists>outs d' net' log. run_ops dmi_step (dmi_begin d (hc_bar x0)) (map (\<lambda>x. (hc_type x, hc_bar x)) xs) = Inr (outs, d') \<and>
    feed dmi_wiring D_tstamp net (x0 # xs) = Some (Inr net') \<and> net' D_stats = Sink log \<and>
    map logged log = map (\<lambda>(x, y). Inr (y, stamp_of x)) (zip xs outs)"
proof -
  obtain net1 where net1: "router_run dmi_wiring (sm_tsc x0) net [(D_tstamp, 0, source_packet x0)] = Some (Inr net1)"
    "dmi_follows (stamp_of x0) (dmi_begin d (hc_bar x0)) [] net1"
    by (rule dmi_follows_init [OF assms(1-3)])
  from dmi_follows_run [OF this(2) assms(4,5)] net1(1) show ?thesis
    by (fastforce simp: feed_Cons case_prod_unfold comp_def)
qed

theorem dmi_graph_computes_dmi_witness:
  "\<exists>net d outs d' net' log. dmi_opt = Inr net \<and> HcDmi_ctor 13 = Inr d \<and>
     run_ops dmi_step (dmi_begin d (hc_bar (sample MSG_INIT_SOURCE 1 500 600 400)))
       (map (\<lambda>x. (hc_type x, hc_bar x)) [sample MSG_UPDATE_SOURCE 2 550 700 450]) = Inr (outs, d') \<and>
     feed dmi_wiring D_tstamp net (sample MSG_INIT_SOURCE 1 500 600 400 # [sample MSG_UPDATE_SOURCE 2 550 700 450]) = Some (Inr net') \<and>
     net' D_stats = Sink log \<and>
     map logged log = map (\<lambda>(x, y). Inr (y, stamp_of x)) (zip [sample MSG_UPDATE_SOURCE 2 550 700 450] outs)"
proof -
  let ?i = "sample MSG_INIT_SOURCE 1 500 600 400" and ?u = "sample MSG_UPDATE_SOURCE 2 550 700 450"
  have "case HcDmi_ctor 13 of Inl _ \<Rightarrow> False | Inr d \<Rightarrow>
      directed_run (dmi_begin d (hc_bar ?i)) (map (\<lambda>x. (hc_type x, hc_bar x)) [?u])"
    by (simp add: HcDmi_ctor_def dmi_begin_def hc_bar_def hc_type_def sample_def provisional_def dmi_initialize_def directed_def
        dmi_indices_def dmi_step_def dmi_calculate_value_def hc_calculate_pdm_def hc_calculate_ndm_def hc_calculate_tr_def hc_max_def
        Let_def ewma_eval fixed_eval fp_lt_def fp_gt_def fpt_abs_def getC_def word_sless_alt)
  then obtain d where d: "HcDmi_ctor 13 = Inr d" "directed_run (dmi_begin d (hc_bar ?i)) (map (\<lambda>x. (hc_type x, hc_bar x)) [?u])"
    by (auto split: sum.splits simp del: directed_run.simps list.map)
  then obtain net where net: "dmi_opt = Inr net"
    by (auto simp: dmi_opt_def HcDmi_ctor_def Ewma_alpha_def Let_def bnd_eq_Inr)
  have "first_msg ?i" "later (stamp_of ?i) [?u]" by (simp_all add: first_msg_def)
  from dmi_graph_computes_dmi [OF net d(1) this d(2)] net d(1) show ?thesis by blast
qed

end
