(* ===== verification/Graph_Vortex.thy ===== *)
theory Graph_Vortex
  imports Graph_Dmi
begin

text \<open>
  The graph of vortex_opt.click against the hand-coded \<open>Vortex\<close>: three movements, their sums over a window,
  and the two indices; only the lower one is connected to the end of the graph.
\<close>

section \<open>One round of the graph\<close>

definition vortex_net :: "IndicatorBase \<Rightarrow> IndicatorBase \<Rightarrow> IndicatorBase \<Rightarrow> IndicatorBase \<Rightarrow> IndicatorBase \<Rightarrow> 
    IndicatorBase \<Rightarrow> IndicatorBase \<Rightarrow> IndicatorBase \<Rightarrow> Packet list \<Rightarrow> vortex_node \<Rightarrow> element" where
  "vortex_net vmu vmd tr s_vmu s_vmd s_tr viu vid log =
     (\<lambda>e. case e of
        V_tstamp \<Rightarrow> Stamp Timestamper_ctor
      | V_split_1 \<Rightarrow> Split 3 (SourceSplit_ctor\<lparr>high_port := 0, low_port := 1, close_port := 2\<rparr>)
      | V_tee_high \<Rightarrow> Tee 3
      | V_tee_low \<Rightarrow> Tee 3
      | V_tee_sum_tr \<Rightarrow> Tee 2
      | V_vmu \<Rightarrow> Indicator Vmu_ops vmu
      | V_vmd \<Rightarrow> Indicator Vmd_ops vmd
      | V_tr \<Rightarrow> Indicator NewTrueRange_ops tr
      | V_sum_vmu \<Rightarrow> Indicator Sum_ops s_vmu
      | V_sum_vmd \<Rightarrow> Indicator Sum_ops s_vmd
      | V_sum_tr \<Rightarrow> Indicator Sum_ops s_tr
      | V_viu \<Rightarrow> Indicator Viu_ops viu
      | V_vid \<Rightarrow> Indicator Vid_ops vid
      | V_stats \<Rightarrow> Sink log)"

lemma vortex_net_simps:
  "vortex_net vmu vmd tr s_vmu s_vmd s_tr viu vid log V_tstamp = Stamp Timestamper_ctor"
  "vortex_net vmu vmd tr s_vmu s_vmd s_tr viu vid log V_split_1 = Split 3 (SourceSplit_ctor\<lparr>high_port := 0, low_port := 1, close_port := 2\<rparr>)"
  "vortex_net vmu vmd tr s_vmu s_vmd s_tr viu vid log V_tee_high = Tee 3"
  "vortex_net vmu vmd tr s_vmu s_vmd s_tr viu vid log V_tee_low = Tee 3"
  "vortex_net vmu vmd tr s_vmu s_vmd s_tr viu vid log V_tee_sum_tr = Tee 2"
  "vortex_net vmu vmd tr s_vmu s_vmd s_tr viu vid log V_vmu = Indicator Vmu_ops vmu"
  "vortex_net vmu vmd tr s_vmu s_vmd s_tr viu vid log V_vmd = Indicator Vmd_ops vmd"
  "vortex_net vmu vmd tr s_vmu s_vmd s_tr viu vid log V_tr = Indicator NewTrueRange_ops tr"
  "vortex_net vmu vmd tr s_vmu s_vmd s_tr viu vid log V_sum_vmu = Indicator Sum_ops s_vmu"
  "vortex_net vmu vmd tr s_vmu s_vmd s_tr viu vid log V_sum_vmd = Indicator Sum_ops s_vmd"
  "vortex_net vmu vmd tr s_vmu s_vmd s_tr viu vid log V_sum_tr = Indicator Sum_ops s_tr"
  "vortex_net vmu vmd tr s_vmu s_vmd s_tr viu vid log V_viu = Indicator Viu_ops viu"
  "vortex_net vmu vmd tr s_vmu s_vmd s_tr viu vid log V_vid = Indicator Vid_ops vid"
  "vortex_net vmu vmd tr s_vmu s_vmd s_tr viu vid log V_stats = Sink log"
  by (simp_all add: vortex_net_def)

lemma vortex_wires:
  "map_of vortex_wiring (V_tstamp, 0) = Some (V_split_1, 0)" "map_of vortex_wiring (V_split_1, 0) = Some (V_tee_high, 0)"
  "map_of vortex_wiring (V_split_1, Suc 0) = Some (V_tee_low, 0)" "map_of vortex_wiring (V_split_1, 2) = Some (V_tr, 2)"
  "map_of vortex_wiring (V_tee_high, 0) = Some (V_vmu, 0)" "map_of vortex_wiring (V_tee_high, Suc 0) = Some (V_vmd, 0)"
  "map_of vortex_wiring (V_tee_high, 2) = Some (V_tr, 0)" "map_of vortex_wiring (V_tee_low, 0) = Some (V_vmu, Suc 0)"
  "map_of vortex_wiring (V_tee_low, Suc 0) = Some (V_vmd, Suc 0)" "map_of vortex_wiring (V_tee_low, 2) = Some (V_tr, Suc 0)"
  "map_of vortex_wiring (V_vmu, 0) = Some (V_sum_vmu, 0)" "map_of vortex_wiring (V_vmd, 0) = Some (V_sum_vmd, 0)"
  "map_of vortex_wiring (V_tr, 0) = Some (V_sum_tr, 0)" "map_of vortex_wiring (V_sum_tr, 0) = Some (V_tee_sum_tr, 0)"
  "map_of vortex_wiring (V_sum_vmu, 0) = Some (V_viu, 0)" "map_of vortex_wiring (V_sum_vmd, 0) = Some (V_vid, 0)"
  "map_of vortex_wiring (V_tee_sum_tr, 0) = Some (V_viu, Suc 0)" "map_of vortex_wiring (V_tee_sum_tr, Suc 0) = Some (V_vid, Suc 0)"
  "map_of vortex_wiring (V_vid, 0) = Some (V_stats, 0)"
  by (simp_all add: vortex_wiring_def)

lemma vortex_net_run:
  assumes "sm_type x \<in> {MSG_ADD_SOURCE, MSG_UPDATE_SOURCE, MSG_INIT_SOURCE}" and "length (sm_rest x) < 200"
    and "h = fromC (ms_high (sm_msg x))" and "l = fromC (ms_low (sm_msg x))" and "c = fromC (ms_close (sm_msg x))"
    and "ib_push Vmu_ops vmu (0, carry x h) = Inr (KillPkt k1, vmu1)" and "ib_push Vmu_ops vmu1 (1, carry x l) = Inr (PushOut 0 u, vmu2)"
    and "ib_push Vmd_ops vmd (0, carry x h) = Inr (KillPkt k2, vmd1)" and "ib_push Vmd_ops vmd1 (1, carry x l) = Inr (PushOut 0 d, vmd2)"
    and "ib_push NewTrueRange_ops tr (0, carry x h) = Inr (KillPkt k3, tr1)"
    and "ib_push NewTrueRange_ops tr1 (2, carry x c) = Inr (KillPkt k4, tr2)"
    and "ib_push NewTrueRange_ops tr2 (1, carry x l) = Inr (PushOut 0 t, tr3)"
    and "ib_push Sum_ops s_vmu (0, u) = Inr (PushOut 0 su, s_vmu1)" and "ib_push Sum_ops s_vmd (0, d) = Inr (PushOut 0 sd, s_vmd1)"
    and "ib_push Sum_ops s_tr (0, t) = Inr (PushOut 0 (carry x st), s_tr1)"
    and "ib_push Viu_ops viu (0, su) = Inr (KillPkt k5, viu1)" and "ib_push Viu_ops viu1 (1, carry x st) = Inr (KillPkt k6, viu2)"
    and "ib_push Vid_ops vid (0, sd) = Inr (KillPkt k7, vid1)" and "ib_push Vid_ops vid1 (1, carry x st) = Inr (PushOut 0 out, vid2)"
  shows "router_run vortex_wiring (sm_tsc x) (vortex_net vmu vmd tr s_vmu s_vmd s_tr viu vid log) [(V_tstamp, 0, source_packet x)] =
    Some (Inr (vortex_net vmu2 vmd2 tr3 s_vmu1 s_vmd1 s_tr1 viu2 vid2 (log @ [out])))"
proof -
  have "sm_type x \<noteq> MSG_UPDATE" using assms(1) by auto
  note steps = enter [OF this] split_push [OF assms(1)] tee_push [OF assms(2)]
  show ?thesis
    using assms(6-)
    by (simp add: router_Cons steps vortex_net_simps vortex_wires checked_output_push_def SourceSplit_ctor_def
        assms(3-5) [symmetric] del: element_push.simps(2-4))
      (intro ext, simp add: vortex_net_def SourceSplit_ctor_def split: vortex_node.split)
qed

lemma vortex_net_init:
  assumes "first_msg x" and "h = fromC (ms_high (sm_msg x))" and "l = fromC (ms_low (sm_msg x))"
    and "c = fromC (ms_close (sm_msg x))"
    and "ib_push Vmu_ops vmu (0, carry x h) = Inr (KillPkt k1, vmu1)" and "ib_push Vmu_ops vmu1 (1, carry x l) = Inr (KillPkt p, vmu2)"
    and "ib_push Vmd_ops vmd (0, carry x h) = Inr (KillPkt k2, vmd1)" and "ib_push Vmd_ops vmd1 (1, carry x l) = Inr (KillPkt n, vmd2)"
    and "ib_push NewTrueRange_ops tr (0, carry x h) = Inr (KillPkt k3, tr1)"
    and "ib_push NewTrueRange_ops tr1 (2, carry x c) = Inr (KillPkt k4, tr2)"
    and "ib_push NewTrueRange_ops tr2 (1, carry x l) = Inr (KillPkt t, tr3)"
  shows "router_run vortex_wiring (sm_tsc x) (vortex_net vmu vmd tr s_vmu s_vmd s_tr viu vid log) [(V_tstamp, 0, source_packet x)] =
    Some (Inr (vortex_net vmu2 vmd2 tr3 s_vmu s_vmd s_tr viu vid log))"
proof -
  have ty: "sm_type x \<noteq> MSG_UPDATE" "sm_type x \<in> {MSG_ADD_SOURCE, MSG_UPDATE_SOURCE, MSG_INIT_SOURCE}" "length (sm_rest x) < 200"
    using assms(1) by (simp_all add: first_msg_def)
  note steps = enter [OF ty(1)] split_push [OF ty(2)] tee_push [OF ty(3)]
  show ?thesis
    using assms(5-)
    by (simp add: router_Cons steps vortex_net_simps vortex_wires checked_output_push_def SourceSplit_ctor_def
        assms(2-4) [symmetric] del: element_push.simps(2-4))
      (intro ext, simp add: vortex_net_def SourceSplit_ctor_def split: vortex_node.split)
qed

section \<open>Following the hand-coded object\<close>

definition vmu_at :: "64 word \<Rightarrow> FixedPt \<Rightarrow> IndicatorBase \<Rightarrow> bool" where
  "vmu_at t pl ib \<longleftrightarrow> (\<exists>w. vmu.prev_at 1 10 t w ib \<and> w 1 = pl)"

lemma vmu_push:
  assumes "vmu_at t pl ib" and "t < ts"
  obtains ib1 ib' where "ib_push Vmu_ops ib (0, value_packet (round_type temp) h ts rest) =
      Inr (KillPkt (value_packet (round_type temp) h ts rest), ib1)"
    and "ib_push Vmu_ops ib1 (1, value_packet (round_type temp) l ts rest) =
      Inr (PushOut 0 (value_packet (round_type temp) (fpt_abs (fp_minus h pl)) ts rest), ib')"
    and "vmu_at ts (if temp then pl else l) ib'"
proof -
  obtain w where w: "vmu.prev_at 1 10 t w ib" "w 1 = pl"
    using assms(1) unfolding vmu_at_def by blast
  have "2 \<le> (10 :: nat)" by simp
  then show thesis
  proof (rule vmu.prev_push_two [OF refl w(1) _ assms(2), of temp h rest l], goal_cases)
    case (1 ib1 ib' w')
    with w show ?case by (intro that [of ib1 ib']) (auto simp: vmu_at_def checked_output_push_def)
  qed
qed

definition vmd_at :: "64 word \<Rightarrow> FixedPt \<Rightarrow> IndicatorBase \<Rightarrow> bool" where
  "vmd_at t ph ib \<longleftrightarrow> (\<exists>w. vmd.prev_at 1 10 t w ib \<and> w 0 = ph)"

lemma vmd_push:
  assumes "vmd_at t ph ib" and "t < ts"
  obtains ib1 ib' where "ib_push Vmd_ops ib (0, value_packet (round_type temp) h ts rest) =
      Inr (KillPkt (value_packet (round_type temp) h ts rest), ib1)"
    and "ib_push Vmd_ops ib1 (1, value_packet (round_type temp) l ts rest) =
      Inr (PushOut 0 (value_packet (round_type temp) (fpt_abs (fp_minus l ph)) ts rest), ib')"
    and "vmd_at ts (if temp then ph else h) ib'"
proof -
  obtain w where w: "vmd.prev_at 1 10 t w ib" "w 0 = ph"
    using assms(1) unfolding vmd_at_def by blast
  have "2 \<le> (10 :: nat)" by simp
  then show thesis
  proof (rule vmd.prev_push_two [OF refl w(1) _ assms(2), of temp h rest l], goal_cases)
    case (1 ib1 ib' w')
    with w show ?case by (intro that [of ib1 ib']) (auto simp: vmd_at_def checked_output_push_def)
  qed
qed

lemma valid_sums [simp]: "get_valid (fpt_abs (fp_minus x y))" "get_valid (fp_sum xs)" "get_valid (calculate_tr l h pc)"
  by (simp_all add: fpt_abs_def fp_sum_def calculate_tr_def fpt_max_def get_valid_def fromC_def fp_minus_def int_times_def fp_times_def)

type_synonym history = "bar \<times> (FixedPt \<times> FixedPt \<times> FixedPt) list"

text \<open>The graph stands at the last bar added and the movements so far.\<close>

definition vortex_stand :: "64 word \<Rightarrow> history \<Rightarrow> IndicatorBase \<Rightarrow> IndicatorBase \<Rightarrow> IndicatorBase \<Rightarrow> IndicatorBase \<Rightarrow>
    IndicatorBase \<Rightarrow> IndicatorBase \<Rightarrow> IndicatorBase \<Rightarrow> IndicatorBase \<Rightarrow> bool" where
  "vortex_stand t hist vmu vmd tr s_vmu s_vmd s_tr viu vid \<longleftrightarrow>
     (case hist of ((pc, ph, pl), ms) \<Rightarrow>
        vmu_at t pl vmu \<and> vmd_at t ph vmd \<and> tr_at t pc tr \<and> sum_at 13 t (map fst ms) s_vmu \<and>
        sum_at 13 t (map (fst \<circ> snd) ms) s_vmd \<and> sum_at 13 t (map (snd \<circ> snd) ms) s_tr \<and>
        pair_at 0 10 t viu \<and> pair_at 1 10 t vid)"

definition vortex_follows :: "64 word \<Rightarrow> history \<Rightarrow> Packet list \<Rightarrow> (vortex_node \<Rightarrow> element) \<Rightarrow> bool" where
  "vortex_follows t hist log net \<longleftrightarrow>
     (\<exists>vmu vmd tr s_vmu s_vmd s_tr viu vid. net = vortex_net vmu vmd tr s_vmu s_vmd s_tr viu vid log \<and>
        vortex_stand t hist vmu vmd tr s_vmu s_vmd s_tr viu vid)"

lemma changes_pushed:
  assumes "later t (x # xs)" and "vmu_at t pl vmu" and "vmd_at t ph vmd" and "tr_at t pc tr"
  obtains vmu1 vmu2 vmd1 vmd2 tr1 tr2 tr3
  where "ib_push Vmu_ops vmu (0, carry x h) = Inr (KillPkt (carry x h), vmu1)"
    and "ib_push Vmu_ops vmu1 (1, carry x l) = Inr (PushOut 0 (carry x (fpt_abs (fp_minus h pl))), vmu2)"
    and "ib_push Vmd_ops vmd (0, carry x h) = Inr (KillPkt (carry x h), vmd1)"
    and "ib_push Vmd_ops vmd1 (1, carry x l) = Inr (PushOut 0 (carry x (fpt_abs (fp_minus l ph))), vmd2)"
    and "ib_push NewTrueRange_ops tr (0, carry x h) = Inr (KillPkt (carry x h), tr1)"
    and "ib_push NewTrueRange_ops tr1 (2, carry x c) = Inr (KillPkt (carry x c), tr2)"
    and "ib_push NewTrueRange_ops tr2 (1, carry x l) = Inr (PushOut 0 (carry x (calculate_tr l h pc)), tr3)"
    and "vmu_at (stamp_of x) (if provisional x then pl else l) vmu2"
    and "vmd_at (stamp_of x) (if provisional x then ph else h) vmd2"
    and "tr_at (stamp_of x) (if provisional x then pc else c) tr3"
proof -
  have ty: "sm_type x \<in> {MSG_ADD_SOURCE, MSG_UPDATE_SOURCE}" and ts: "t < stamp_of x" using assms(1) by auto
  note cr = carry_round [OF ty]
  obtain vmu1 vmu2 where vmu: "ib_push Vmu_ops vmu (0, carry x h) = Inr (KillPkt (carry x h), vmu1)"
    "ib_push Vmu_ops vmu1 (1, carry x l) = Inr (PushOut 0 (carry x (fpt_abs (fp_minus h pl))), vmu2)"
    "vmu_at (stamp_of x) (if provisional x then pl else l) vmu2"
    unfolding cr by (rule vmu_push [OF assms(2) ts])
  obtain vmd1 vmd2 where vmd: "ib_push Vmd_ops vmd (0, carry x h) = Inr (KillPkt (carry x h), vmd1)"
    "ib_push Vmd_ops vmd1 (1, carry x l) = Inr (PushOut 0 (carry x (fpt_abs (fp_minus l ph))), vmd2)"
    "vmd_at (stamp_of x) (if provisional x then ph else h) vmd2"
    unfolding cr by (rule vmd_push [OF assms(3) ts])
  obtain tr1 tr2 tr3 where tr: "ib_push NewTrueRange_ops tr (0, carry x h) = Inr (KillPkt (carry x h), tr1)"
    "ib_push NewTrueRange_ops tr1 (2, carry x c) = Inr (KillPkt (carry x c), tr2)"
    "ib_push NewTrueRange_ops tr2 (1, carry x l) = Inr (PushOut 0 (carry x (calculate_tr l h pc)), tr3)"
    "tr_at (stamp_of x) (if provisional x then pc else c) tr3"
    unfolding cr by (rule tr_push [OF assms(4) ts])
  from vmu(1,2) vmd(1,2) tr(1-3) vmu(3) vmd(3) tr(4) show thesis by (rule that)
qed

lemma sum_pushed:
  assumes "later t (x # xs)" and "sum_at 13 t vs ib" and "get_valid v"
  obtains ib' where "ib_push Sum_ops ib (0, carry x v) = Inr (PushOut 0 (carry x (fp_sum (window 13 (vs @ [v])))), ib')"
    and "sum_at 13 (stamp_of x) (if provisional x \<and> vs \<noteq> [] then vs else vs @ [v]) ib'"
proof -
  have ty: "sm_type x \<in> {MSG_ADD_SOURCE, MSG_UPDATE_SOURCE}" and ts: "t < stamp_of x" and two: "2 \<le> (13 :: nat)"
    using assms(1) by auto
  obtain ib' where "ib_push Sum_ops ib (0, carry x v) = Inr (PushOut 0 (carry x (fp_sum (window 13 (vs @ [v])))), ib')"
    "sum_at 13 (stamp_of x) (if provisional x \<and> vs \<noteq> [] then vs else vs @ [v]) ib'"
    unfolding carry_round [OF ty] by (rule sum_at_push [OF assms(2) two ts assms(3)])
  then show thesis by (rule that)
qed

lemma ratios_pushed:
  assumes "later t (x # xs)" and "pair_at 0 10 t viu" and "pair_at 1 10 t vid"
  obtains viu1 viu2 vid1 vid2
  where "ib_push Viu_ops viu (0, carry x p) = Inr (KillPkt (carry x p), viu1)"
    and "ib_push Viu_ops viu1 (1, carry x q) = Inr (KillPkt (carry x (safe_ratio p q)), viu2)"
    and "ib_push Vid_ops vid (0, carry x n) = Inr (KillPkt (carry x n), vid1)"
    and "ib_push Vid_ops vid1 (1, carry x q) = Inr (PushOut 0 (carry x (safe_ratio n q)), vid2)"
    and "pair_at 0 10 (stamp_of x) viu2" and "pair_at 1 10 (stamp_of x) vid2"
proof -
  have ty: "sm_type x \<in> {MSG_ADD_SOURCE, MSG_UPDATE_SOURCE}" and ts: "t < stamp_of x" and two: "2 \<le> (10 :: nat)"
    using assms(1) by auto
  have out: "PushOut 0 y = checked_output_push 1 0 y" "KillPkt y = checked_output_push 0 0 y" for y
    by (simp_all add: checked_output_push_def)
  note cr = carry_round [OF ty]
  obtain viu1 viu2 where viu: "ib_push Viu_ops viu (0, carry x p) = Inr (KillPkt (carry x p), viu1)"
    "ib_push Viu_ops viu1 (1, carry x q) = Inr (checked_output_push 0 0 (carry x (safe_ratio p q)), viu2)" "pair_at 0 10 (stamp_of x) viu2"
    unfolding cr by (rule viu.pair_push [OF assms(2) two ts valid_values(4)])
  obtain vid1 vid2 where vid: "ib_push Vid_ops vid (0, carry x n) = Inr (KillPkt (carry x n), vid1)"
    "ib_push Vid_ops vid1 (1, carry x q) = Inr (checked_output_push 1 0 (carry x (safe_ratio n q)), vid2)" "pair_at 1 10 (stamp_of x) vid2"
    unfolding cr by (rule vid.pair_push [OF assms(3) two ts valid_values(4)])
  from viu(1) viu(2) [folded out] vid(1) vid(2) [folded out] viu(3) vid(3) show thesis by (rule that)
qed

text \<open>
  A round of the graph, at whatever history: the lower index goes to the end. The first movement stays in the windows
  even when it is provisional.
\<close>

definition lower_index :: "history \<Rightarrow> bar \<Rightarrow> FixedPt" where
  "lower_index hist b =
     (let ms = window 13 (snd hist @ [movement (fst hist) b])
      in safe_ratio (fp_sum (map (fst \<circ> snd) ms)) (fp_sum (map (snd \<circ> snd) ms)))"

definition history_next :: "bool \<Rightarrow> history \<Rightarrow> bar \<Rightarrow> history" where
  "history_next temp hist b =
     (if temp then fst hist else b, if temp \<and> snd hist \<noteq> [] then snd hist else snd hist @ [movement (fst hist) b])"

lemma vortex_follows_step:
  assumes "vortex_follows t hist log net" and "later t (x # xs)"
  obtains net' where "router_run vortex_wiring (sm_tsc x) net [(V_tstamp, 0, source_packet x)] = Some (Inr net')"
    and "vortex_follows (stamp_of x) (history_next (provisional x) hist (hc_bar x)) (log @ [carry x (lower_index hist (hc_bar x))]) net'"
proof -
  define h l c where hlc: "h = fromC (ms_high (sm_msg x))" "l = fromC (ms_low (sm_msg x))" "c = fromC (ms_close (sm_msg x))"
  obtain pc ph pl ms where hist: "hist = ((pc, ph, pl), ms)" by (cases hist) auto
  define u d r where udr: "u = fpt_abs (fp_minus h pl)" "d = fpt_abs (fp_minus l ph)" "r = calculate_tr l h pc"
  let ?us = "map fst ms" and ?ds = "map (fst \<circ> snd) ms" and ?rs = "map (snd \<circ> snd) ms"
  let ?sum = "\<lambda>vs. fp_sum (window 13 vs)"
  have mv: "movement (pc, ph, pl) (hc_bar x) = (u, d, r)"
    by (simp add: hc_bar_def hlc udr calculate_tr_def fpt_max_def hc_max_def)
  have vid: "lower_index hist (hc_bar x) = safe_ratio (?sum (?ds @ [d])) (?sum (?rs @ [r]))"
    by (simp add: lower_index_def hist mv Let_def map_window)
  have ty: "sm_type x \<in> {MSG_ADD_SOURCE, MSG_UPDATE_SOURCE, MSG_INIT_SOURCE}" and len: "length (sm_rest x) < 200"
    using assms(2) by auto
  obtain vmu vmd tr s_vmu s_vmd s_tr viu vid where
    net: "net = vortex_net vmu vmd tr s_vmu s_vmd s_tr viu vid log"
    and st: "vortex_stand t hist vmu vmd tr s_vmu s_vmd s_tr viu vid"
    using assms(1) unfolding vortex_follows_def by blast
  then have at: "vmu_at t pl vmu" "vmd_at t ph vmd" "tr_at t pc tr" "sum_at 13 t ?us s_vmu" "sum_at 13 t ?ds s_vmd"
    "sum_at 13 t ?rs s_tr" "pair_at 0 10 t viu" "pair_at 1 10 t vid"
    by (simp_all add: vortex_stand_def hist)
  have gv: "get_valid u" "get_valid d" "get_valid r" by (simp_all add: udr)
  have bar: "hc_bar x = (c, h, l)" by (simp add: hc_bar_def hlc)
  have nxt: "history_next (provisional x) hist (hc_bar x) =
      (if provisional x then (pc, ph, pl) else (c, h, l), if provisional x \<and> ms \<noteq> [] then ms else ms @ [(u, d, r)])"
    by (simp add: history_next_def hist mv) (simp add: bar)
  show thesis
  proof (rule changes_pushed [OF assms(2) at(1-3), of h l c], fold udr, goal_cases)
    case ch: (1 vmu1 vmu2 vmd1 vmd2 tr1 tr2 tr3)
    show ?case
    proof (rule sum_pushed [OF assms(2) at(4) gv(1)], rule sum_pushed [OF assms(2) at(5) gv(2)],
        rule sum_pushed [OF assms(2) at(6) gv(3)], rule ratios_pushed [OF assms(2) at(7,8), where p = "?sum (?us @ [u])" and n = "?sum (?ds @ [d])" and q = "?sum (?rs @ [r])"],
        goal_cases)
      case s: (1 s1 s2 s3 viu1 viu2 vid1 vid2)
      have "vortex_stand (stamp_of x) (history_next (provisional x) hist (hc_bar x)) vmu2 vmd2 tr3 s1 s2 s3 viu2 vid2"
        using ch(8-10) s(2,4,6,11,12) unfolding vortex_stand_def nxt
        by (cases "provisional x"; cases "ms = []") simp_all
      then have "vortex_follows (stamp_of x) (history_next (provisional x) hist (hc_bar x))
          (log @ [carry x (lower_index hist (hc_bar x))])
          (vortex_net vmu2 vmd2 tr3 s1 s2 s3 viu2 vid2 (log @ [carry x (lower_index hist (hc_bar x))]))"
        unfolding vortex_follows_def by blast
      with vortex_net_run [OF ty len hlc ch(1-7) s(1,3,5,7-10), of log, folded net vid] show ?case by (rule that)
    qed
  qed
qed

text \<open>The hand-coded object takes the first movement in even when it is provisional, and then counts it twice.\<close>

definition doubles :: "FixedPt \<Rightarrow> bool" where
  "doubles x \<longleftrightarrow> - (2 ^ 62) \<le> sint (fp_value x) \<and> sint (fp_value x) < 2 ^ 62"

lemma doubled_ratio:
  assumes "fp_divide (fp_plus x x) (fp_plus y y) = Inr q" and "doubles x" and "doubles y"
  shows "q = safe_ratio x y"
proof -
  let ?x = "fp_value x" and ?y = "fp_value y"
  have two: "sint (v + v) = 2 * sint v" if "- (2 ^ 62) \<le> sint v" "sint v < 2 ^ 62" for v :: fixedpt
    using sint_word_of_int_id [of "sint v + sint v", where 'a = 64] that by simp
  have s: "sint (?x + ?x) = 2 * sint ?x" "sint (?y + ?y) = 2 * sint ?y"
    using assms(2,3) two by (simp_all add: doubles_def)
  have nz: "?y + ?y \<noteq> 0" using assms(1) by (auto simp: fp_divide_def fp_plus_def fixedpt_add_def fromC_def)
  then have y: "?y \<noteq> 0" by auto
  have "(2 * sint ?x * 2 ^ 40) sdiv (2 * sint ?y) = (sint ?x * 2 ^ 40) sdiv sint ?y"
    by (simp add: signed_divide_int_def sgn_mult abs_mult mult.commute [of _ 1099511627776])
  then have "fixedpt_div (?x + ?x) (?y + ?y) = fixedpt_div ?x ?y"
    unfolding fixedpt_div_int [OF nz] fixedpt_div_int [OF y] s by simp
  then have "fp_divide x y = Inr q"
    using assms(1) by (simp add: fp_divide_def fp_plus_def fixedpt_add_def fromC_def)
  then show ?thesis by (simp add: safe_ratio_divide)
qed

lemma vortex_first_update:
  assumes "vx_ok 12 v (prev, [])" and "vortex_step v (UPDATE, b) = Inr (out, v')"
    and "doubles (fst (snd (movement prev b)))" and "doubles (snd (snd (movement prev b)))"
  shows "snd out = lower_index (prev, []) b \<and> vx_ok 12 v' (prev, [movement prev b])"
proof -
  obtain cl h l where b: "b = (cl, h, l)" by (cases b)
  obtain vmu vmd tr where m: "movement prev b = (vmu, vmd, tr)" by (cases "movement prev b")
  have prev: "prev = (vx_prev_close v, vx_prev_high v, vx_prev_low v)" and i: "\<not> sr_initialized (vx_vmu_sum v)"
    using assms(1) by (simp_all add: vx_ok_def sums_def)
  have twelve: "0 < (12 :: nat)" by simp
  obtain v1 where v1: "vortex_push v vmu vmd tr = Inr v1" "vx_ok 12 v1 (prev, [(vmu, vmd, tr)])"
    by (rule vx_push [OF assms(1) twelve]) simp
  have tot: "fp_plus (get_total_sum (vx_vmd_sum v1)) vmd = fp_plus (fp_sum [vmd]) vmd"
    "fp_plus (get_total_sum (vx_tr_sum v1)) tr = fp_plus (fp_sum [tr]) tr"
    using v1(2) sums_total [of _ 12 "[vmd]" vmd] sums_total [of _ 12 "[tr]" tr]
    by (simp_all add: vx_ok_def window_def fp_sum_def)
  have gv: "get_valid vmd" "get_valid tr"
    using m unfolding b prev by (auto simp: fpt_abs_def get_valid_def fromC_def hc_max_def fp_minus_def int_times_def fp_times_def)
  have "v' = v1" "fp_divide (fp_plus (fp_sum [vmd]) vmd) (fp_plus (fp_sum [tr]) tr) = Inr (snd out)"
    using assms(2) m i tot unfolding b prev
    by (auto simp: vortex_step_def vortex_calculate_value_def Let_def v1(1) bnd_eq_Inr)
  with doubled_ratio [of vmd tr "snd out"] assms(3,4) v1(2) m gv show ?thesis
    by (simp add: fp_sum_single lower_index_def window_def)
qed

lemma vortex_follows_init:
  assumes "first_msg x"
  obtains net' where "router_run vortex_wiring (sm_tsc x) vortex_opt [(V_tstamp, 0, source_packet x)] = Some (Inr net')"
    and "vortex_follows (stamp_of x) (hc_bar x, []) [] net'"
proof -
  define h l c where hlc: "h = fromC (ms_high (sm_msg x))" "l = fromC (ms_low (sm_msg x))" "c = fromC (ms_close (sm_msg x))"
  have ts: "0 < stamp_of x" using assms by (simp add: first_msg_def)
  have two: "2 \<le> (10 :: nat)" by simp
  have cr: "carry x y = value_packet MSG_INIT y (stamp_of x) (tail_of x)" for y
    using assms by (simp add: carry_def first_msg_def split_type_def)
  let ?s = "configured Sum_ctor 1 1 13 2" and ?i = "\<lambda>nout. configured [CacheStruct_ctor] nout 2 10 2"
  have net: "vortex_opt = vortex_net (configured Vmu_ctor 1 2 10 2) (configured Vmd_ctor 1 2 10 2) (configured NewTrueRange_ctor 1 3 10 2)
      ?s ?s ?s (?i 0) (?i 1) []"
    by (intro ext) (simp add: vortex_opt_def vortex_net_def Let_def Viu_ctor_def Vid_ctor_def split: vortex_node.split)
  show thesis
  proof (rule vmu.prev_first_two [OF refl starts_invalid(4) sized_ctors(9) two ts, of 1 h "tail_of x" l], fold cr, goal_cases)
    case vmu: (1 vmu1 vmu2 w1)
    show ?case
    proof (rule vmd.prev_first_two [OF refl starts_invalid(5) sized_ctors(10) two ts, of 1 h "tail_of x" l], fold cr, goal_cases)
      case vmd: (1 vmd1 vmd2 w2)
      show ?case
      proof (rule new_tr.prev_first_three [OF refl starts_invalid(3) sized_ctors(8) two ts, of 1 h "tail_of x" c l], fold cr, goal_cases)
        case tr: (1 tr1 tr2 tr3 w3)
        have "vortex_stand (stamp_of x) (hc_bar x, []) vmu2 vmd2 tr3 ?s ?s ?s (?i 0) (?i 1)"
          using vmu(3-5) vmd(3-5) tr(4,5)
          by (auto simp: vortex_stand_def hc_bar_def hlc sum_at_def pair_at_def vmu_at_def vmd_at_def tr_at_def)
        then have "vortex_follows (stamp_of x) (hc_bar x, []) [] (vortex_net vmu2 vmd2 tr3 ?s ?s ?s (?i 0) (?i 1) [])"
          unfolding vortex_follows_def by blast
        with vortex_net_init [OF assms hlc vmu(1,2) vmd(1,2) tr(1-3), of ?s ?s ?s "?i 0" "?i 1" "[]", folded net]
        show ?case by (rule that)
      qed
    qed
  qed
qed

abbreviation hc_inputs :: "source_msg list \<Rightarrow> (UpdateType \<times> bar) list" where
  "hc_inputs xs \<equiv> map (\<lambda>x. (hc_type x, hc_bar x)) xs"

text \<open>What one call of the hand-coded object returns, and the history it then stands at.\<close>

lemma vortex_step_history:
  assumes "vx_ok 12 v hist" and "vortex_step v (t, b) = Inr (out, v')"
    and "t = ADD \<or> snd hist \<noteq> [] \<or> doubles (fst (snd (movement (fst hist) b))) \<and> doubles (snd (snd (movement (fst hist) b)))"
  shows "snd out = lower_index hist b \<and> vx_ok 12 v' (history_next (t \<noteq> ADD) hist b)"
proof -
  obtain prev ms where hist: "hist = (prev, ms)" by (cases hist)
  show ?thesis
  proof (cases "t = ADD \<or> ms \<noteq> []")
    case True
    have "sim (vx_ok 12) (vortex_step v (t, b)) (vortex_ref 13 (prev, ms) (t, b))"
      using vortex_simulates [OF assms(1) [unfolded hist] _ True, of b] by simp
    with assms(2) obtain hist' where "vortex_ref 13 (prev, ms) (t, b) = Inr (out, hist')" "vx_ok 12 v' hist'"
      by (cases "vortex_ref 13 (prev, ms) (t, b)") auto
    with True show ?thesis
      by (cases t) (auto simp: vortex_ref_def Let_def bnd_eq_Inr lower_index_def hist history_next_def dest: safe_ratio_divide)
  next
    case False
    have t: "t = UPDATE" "ms = []" using False by (cases t; simp)+
    from vortex_first_update [OF assms(1) [unfolded hist t] assms(2) [unfolded t]] assms(3) show ?thesis
      by (simp add: hist t history_next_def)
  qed
qed

text \<open>A first message that is provisional has movements that can be doubled.\<close>

definition first_doubles :: "history \<Rightarrow> source_msg list \<Rightarrow> bool" where
  "first_doubles hist xs \<longleftrightarrow>
     (snd hist = [] \<longrightarrow> (case xs of [] \<Rightarrow> True | x # _ \<Rightarrow> provisional x \<longrightarrow>
        doubles (fst (snd (movement (fst hist) (hc_bar x)))) \<and> doubles (snd (snd (movement (fst hist) (hc_bar x))))))"

lemma vortex_follows_run:
  assumes "vortex_follows t hist log net" and "later t xs" and "first_doubles hist xs"
    and "vx_ok 12 v hist" and "run_ops vortex_step v (hc_inputs xs) = Inr (outs, v')"
  shows "\<exists>net'. feed vortex_wiring V_tstamp net xs = Some (Inr net') \<and> net' V_stats = Sink (log @ map2 carry xs (map snd outs))"
  using assms
proof (induction xs arbitrary: t hist log net v outs)
  case Nil
  then show ?case by (auto simp: vortex_follows_def vortex_net_def)
next
  case (Cons x xs)
  from Cons.prems(5) obtain out v1 outs1 where v1: "vortex_step v (hc_type x, hc_bar x) = Inr (out, v1)"
    "run_ops vortex_step v1 (hc_inputs xs) = Inr (outs1, v')" "outs = out # outs1"
    by (auto simp: bnd_eq_Inr)
  let ?hist = "history_next (provisional x) hist (hc_bar x)"
  have ty: "(hc_type x \<noteq> ADD) = provisional x" by (simp add: hc_type_def)
  have v: "snd out = lower_index hist (hc_bar x)" "vx_ok 12 v1 ?hist"
    using vortex_step_history [OF Cons.prems(4) v1(1)] Cons.prems(3) ty by (auto simp: first_doubles_def)
  obtain net1 where net1: "router_run vortex_wiring (sm_tsc x) net [(V_tstamp, 0, source_packet x)] = Some (Inr net1)"
    "vortex_follows (stamp_of x) ?hist (log @ [carry x (snd out)]) net1"
    unfolding v(1) by (rule vortex_follows_step [OF Cons.prems(1,2)])
  have "later (stamp_of x) xs" "first_doubles ?hist xs"
    using Cons.prems(2) by (simp_all add: first_doubles_def history_next_def)
  from Cons.IH [OF net1(2) this v(2) v1(2)] net1(1) v1(3) show ?case
    by (auto simp: feed_Cons)
qed

definition vortex_begin :: "HcVortex \<Rightarrow> bar \<Rightarrow> HcVortex" where
  "vortex_begin v b = (case b of (c, h, l) \<Rightarrow> vortex_initialize v c h l)"

lemma vortex_begin_ok: "vx_ok 12 (vortex_begin (HcVortex_ctor 13) b) (b, [])"
  using vx_ok_start [of 13] by (simp add: vortex_begin_def split: prod.split)

text \<open>
  Property C3. The Click graph of vortex_opt.click computes the lower value of the hand-coded vortex indicator: for
  every first message and every sequence of additions and updates with increasing time stamps above 0 and fewer than
  200 bytes behind the message, for
  which the hand-coded object does not divide by zero, one packet per message
  reaches the end of the graph, with the time stamp of the message and the value the hand-coded
  object returns for the same prices. If the second message is an update, whose movement the
  hand-coded object counts twice, its movements must not be so large that twice their value overflows.
\<close>

theorem vortex_graph_computes_vortex:
  assumes "first_msg x0" and "later (stamp_of x0) xs" and "first_doubles (hc_bar x0, []) xs"
    and "run_ops vortex_step (vortex_begin (HcVortex_ctor 13) (hc_bar x0)) (hc_inputs xs) = Inr (outs, v')"
  shows "\<exists>net' log. feed vortex_wiring V_tstamp vortex_opt (x0 # xs) = Some (Inr net') \<and> net' V_stats = Sink log \<and>
    map logged log = map (\<lambda>(x, y). Inr (snd y, stamp_of x)) (zip xs outs)"
proof -
  obtain net1 where net1: "router_run vortex_wiring (sm_tsc x0) vortex_opt [(V_tstamp, 0, source_packet x0)] = Some (Inr net1)"
    "vortex_follows (stamp_of x0) (hc_bar x0, []) [] net1"
    by (rule vortex_follows_init [OF assms(1)])
  obtain net' where "feed vortex_wiring V_tstamp net1 xs = Some (Inr net')" "net' V_stats = Sink ([] @ map2 carry xs (map snd outs))"
    using vortex_follows_run [OF net1(2) assms(2,3) vortex_begin_ok assms(4)] by auto
  with net1(1) show ?thesis
    by (intro exI [of _ net'] exI [of _ "map2 carry xs (map snd outs)"])
      (simp add: feed_Cons [of _ _ _ x0] case_prod_unfold comp_def zip_map2)
qed

theorem vortex_graph_computes_vortex_witness:
  "\<exists>outs v' net' log.
     run_ops vortex_step (vortex_begin (HcVortex_ctor 13) (hc_bar (sample MSG_INIT_SOURCE 1 500 600 400)))
       (hc_inputs [sample MSG_ADD_SOURCE 2 550 700 450]) = Inr (outs, v') \<and>
     feed vortex_wiring V_tstamp vortex_opt [sample MSG_INIT_SOURCE 1 500 600 400, sample MSG_ADD_SOURCE 2 550 700 450] = Some (Inr net') \<and>
     net' V_stats = Sink log \<and> map logged log = map (\<lambda>(x, y). Inr (snd y, stamp_of x)) (zip [sample MSG_ADD_SOURCE 2 550 700 450] outs)"
proof -
  let ?i = "sample MSG_INIT_SOURCE 1 500 600 400" and ?a = "sample MSG_ADD_SOURCE 2 550 700 450"
  let ?v = "vortex_begin (HcVortex_ctor 13) (hc_bar ?i)"
  have m: "movement (hc_bar ?i) (hc_bar ?a) = (fromC 300, fromC 150, fromC 250)"
    by (simp add: hc_bar_def sample_def hc_max_def FixedPt_defs word_sless_alt)
  have add: "hc_type ?a = ADD" by (simp add: hc_type_def)
  have "\<exists>out hist. vortex_ref 13 (hc_bar ?i, []) (ADD, hc_bar ?a) = Inr (out, hist)"
    by (simp add: vortex_ref_def m window_def fp_sum_def fixed_eval) (simp add: hc_bar_def)
  with vortex_simulates [OF vortex_begin_ok, of ADD "hc_bar ?i" "hc_bar ?a"]
  obtain out v' where "vortex_step ?v (ADD, hc_bar ?a) = Inr (out, v')" by auto
  then have run: "run_ops vortex_step ?v (hc_inputs [?a]) = Inr ([out], v')" by (simp add: add)
  have "first_msg ?i" "later (stamp_of ?i) [?a]" "first_doubles (hc_bar ?i, []) [?a]" by (simp_all add: first_msg_def first_doubles_def)
  from vortex_graph_computes_vortex [OF this run] run show ?thesis by blast
qed

end
