(* ===== verification/Trade_Parsing.thy ===== *)
theory Trade_Parsing
  imports Hash_Map
begin

text \<open>
  Parsing of the trade messages (elements/standard/trade_processor.cc, \<open>denominator_for_len\<close>,
  \<open>parse_price_as_fixedpt\<close> and \<open>populate_msg_trade\<close>): a packet holds the Ethernet, IP and UDP headers, an
  eight byte timestamp and the text \<open>type|delta|symbol|price|size\<close>. The C library functions the code
  calls, \<open>strtol\<close> and \<open>strncpy\<close>, are written out on byte lists; reading past the end of a buffer and
  writing past the end of an array are the fault \<open>OutOfBounds\<close>.
\<close>

section \<open>C strings\<close>

definition is_space :: "byte \<Rightarrow> bool" where
  "is_space c \<longleftrightarrow> c = 32 \<or> (9 \<le> c \<and> c \<le> 13)"

definition is_digit :: "byte \<Rightarrow> bool" where
  "is_digit c \<longleftrightarrow> 48 \<le> c \<and> c \<le> 57"

fun skip_spaces :: "byte list \<Rightarrow> byte list res" where
  "skip_spaces [] = Inl OutOfBounds"
| "skip_spaces (c # cs) = (if is_space c then skip_spaces cs else Inr (c # cs))"

fun read_digits :: "nat \<Rightarrow> byte list \<Rightarrow> nat res" where
  "read_digits acc [] = Inl OutOfBounds"
| "read_digits acc (c # cs) =
     (if is_digit c then read_digits (acc * 10 + (unat c - 48)) cs else Inr acc)"

definition clamp_long :: "int \<Rightarrow> int" where
  "clamp_long i = max (- (2 ^ 63)) (min (2 ^ 63 - 1) i)"

text \<open>\<open>strtol(buffer, NULL, 10)\<close>: white space, a sign, digits, saturating at the ends of \<open>long\<close>.\<close>

definition strtol :: "byte list \<Rightarrow> int res" where
  "strtol buf =
     bnd (skip_spaces buf) (\<lambda>cs.
       let neg = (hd cs = 45)
       in bnd (read_digits 0 (if hd cs = 45 \<or> hd cs = 43 then tl cs else cs)) (\<lambda>n.
            Inr (clamp_long (if neg then - int n else int n))))"

text \<open>\<open>atoi(s)\<close>, \<open>s\<close> being the bytes before the NUL: the value of \<open>strtol\<close> as an \<open>int\<close>.\<close>

definition atoi :: "byte list \<Rightarrow> int res" where
  "atoi s = bnd (strtol (s @ [0])) (\<lambda>l. Inr (sint (word_of_int l :: 32 word)))"

text \<open>\<open>strncpy(dst, src, n)\<close>: bytes up to the first NUL, padded with NULs to \<open>n\<close>.\<close>

definition strncpy :: "byte list \<Rightarrow> byte list \<Rightarrow> nat \<Rightarrow> byte list res" where
  "strncpy dst src n =
     (let s = cstr (take n src)
      in if n \<le> length dst then Inr (s @ replicate (n - length s) 0 @ drop n dst) else Inl OutOfBounds)"

section \<open>Prices\<close>

definition s_whole_price_len :: nat where "s_whole_price_len = 10"

definition s_fractional_price_len :: nat where "s_fractional_price_len = 10"

definition s_mac_ip_udp_len :: nat where "s_mac_ip_udp_len = 42"

text \<open>The switch has no default: other lengths run off the end of the function.\<close>

definition denominator_for_len :: "nat \<Rightarrow> int res" where
  "denominator_for_len len =
     (if len = 1 then Inr 10 else if len = 2 then Inr 100 else if len = 3 then Inr 1000
      else if len = 4 then Inr 10000 else if len = 5 then Inr 100000 else if len = 6 then Inr 1000000
      else Inl MissingReturn)"

primrec dot_pos :: "byte list \<Rightarrow> nat option" where
  "dot_pos [] = None"
| "dot_pos (c # cs) = (if c = 46 then Some 0 else map_option Suc (dot_pos cs))"

text \<open>The argument is the \<open>strlen\<close> bytes at \<open>str\<close>.\<close>

definition parse_price_as_fixedpt :: "byte list \<Rightarrow> fixedpt res" where
  "parse_price_as_fixedpt str =
     (case dot_pos str of
        None \<Rightarrow> bnd (strtol (str @ [0])) (\<lambda>w. Inr (fixedpt_fromint w))
      | Some d \<Rightarrow>
          if d = 1
          then bnd (strtol (drop 1 str @ [0])) (\<lambda>fr.
               bnd (fixedpt_pow FIXEDPT_ONE (of_nat (length str - 1))) (\<lambda>pw.
               bnd (fixedpt_div (fixedpt_fromint fr) pw) (\<lambda>_. Inr 0)))
          else let whole_part_len = d; fractional_part_len = length str - whole_part_len - 1
               in bnd (strncpy (replicate s_whole_price_len 0) str whole_part_len) (\<lambda>whole_part.
                  bnd (strncpy (replicate s_fractional_price_len 0) (drop (d + 1) str) fractional_part_len)
                    (\<lambda>fractional_part.
                  bnd (strtol whole_part) (\<lambda>w.
                  bnd (strtol fractional_part) (\<lambda>fr.
                  bnd (denominator_for_len fractional_part_len) (\<lambda>den.
                  bnd (fixedpt_div (fixedpt_fromint fr) (fixedpt_fromint den)) (\<lambda>frac_fixedpt.
                    Inr (fixedpt_add (fixedpt_fromint w) frac_fixedpt))))))))"

section \<open>Messages\<close>

text \<open>
  The scan of \<open>populate_msg_trade\<close>, \<open>md\<close> being the bytes at \<open>md_msg\<close>. None is the \<open>return false\<close> of the
  loop, otherwise the number of bars seen and the message.
\<close>

definition slice :: "'a list \<Rightarrow> nat \<Rightarrow> nat \<Rightarrow> 'a list" where
  "slice xs from to = take (to - from) (drop from xs)"

definition take_field :: "nat \<Rightarrow> byte list \<Rightarrow> nat \<Rightarrow> nat \<Rightarrow> nat \<Rightarrow> MsgTrade \<Rightarrow> MsgTrade option res" where
  "take_field md_len md i counter start msg =
     (if counter \<le> 2 then Inr (Some msg)
      else if counter = 3
      then (if i - start > ORDER_SYMBOL_LEN - 1 then Inr None
            else bnd (strncpy (mt_symbol msg) (drop start md) (i - start)) (\<lambda>s. Inr (Some (msg\<lparr>mt_symbol := s\<rparr>))))
      else if counter = 4
      then bnd (parse_price_as_fixedpt (slice md start i)) (\<lambda>price.
             if i + 1 \<ge> md_len then Inr None
             else if length md < md_len then Inl OutOfBounds
             else bnd (strtol (slice md (i + 1) md_len @ [0])) (\<lambda>sz.
                    Inr (Some (msg\<lparr>mt_price := price, mt_size := word_of_int sz\<rparr>))))
      else Inr None)"

function scan_md :: "nat \<Rightarrow> byte list \<Rightarrow> nat \<Rightarrow> nat \<Rightarrow> nat \<Rightarrow> MsgTrade \<Rightarrow> (nat \<times> MsgTrade) option res" where
  "scan_md md_len md i counter start msg =
     (if i < md_len
      then bnd (arr_get md i) (\<lambda>c.
             if c = 124
             then bnd (take_field md_len md i (counter + 1) start msg) (\<lambda>r. case r of
                      None \<Rightarrow> Inr None
                    | Some msg' \<Rightarrow> scan_md md_len md (i + 1) (counter + 1) (i + 1) msg')
             else scan_md md_len md (i + 1) counter start msg)
      else Inr (Some (counter, msg)))"
  by pat_completeness auto
termination
  by (relation "measure (\<lambda>(md_len, md, i, counter, start, msg). md_len - i)") auto

declare scan_md.simps [simp del]

text \<open>
  \<open>md_len\<close> is an unsigned 32-bit difference: it wraps around when the packet ends within the timestamp.
\<close>

definition populate_msg_trade :: "MsgTrade \<Rightarrow> byte list \<Rightarrow> MsgTrade option res" where
  "populate_msg_trade msg data =
     (let packet_len = length data
      in if packet_len < s_mac_ip_udp_len + 1 then Inr None
         else let tstamp_len = 8;
                  md_msg = drop (s_mac_ip_udp_len + tstamp_len) data;
                  md_len = unat (of_nat packet_len - of_nat s_mac_ip_udp_len - of_nat tstamp_len :: 32 word)
              in bnd (scan_md md_len md_msg 0 0 0 msg) (\<lambda>r. case r of
                     None \<Rightarrow> Inr None
                   | Some (counter, msg') \<Rightarrow>
                       if counter < 1 then Inr None
                       else bnd (get64 data s_mac_ip_udp_len) (\<lambda>ts. Inr (Some (msg'\<lparr>mt_src_timestamp := ts\<rparr>)))))"

section \<open>Reading numbers\<close>

definition digits_val :: "byte list \<Rightarrow> nat" where
  "digits_val ds = foldl (\<lambda>a c. a * 10 + (unat c - 48)) 0 ds"

lemma is_digit_props:
  assumes "is_digit c"
  shows "\<not> is_space c \<and> c \<noteq> 45 \<and> c \<noteq> 43 \<and> c \<noteq> 46 \<and> c \<noteq> 124 \<and> c \<noteq> 0 \<and> unat c - 48 \<le> 9"
proof -
  have u: "48 \<le> unat c" "unat c \<le> 57"
    using assms by (simp_all add: is_digit_def word_le_nat_alt)
  then have "\<not> is_space c"
    by (auto simp: is_space_def word_le_nat_alt)
  moreover have "c \<noteq> 45" "c \<noteq> 43" "c \<noteq> 46" "c \<noteq> 0" using u(1) by auto
  moreover have "c \<noteq> 124" using u(2) by auto
  ultimately show ?thesis using u(2) by simp
qed

lemma not_digit_0 [simp]: "\<not> is_digit 0" "\<not> is_space 0"
  by (simp_all add: is_digit_def is_space_def)

lemma digits_bound:
  assumes "\<forall>c\<in>set ds. is_digit c"
  shows "foldl (\<lambda>a c. a * 10 + (unat c - 48)) a ds < (a + 1) * 10 ^ length ds"
  using assms
proof (induction ds arbitrary: a)
  case (Cons c ds)
  have "unat c - 48 \<le> 9" using Cons.prems is_digit_props [of c] by simp
  then have "(a * 10 + (unat c - 48) + 1) * 10 ^ length ds \<le> ((a + 1) * 10) * 10 ^ length ds"
    by (intro mult_le_mono1) simp
  with Cons.IH [of "a * 10 + (unat c - 48)"] Cons.prems have
    "foldl (\<lambda>a c. a * 10 + (unat c - 48)) (a * 10 + (unat c - 48)) ds < ((a + 1) * 10) * 10 ^ length ds"
    by (meson less_le_trans list.set_intros(2))
  then show ?case by (simp add: algebra_simps)
qed simp

lemma digits_val_bound: "\<forall>c\<in>set ds. is_digit c \<Longrightarrow> digits_val ds < 10 ^ length ds"
  using digits_bound [of ds 0] by (simp add: digits_val_def)

lemma read_digits_all:
  "\<forall>c\<in>set ds. is_digit c \<Longrightarrow>
   read_digits acc (ds @ 0 # rest) = Inr (foldl (\<lambda>a c. a * 10 + (unat c - 48)) acc ds)"
  by (induction ds arbitrary: acc) auto

lemma strtol_digits:
  assumes "\<forall>c\<in>set ds. is_digit c" and "length ds \<le> 18"
  shows "strtol (ds @ 0 # rest) = Inr (int (digits_val ds))"
proof -
  have sk: "skip_spaces (ds @ 0 # rest) = Inr (ds @ 0 # rest)"
    using assms(1) is_digit_props by (cases ds) auto
  have sg: "hd (ds @ 0 # rest) \<noteq> 45" "hd (ds @ 0 # rest) \<noteq> 43"
    using assms(1) is_digit_props by (cases ds; auto)+
  have "digits_val ds < 10 ^ 18"
    using digits_val_bound [OF assms(1)] power_increasing [OF assms(2), of "10::nat"] by simp
  then have "clamp_long (int (digits_val ds)) = int (digits_val ds)"
    by (simp add: clamp_long_def)
  with sk sg read_digits_all [OF assms(1), of 0 rest] show ?thesis
    by (simp add: strtol_def Let_def digits_val_def)
qed

lemma cstr_digits: "\<forall>c\<in>set ds. is_digit c \<Longrightarrow> cstr ds = ds"
  by (auto simp: cstr_def takeWhile_eq_all_conv dest: is_digit_props)

lemma strncpy_digits:
  assumes "\<forall>c\<in>set ds. is_digit c" and "length ds < n" and "length ds \<le> 18"
  shows "\<exists>buf. strncpy (replicate n 0) (ds @ rest) (length ds) = Inr buf \<and> strtol buf = Inr (int (digits_val ds))"
proof -
  obtain k where k: "n - length ds = Suc k"
    using assms(2) by (metis Suc_diff_Suc)
  show ?thesis
    using assms(1,2) strtol_digits [OF assms(1,3), of "replicate k 0"]
    by (simp add: strncpy_def cstr_digits k)
qed

lemma dot_pos_whole: "46 \<notin> set w \<Longrightarrow> dot_pos (w @ 46 # f) = Some (length w)" "46 \<notin> set w \<Longrightarrow> dot_pos w = None"
  by (induction w) auto

lemma denominator_power: "1 \<le> n \<Longrightarrow> n \<le> 6 \<Longrightarrow> denominator_for_len n = Inr (10 ^ n)"
proof -
  assume "1 \<le> n" "n \<le> 6"
  then have "n = 1 \<or> n = 2 \<or> n = 3 \<or> n = 4 \<or> n = 5 \<or> n = 6" by presburger
  then show ?thesis by (auto simp: denominator_for_len_def)
qed

lemma fraction_value:
  assumes "0 \<le> f" and "f < 2 ^ 23" and "0 < d" and "d < (2::int) ^ 23"
  shows "fixedpt_div (fixedpt_fromint f) (fixedpt_fromint d) = Inr (word_of_int (f * 2 ^ 40 div d))"
proof -
  have s: "sint (fixedpt_fromint f) = f * 2 ^ 40" "sint (fixedpt_fromint d) = d * 2 ^ 40"
    using assms by (simp_all only: sint_fromint)
  then have "fixedpt_fromint d \<noteq> 0" using assms(3) by (metis mult_eq_0_iff not_less_iff_gr_or_eq signed_0 zero_neq_numeral power_not_zero)
  then have "fixedpt_div (fixedpt_fromint f) (fixedpt_fromint d) =
      Inr (word_of_int ((f * 2 ^ 40 * 2 ^ 40) sdiv (d * 2 ^ 40)))"
    using fixedpt_div_int [of "fixedpt_fromint d" "fixedpt_fromint f", unfolded s] by simp
  moreover have "(f * 2 ^ 40 * 2 ^ 40) sdiv (d * 2 ^ 40) = f * 2 ^ 40 div d"
    using assms by (simp add: signed_divide_int_def sgn_mult abs_mult div_mult_mult2 sgn_if mult.commute)
  ultimately show ?thesis by simp
qed

lemma parse_price_digits:
  assumes w: "\<forall>c\<in>set w. is_digit c" "length w \<noteq> 1" "length w \<le> 9"
    and f: "\<forall>c\<in>set f. is_digit c" "1 \<le> length f" "length f \<le> 6"
  shows "parse_price_as_fixedpt (w @ 46 # f) = Inr (word_of_int
    (int (digits_val w) * 2 ^ 40 + int (digits_val f) * 2 ^ 40 div 10 ^ length f))"
proof -
  have dot: "dot_pos (w @ 46 # f) = Some (length w)"
    using w(1) is_digit_props by (auto intro: dot_pos_whole)
  obtain wb where wb: "strncpy (replicate s_whole_price_len 0) (w @ 46 # f) (length w) = Inr wb"
    "strtol wb = Inr (int (digits_val w))"
    using strncpy_digits [OF w(1), of s_whole_price_len "46 # f"] w(3) by (auto simp: s_whole_price_len_def)
  obtain fb where fb: "strncpy (replicate s_fractional_price_len 0) f (length f) = Inr fb"
    "strtol fb = Inr (int (digits_val f))"
    using strncpy_digits [OF f(1), of s_fractional_price_len "[]"] f(3) by (auto simp: s_fractional_price_len_def)
  have "10 ^ length f \<le> (10 :: nat) ^ 6"
    by (rule power_increasing [OF f(3)]) simp
  then have "digits_val f < 2 ^ 23" "(10 :: int) ^ length f < 2 ^ 23"
    using digits_val_bound [OF f(1)] power_increasing [OF f(3), of "10::int"] by simp_all
  then have "fixedpt_div (fixedpt_fromint (int (digits_val f))) (fixedpt_fromint (10 ^ length f)) =
      Inr (word_of_int (int (digits_val f) * 2 ^ 40 div 10 ^ length f))"
    by (intro fraction_value) simp_all
  with dot wb fb denominator_power [OF f(2,3)] w(2) show ?thesis
    by (simp add: parse_price_as_fixedpt_def Let_def fixedpt_add_def fixedpt_fromint_int)
qed

lemma parse_price_whole:
  assumes "\<forall>c\<in>set w. is_digit c" "length w \<le> 18"
  shows "parse_price_as_fixedpt w = Inr (word_of_int (int (digits_val w) * 2 ^ 40))"
proof -
  have "dot_pos w = None"
    using assms(1) is_digit_props by (auto intro: dot_pos_whole)
  then show ?thesis
    using strtol_digits [OF assms, of "[]"] by (simp add: parse_price_as_fixedpt_def fixedpt_fromint_int)
qed

lemma parse_price_one_digit:
  assumes "is_digit d" and "\<forall>c\<in>set f. is_digit c"
  shows "parse_price_as_fixedpt (d # 46 # f) = Inr 0"
proof -
  have dot: "dot_pos (d # 46 # f) = Some 1"
    using assms(1) is_digit_props by auto
  have "\<not> is_space 46" "\<not> is_digit 46" by (simp_all add: is_space_def is_digit_def)
  then have "strtol (46 # f @ [0]) = Inr 0"
    by (simp add: strtol_def clamp_long_def)
  then show ?thesis
    unfolding parse_price_as_fixedpt_def dot option.case fixedpt_pow_of_one bnd_Inr
    by (simp add: fixedpt_div_zero_num)
qed

section \<open>Scanning a message\<close>

lemma scan_plain:
  assumes "\<forall>c\<in>set xs. c \<noteq> 124" and "length pre + length xs \<le> n"
  shows "scan_md n (pre @ xs @ post) (length pre) counter start msg =
    scan_md n (pre @ xs @ post) (length pre + length xs) counter start msg"
  using assms
proof (induction xs arbitrary: pre)
  case (Cons x xs)
  have "scan_md n (pre @ (x # xs) @ post) (length pre) counter start msg =
      scan_md n ((pre @ [x]) @ xs @ post) (length (pre @ [x])) counter start msg"
    using Cons.prems by (subst scan_md.simps) simp
  also have "\<dots> = scan_md n ((pre @ [x]) @ xs @ post) (length (pre @ [x]) + length xs) counter start msg"
    using Cons.prems by (intro Cons.IH) simp_all
  finally show ?case by simp
qed simp

text \<open>A field and the bar after it.\<close>

lemma scan_field:
  assumes "\<forall>c\<in>set xs. c \<noteq> 124" and "length pre + length xs < n"
  shows "scan_md n (pre @ xs @ 124 # post) (length pre) counter start msg =
    bnd (take_field n (pre @ xs @ 124 # post) (length pre + length xs) (counter + 1) start msg) (\<lambda>r.
      case r of None \<Rightarrow> Inr None
      | Some msg' \<Rightarrow> scan_md n ((pre @ xs @ [124]) @ post) (length (pre @ xs @ [124])) (counter + 1)
          (length (pre @ xs @ [124])) msg')"
proof -
  have "scan_md n (pre @ xs @ 124 # post) (length pre) counter start msg =
      scan_md n (pre @ xs @ 124 # post) (length pre + length xs) counter start msg"
    using assms by (intro scan_plain) simp_all
  also have "\<dots> = bnd (take_field n (pre @ xs @ 124 # post) (length pre + length xs) (counter + 1) start msg) (\<lambda>r.
      case r of None \<Rightarrow> Inr None
      | Some msg' \<Rightarrow> scan_md n (pre @ xs @ 124 # post) (length pre + length xs + 1) (counter + 1)
          (length pre + length xs + 1) msg')"
    using assms(2) by (subst scan_md.simps) (simp add: nth_append)
  finally show ?thesis by (simp cong: option.case_cong)
qed

lemma scan_last:
  assumes "\<forall>c\<in>set xs. c \<noteq> 124"
  shows "scan_md (length (pre @ xs)) (pre @ xs) (length pre) counter start msg = Inr (Some (counter, msg))"
  using scan_plain [OF assms, of pre "length (pre @ xs)" "[]" counter start msg]
  by (simp add: scan_md.simps [of "length pre + length xs"])

text \<open>The text of a trade and the packet that carries it.\<close>

definition trade_text :: "byte list \<Rightarrow> byte list \<Rightarrow> byte list \<Rightarrow> byte list \<Rightarrow> byte list \<Rightarrow> byte list" where
  "trade_text type delta sy price sz = type @ 124 # delta @ 124 # sy @ 124 # price @ 124 # sz"

definition plain :: "byte list \<Rightarrow> bool" where
  "plain xs \<longleftrightarrow> (\<forall>c\<in>set xs. c \<noteq> 124 \<and> c \<noteq> 0)"

lemma strncpy_symbol:
  assumes "plain sy" and "length sy < ORDER_SYMBOL_LEN"
  shows "strncpy (replicate ORDER_SYMBOL_LEN 0) (sy @ rest) (length sy) =
    Inr (sy @ replicate (ORDER_SYMBOL_LEN - length sy) 0)"
proof -
  have "cstr sy = sy"
    using assms(1) cstr_no_nul [of sy 0] by (simp add: plain_def)
  with assms(2) show ?thesis by (simp add: strncpy_def)
qed

lemma take_symbol:
  assumes "plain sy" and "length sy < ORDER_SYMBOL_LEN" and "mt_symbol msg = replicate ORDER_SYMBOL_LEN 0"
  shows "take_field n (pre @ sy @ rest) (length pre + length sy) 3 (length pre) msg =
    Inr (Some (msg\<lparr>mt_symbol := sy @ replicate (ORDER_SYMBOL_LEN - length sy) 0\<rparr>))"
  using strncpy_symbol [OF assms(1,2), of rest] assms(2,3) by (simp add: take_field_def)

lemma take_price_size:
  assumes "parse_price_as_fixedpt price = Inr p" and "strtol (sz @ [0]) = Inr q" and "sz \<noteq> []"
    and n: "n = length pre + length price + 1 + length sz"
  shows "take_field n (pre @ price @ 124 # sz) (length pre + length price) 4 (length pre) msg =
    Inr (Some (msg\<lparr>mt_price := p, mt_size := word_of_int q\<rparr>))"
proof -
  have "slice (pre @ price @ 124 # sz) (length pre) (length pre + length price) = price"
    "slice (pre @ price @ 124 # sz) (length pre + length price + 1) n = sz"
    by (simp_all add: slice_def n)
  with assms show ?thesis by (simp add: take_field_def)
qed

lemma scan_three_fields:
  assumes "plain type" "plain delta" "plain sy" and "length sy < ORDER_SYMBOL_LEN"
    and "mt_symbol msg = replicate ORDER_SYMBOL_LEN 0"
    and md: "md = type @ 124 # delta @ 124 # sy @ 124 # rest"
    and pre: "pre = type @ 124 # delta @ 124 # sy @ [124]"
  shows "scan_md (length md) md 0 0 0 msg = scan_md (length md) (pre @ rest) (length pre) 3 (length pre)
    (msg\<lparr>mt_symbol := sy @ replicate (ORDER_SYMBOL_LEN - length sy) 0\<rparr>)"
proof -
  let ?n = "length md" and ?p1 = "type @ [124]" and ?p2 = "type @ 124 # delta @ [124]"
  have bars: "\<forall>c\<in>set xs. c \<noteq> 124" if "plain xs" for xs
    using that by (simp add: plain_def)
  have n: "?n = length type + length delta + length sy + length rest + 3"
    by (simp add: md)
  have "scan_md ?n md 0 0 0 msg = scan_md ?n (?p1 @ delta @ 124 # sy @ 124 # rest) (length ?p1) 1 (length ?p1) msg"
    using scan_field [OF bars [OF assms(1)], of "[]" ?n "delta @ 124 # sy @ 124 # rest" 0 0 msg] n
    by (simp add: md take_field_def)
  also have "\<dots> = scan_md ?n (?p2 @ sy @ 124 # rest) (length ?p2) 2 (length ?p2) msg"
    using scan_field [OF bars [OF assms(2)], of ?p1 ?n "sy @ 124 # rest" 1 "length ?p1" msg] n
    by (simp add: take_field_def numeral_2_eq_2)
  also have "\<dots> = scan_md ?n (pre @ rest) (length pre) 3 (length pre)
      (msg\<lparr>mt_symbol := sy @ replicate (ORDER_SYMBOL_LEN - length sy) 0\<rparr>)"
    using scan_field [OF bars [OF assms(3)], of ?p2 ?n rest 2 "length ?p2" msg] n
      take_symbol [OF assms(3,4,5), of ?n ?p2 "124 # rest"]
    by (simp add: pre)
  finally show ?thesis .
qed

lemma scan_trade_text:
  assumes "plain type" "plain delta" "plain sy" "plain price" "plain sz" and "sz \<noteq> []"
    and "length sy < ORDER_SYMBOL_LEN" and "parse_price_as_fixedpt price = Inr p" and "strtol (sz @ [0]) = Inr q"
    and md: "md = trade_text type delta sy price sz" and msg: "mt_symbol msg = replicate ORDER_SYMBOL_LEN 0"
  shows "scan_md (length md) md 0 0 0 msg = Inr (Some (4, msg\<lparr>mt_price := p, mt_size := word_of_int q,
    mt_symbol := sy @ replicate (ORDER_SYMBOL_LEN - length sy) 0\<rparr>))"
proof -
  let ?n = "length md" and ?pre = "type @ 124 # delta @ 124 # sy @ [124]"
  let ?msg = "msg\<lparr>mt_symbol := sy @ replicate (ORDER_SYMBOL_LEN - length sy) 0\<rparr>"
  have bars: "\<forall>c\<in>set xs. c \<noteq> 124" if "plain xs" for xs
    using that by (simp add: plain_def)
  have n: "?n = length ?pre + length price + 1 + length sz"
    by (simp add: md trade_text_def)
  then have n': "?n = length ((?pre @ price @ [124]) @ sz)" by simp
  have "scan_md ?n md 0 0 0 msg = scan_md ?n (?pre @ price @ 124 # sz) (length ?pre) 3 (length ?pre) ?msg"
    using scan_three_fields [OF assms(1-3,7) msg, of md "price @ 124 # sz"] by (simp add: md trade_text_def)
  also have "\<dots> = scan_md ?n ((?pre @ price @ [124]) @ sz) (length (?pre @ price @ [124])) 4 (length (?pre @ price @ [124]))
      (?msg\<lparr>mt_price := p, mt_size := word_of_int q\<rparr>)"
    using scan_field [OF bars [OF assms(4)], of ?pre ?n sz 3 "length ?pre" ?msg] n
      take_price_size [OF assms(8,9,6) n, of ?msg]
    by simp
  also have "\<dots> = Inr (Some (4, ?msg\<lparr>mt_price := p, mt_size := word_of_int q\<rparr>))"
    unfolding n' by (rule scan_last [OF bars [OF assms(5)]])
  finally show ?thesis by simp
qed

text \<open>What \<open>populate_msg_trade\<close> makes of a packet whose text is scanned to the end.\<close>

definition packet_data :: "byte list \<Rightarrow> 64 word \<Rightarrow> byte list \<Rightarrow> byte list" where
  "packet_data hdr ts md = hdr @ word_to_le ts @ md"

lemma populate_scanned:
  assumes "length hdr = s_mac_ip_udp_len" and "length md < 2 ^ 32 - 50"
  shows "populate_msg_trade msg (packet_data hdr ts md) = bnd (scan_md (length md) md 0 0 0 msg) (\<lambda>r. case r of
      None \<Rightarrow> Inr None
    | Some (counter, msg') \<Rightarrow> Inr (if counter < 1 then None else Some (msg'\<lparr>mt_src_timestamp := ts\<rparr>)))"
proof -
  have "unat (of_nat (length md + 50) - 42 - 8 :: 32 word) = unat (of_nat (length md) :: 32 word)"
    by simp
  also have "\<dots> = length md"
    using assms(2) by (simp add: unat_of_nat)
  finally have len: "unat (of_nat (length md + 50) - 42 - 8 :: 32 word) = length md" .
  moreover have "get64 (packet_data hdr ts md) s_mac_ip_udp_len = Inr ts"
    using assms(1) by (simp add: get64_def packet_data_def)
  moreover have "length (packet_data hdr ts md) = length md + 50"
    "drop (s_mac_ip_udp_len + 8) (packet_data hdr ts md) = md"
    using assms(1) by (simp_all add: packet_data_def s_mac_ip_udp_len_def)
  ultimately show ?thesis
    by (simp add: populate_msg_trade_def Let_def s_mac_ip_udp_len_def split_beta if_distrib
        cong: option.case_cong if_cong)
qed

lemma populate_trade_text:
  assumes "length hdr = s_mac_ip_udp_len" and "length (trade_text type delta sy price sz) < 2 ^ 32 - 50"
    and "plain type" "plain delta" "plain sy" "plain price" "plain sz" and "sz \<noteq> []"
    and "length sy < ORDER_SYMBOL_LEN" and "parse_price_as_fixedpt price = Inr p" and "strtol (sz @ [0]) = Inr q"
  shows "populate_msg_trade MsgTrade_ctor (packet_data hdr ts (trade_text type delta sy price sz)) =
    Inr (Some \<lparr>mt_price = p, mt_size = word_of_int q, mt_symbol = sy @ replicate (ORDER_SYMBOL_LEN - length sy) 0,
      mt_timestamp = 0, mt_src_timestamp = ts\<rparr>)"
proof -
  have "mt_symbol MsgTrade_ctor = replicate ORDER_SYMBOL_LEN 0" by (simp add: MsgTrade_ctor_def)
  note scan = scan_trade_text [OF assms(3-11) refl this]
  show ?thesis
    unfolding populate_scanned [OF assms(1,2)] scan by (simp add: MsgTrade_ctor_def)
qed

section \<open>Properties\<close>

text \<open>
  Property C31. A well-formed trade packet is read back: from the headers, a timestamp and the text
  \<open>type|delta|symbol|price|size\<close>, with a symbol of at most nine characters, a price in decimal
  notation whose whole part is below \<open>2 ^ 22\<close>, at most nine digits long and not of exactly one digit, with one to six decimals, and a size of
  one to 18 digits, parsing gives the symbol padded with
  NULs, the price rounded down to the fixed-point grid, the size and the timestamp.
\<close>

theorem trade_message_round_trip:
  assumes "length hdr = s_mac_ip_udp_len" and "length (trade_text type delta sy (w @ 46 # f) sz) < 2 ^ 32 - 50"
    and "plain type" "plain delta" "plain sy" and "length sy < ORDER_SYMBOL_LEN"
    and "\<forall>c\<in>set w. is_digit c" "length w \<noteq> 1" "length w \<le> 9" "digits_val w < 2 ^ 22"
    and "\<forall>c\<in>set f. is_digit c" "1 \<le> length f" "length f \<le> 6"
    and "\<forall>c\<in>set sz. is_digit c" "sz \<noteq> []" "length sz \<le> 18"
  shows "\<exists>m. populate_msg_trade MsgTrade_ctor (packet_data hdr ts (trade_text type delta sy (w @ 46 # f) sz)) = Inr (Some m) \<and>
    mt_symbol m = sy @ replicate (ORDER_SYMBOL_LEN - length sy) 0 \<and> canonical (mt_symbol m) \<and>
    sint (mt_price m) = (int (digits_val w) * 10 ^ length f + int (digits_val f)) * 2 ^ 40 div 10 ^ length f \<and>
    unat (mt_size m) = digits_val sz \<and> mt_src_timestamp m = ts"
proof -
  let ?P = "int (digits_val w) * 2 ^ 40 + int (digits_val f) * 2 ^ 40 div 10 ^ length f"
  let ?text = "trade_text type delta sy (w @ 46 # f) sz"
  have pl: "plain (w @ 46 # f)" "plain sz"
    using assms(7,11,14) is_digit_props by (auto simp: plain_def)
  have "- (2 ^ 40 * 10 ^ length f) \<le> int (digits_val f) * 2 ^ 40"
    by (rule order_trans [of _ 0]) simp_all
  then have "int (digits_val f) * 2 ^ 40 div 10 ^ length f < 2 ^ 40"
    using digits_val_bound [OF assms(11)] of_nat_less_iff [of "digits_val f" "10 ^ length f", where 'a = int]
    by (intro div_within) simp_all
  moreover have "0 \<le> int (digits_val f) * 2 ^ 40 div 10 ^ length f"
    by (simp add: pos_imp_zdiv_nonneg_iff)
  ultimately have P: "sint (word_of_int ?P :: fixedpt) = ?P"
    using assms(10) by (intro sint_word_of_int_id) simp_all
  define p :: fixedpt where "p = word_of_int ?P"
  have parse: "parse_price_as_fixedpt (w @ 46 # f) = Inr p"
    unfolding p_def by (rule parse_price_digits [OF assms(7-9,11-13)])
  have split: "?P = (int (digits_val w) * 10 ^ length f + int (digits_val f)) * 2 ^ 40 div 10 ^ length f"
    by (simp add: distrib_right mult.assoc mult.left_commute [of _ "10 ^ length f"])
  have sz: "unat (word_of_int (int (digits_val sz)) :: 64 word) = digits_val sz"
    using digits_val_bound [OF assms(14)] power_increasing [OF assms(16), of "10::nat"]
    by (simp add: unat_of_nat)
  note pop = populate_trade_text [OF assms(1-5) pl assms(15,6) parse strtol_digits [OF assms(14,16), of "[]"]]
  have "canonical (sy @ replicate (ORDER_SYMBOL_LEN - length sy) 0)"
    using assms(5,6) by (intro canonical_padded) (simp_all add: plain_def)
  moreover have "sint p = (int (digits_val w) * 10 ^ length f + int (digits_val f)) * 2 ^ 40 div 10 ^ length f"
    unfolding p_def P by (rule split)
  ultimately show ?thesis
    using sz by (simp add: pop)
qed

theorem trade_message_round_trip_witness:
  "\<exists>m. populate_msg_trade MsgTrade_ctor (packet_data (replicate 42 7) 99
      (trade_text [84] [48] [65, 66, 67] [49, 50, 46, 53] [49, 48])) = Inr (Some m) \<and>
    mt_symbol m = [65, 66, 67] @ replicate 7 0 \<and> sint (mt_price m) = 125 * 2 ^ 40 div 10 \<and>
    unat (mt_size m) = 10 \<and> mt_src_timestamp m = 99"
proof -
  have "digits_val [49, 50] = 12" "digits_val [53] = 5" "digits_val [49, 48] = 10"
    by (simp_all add: digits_val_def)
  then show ?thesis
    using trade_message_round_trip [of "replicate 42 7" "[84]" "[48]" "[65, 66, 67]" "[49, 50]" "[53]" "[49, 48]" 99]
    by (auto simp: s_mac_ip_udp_len_def trade_text_def plain_def ORDER_SYMBOL_LEN_def is_digit_def)
qed

text \<open>
  Property C32. A price below ten is read as zero: with a single digit before the dot the code takes
  the branch for prices that have only a fractional part, computes the fraction and drops it.
\<close>

theorem one_digit_price_is_lost:
  assumes "is_digit d" and "\<forall>c\<in>set f. is_digit c"
  shows "parse_price_as_fixedpt (d # 46 # f) = Inr 0"
  using assms by (rule parse_price_one_digit)

theorem one_digit_price_is_lost_witness: "parse_price_as_fixedpt [57, 46, 57, 57] = Inr 0"
  using one_digit_price_is_lost [of 57 "[57, 57]"] by (simp add: is_digit_def)

text \<open>
  Property C33. A packet that ends within the timestamp is not rejected: the length of the text wraps
  around and the scan reads outside the packet.
\<close>

theorem short_packet_is_overread:
  assumes "43 \<le> length data" and "length data < 50"
  shows "populate_msg_trade msg data = Inl OutOfBounds"
proof -
  have "length data = 43 \<or> length data = 44 \<or> length data = 45 \<or> length data = 46 \<or> length data = 47 \<or>
      length data = 48 \<or> length data = 49"
    using assms by presburger
  then have "unat (of_nat (length data) - 42 - 8 :: 32 word) \<noteq> 0"
    by (elim disjE) (simp_all add: unat_gt_0)
  then show ?thesis
    using assms by (simp add: populate_msg_trade_def s_mac_ip_udp_len_def Let_def scan_md.simps arr_get_def)
qed

theorem short_packet_is_overread_witness: "populate_msg_trade MsgTrade_ctor (replicate 45 0) = Inl OutOfBounds"
  using short_packet_is_overread [of "replicate 45 0"] by simp

text \<open>
  A message that ends after the symbol is accepted as a trade at price zero: three bars
  are enough, the missing price and size keep their initial zeros.
\<close>

theorem missing_price_is_a_zero_trade:
  assumes "length hdr = s_mac_ip_udp_len" and "plain type" "plain delta" "plain sy"
    and "length sy < ORDER_SYMBOL_LEN" and "length type + length delta < 1000"
  shows "populate_msg_trade MsgTrade_ctor (packet_data hdr ts (type @ 124 # delta @ 124 # sy @ [124])) =
    Inr (Some \<lparr>mt_price = 0, mt_size = 0, mt_symbol = sy @ replicate (ORDER_SYMBOL_LEN - length sy) 0,
      mt_timestamp = 0, mt_src_timestamp = ts\<rparr>)"
proof -
  let ?md = "type @ 124 # delta @ 124 # sy @ [124]"
  have "mt_symbol MsgTrade_ctor = replicate ORDER_SYMBOL_LEN 0" by (simp add: MsgTrade_ctor_def)
  note scan = scan_three_fields [OF assms(2-5) this, of ?md "[]"]
  have "length ?md < 2 ^ 32 - 50" using assms(5,6) by (simp add: ORDER_SYMBOL_LEN_def)
  then show ?thesis
    using scan by (simp add: populate_scanned [OF assms(1)] scan_md.simps [of _ _ "Suc (Suc (Suc _))"] MsgTrade_ctor_def)
qed

theorem missing_price_is_a_zero_trade_witness:
  "populate_msg_trade MsgTrade_ctor (packet_data (replicate 42 7) 99 [84, 124, 48, 124, 65, 124]) =
    Inr (Some \<lparr>mt_price = 0, mt_size = 0, mt_symbol = [65] @ replicate 9 0, mt_timestamp = 0, mt_src_timestamp = 99\<rparr>)"
  using missing_price_is_a_zero_trade [of "replicate 42 7" "[84]" "[48]" "[65]" 99]
  by (simp add: s_mac_ip_udp_len_def plain_def ORDER_SYMBOL_LEN_def)

end
