(* ===== verification/Trade_Processor.thy ===== *)
theory Trade_Processor
  imports Trade_Parsing
begin

text \<open>
  The element \<open>TradeProcessor\<close> (elements/standard/trade_processor.hh and .cc), which turns trade packets
  into the source messages of the indicator graph. Per subscribed symbol it keeps the high, low,
  open and close price and the traded size of the current interval; a trade that changes them is
  sent on as an update in the trade's own packet, and when the timer fires every symbol is sent on
  in a fresh packet and its interval rolls over. Debug output is left out.
\<close>

section \<open>Statistics of an interval\<close>

record TimeStats =
  ts_high :: fixedpt
  ts_low :: fixedpt
  ts_open :: fixedpt
  ts_close :: fixedpt
  ts_size :: "64 word"
  ts_first_time_updated :: bool

definition TimeStats_ctor :: TimeStats where
  "TimeStats_ctor = \<lparr>ts_high = 0, ts_low = 0, ts_open = 0, ts_close = 0, ts_size = 0,
     ts_first_time_updated = False\<rparr>"

definition rollover :: "TimeStats \<Rightarrow> TimeStats" where
  "rollover t = t\<lparr>ts_open := ts_close t, ts_size := 0, ts_first_time_updated := False\<rparr>"

text \<open>\<open>update_stats\<close>: whether anything a client sees changed, and the new statistics.\<close>

definition update_stats :: "TimeStats \<Rightarrow> MsgTrade \<Rightarrow> bool \<times> TimeStats" where
  "update_stats t m =
     (if \<not> ts_first_time_updated t
      then (True, t\<lparr>ts_high := mt_price m, ts_low := mt_price m, ts_close := mt_price m,
                    ts_size := ts_size t + mt_size m, ts_first_time_updated := True\<rparr>)
      else let up = ts_high t <s mt_price m;
               t1 = (if up then t\<lparr>ts_high := mt_price m\<rparr> else t);
               down = mt_price m <s ts_low t1;
               t2 = (if down then t1\<lparr>ts_low := mt_price m\<rparr> else t1);
               t3 = t2\<lparr>ts_size := ts_size t2 + mt_size m\<rparr>;
               moved = (mt_price m \<noteq> ts_close t3);
               t4 = (if moved then t3\<lparr>ts_close := mt_price m\<rparr> else t3)
           in (up \<or> down \<or> moved, t4))"

section \<open>The element\<close>

text \<open>
  \<open>tp_first_symbol\<close> is the function-local static of \<open>push\<close>; \<open>tp_timer\<close> is the delay the timer was last
  scheduled with, if any.
\<close>

record TradeProcessor =
  tp_timer :: "nat option"
  tp_aggregation_interval_sec :: nat
  tp_time_stats_map :: "(symbol, TimeStats) HashMap"
  tp_subscriptions_map :: "(symbol, int) HashMap"
  tp_active :: bool
  tp_total_msgs :: "64 word"
  tp_first_symbol :: bool
  tp_noutputs :: nat

definition TradeProcessor_ctor :: "nat \<Rightarrow> TradeProcessor" where
  "TradeProcessor_ctor nout =
     \<lparr>tp_timer = None, tp_aggregation_interval_sec = 10, tp_time_stats_map = HashMap_ctor TimeStats_ctor,
      tp_subscriptions_map = HashMap_ctor 0, tp_active = True, tp_total_msgs = 0, tp_first_symbol = True,
      tp_noutputs = nout\<rparr>"

text \<open>
  \<open>configure\<close>: the interval \<open>Args\<close> read, if any, and the words of SYMBOLS_ROUTING as \<open>cp_spacevec\<close> splits
  them, symbols and ports in turn. Reading a port past the last word is an access outside the
  vector.
\<close>

fun route_symbols :: "(symbol, int) HashMap \<Rightarrow> byte list list \<Rightarrow> (int \<times> (symbol, int) HashMap) res" where
  "route_symbols m [] = Inr (0, m)"
| "route_symbols m [sy] = Inl OutOfBounds"
| "route_symbols m (sy # port # rest) =
     bnd (strtol (port @ [0])) (\<lambda>l.
     bnd (hm_insert aw_hashcode aw_eq m (aw_assign_str sy) (sint (word_of_int l :: 32 word))) (\<lambda>(inserted, m').
       if \<not> inserted then Inr (- 1, m') else route_symbols m' rest))"

definition tp_configure :: "nat option \<Rightarrow> byte list list \<Rightarrow> TradeProcessor \<Rightarrow> (int \<times> TradeProcessor) res" where
  "tp_configure interval symbols_ports_vector tp =
     (let tp1 = (case interval of None \<Rightarrow> tp | Some n \<Rightarrow> tp\<lparr>tp_aggregation_interval_sec := n\<rparr>)
      in bnd (route_symbols (tp_subscriptions_map tp1) symbols_ports_vector) (\<lambda>(rc, m).
           Inr (rc, tp1\<lparr>tp_subscriptions_map := m\<rparr>)))"

definition source_of :: "TimeStats \<Rightarrow> MsgSource" where
  "source_of t = MsgSource_ctor\<lparr>ms_high := ts_high t, ms_low := ts_low t, ms_open := ts_open t, ms_close := ts_close t\<rparr>"

definition send_update_msg :: "nat \<Rightarrow> TimeStats \<Rightarrow> 64 word \<Rightarrow> int \<Rightarrow> Packet \<Rightarrow> bool \<Rightarrow> action" where
  "send_update_msg nout stats timestamp out_port p is_init =
     (if length (pdata p) < sizeof_MsgSource then discard_packet p
      else checked_output_push nout out_port (set_packet_app_type (if is_init then MSG_INIT_SOURCE else MSG_UPDATE_SOURCE)
             (p\<lparr>pdata := overwrite (pdata p) (put_MsgSource ((source_of stats)\<lparr>ms_timestamp := timestamp\<rparr>))\<rparr>)))"

text \<open>
  \<open>send_add_msg\<close> makes a packet one byte longer than the message. \<open>raw_byte\<close> is what the allocation left in
  it and \<open>tsc\<close> the reading of the time-stamp counter.
\<close>

definition send_add_msg :: "nat \<Rightarrow> 64 word \<Rightarrow> byte \<Rightarrow> TimeStats \<Rightarrow> int \<Rightarrow> action" where
  "send_add_msg nout tsc raw_byte stats out_port =
     checked_output_push nout out_port
       \<lparr>pdata = put_MsgSource ((source_of stats)\<lparr>ms_volume := ts_size stats, ms_timestamp := tsc\<rparr>) @ [raw_byte],
        packet_app_type = MSG_ADD_SOURCE\<rparr>"

definition tp_push :: "TradeProcessor \<Rightarrow> int \<times> Packet \<Rightarrow> (action \<times> TradeProcessor) res" where
  "tp_push tp x =
     (case x of (port, p) \<Rightarrow>
        if \<not> tp_active tp then Inr (checked_output_push (tp_noutputs tp) port p, tp)
        else let tp1 = tp\<lparr>tp_total_msgs := tp_total_msgs tp + 1\<rparr>
             in bnd (populate_msg_trade MsgTrade_ctor (pdata p)) (\<lambda>r. case r of
                  None \<Rightarrow> Inr (discard_packet p, tp1)
                | Some m \<Rightarrow> bnd (findp aw_hashcode aw_eq (tp_subscriptions_map tp1) (mt_symbol m)) (\<lambda>out. case out of
                    None \<Rightarrow> Inr (discard_packet p, tp1)
                  | Some out_port \<Rightarrow>
                      let tp2 = (if tp_first_symbol tp1
                                 then tp1\<lparr>tp_timer := Some (tp_aggregation_interval_sec tp1), tp_first_symbol := False\<rparr>
                                 else tp1)
                      in bnd (get_or_create (tp_time_stats_map tp2) False (mt_symbol m) TimeStats_ctor)
                           (\<lambda>(stats, added, map1). case stats of
                             None \<Rightarrow> Inr (discard_packet p, tp2\<lparr>tp_time_stats_map := map1\<rparr>)
                           | Some t \<Rightarrow> case update_stats t m of (changed, t') \<Rightarrow>
                               bnd (store_value aw_hashcode aw_eq map1 (mt_symbol m) t') (\<lambda>map2.
                                 Inr (if changed
                                      then send_update_msg (tp_noutputs tp) t' (mt_src_timestamp m) out_port p added
                                      else discard_packet p,
                                      tp2\<lparr>tp_time_stats_map := map2\<rparr>))))))"

text \<open>
  \<open>run_timer\<close>: the state of the loop is the list of what was sent; \<open>tsc\<close> and \<open>raw_byte\<close> give the counter
  reading and the left-over byte of the n-th packet.
\<close>

definition timer_body :: "nat \<Rightarrow> (nat \<Rightarrow> 64 word) \<Rightarrow> (nat \<Rightarrow> byte) \<Rightarrow> (symbol, int) HashMap \<Rightarrow> action list \<Rightarrow>
    symbol \<times> TimeStats \<Rightarrow> (action list \<times> TimeStats) res" where
  "timer_body nout tsc raw_byte subs acts e =
     bnd (findp aw_hashcode aw_eq subs (fst e)) (\<lambda>out. case out of
         None \<Rightarrow> Inr (acts, snd e)
       | Some out_port \<Rightarrow>
           Inr (acts @ [send_add_msg nout (tsc (length acts)) (raw_byte (length acts)) (snd e) out_port],
                rollover (snd e)))"

definition run_timer :: "(nat \<Rightarrow> 64 word) \<Rightarrow> (nat \<Rightarrow> byte) \<Rightarrow> TradeProcessor \<Rightarrow> (action list \<times> TradeProcessor) res" where
  "run_timer tsc raw_byte tp =
     bnd (for_each (timer_body (tp_noutputs tp) tsc raw_byte (tp_subscriptions_map tp)) []
            (tp_time_stats_map tp) (hm_begin (tp_time_stats_map tp))) (\<lambda>(acts, m).
       Inr (acts, tp\<lparr>tp_time_stats_map := m, tp_timer := Some (tp_aggregation_interval_sec tp)\<rparr>))"

section \<open>Statistics\<close>

text \<open>The close price lies between the low and the high one.\<close>

definition stats_ok :: "TimeStats \<Rightarrow> bool" where
  "stats_ok t \<longleftrightarrow> ts_low t \<le>s ts_close t \<and> ts_close t \<le>s ts_high t"

lemma stats_ok_ctor: "stats_ok TimeStats_ctor"
  by (simp add: stats_ok_def TimeStats_ctor_def)

lemma stats_ok_rollover: "stats_ok (rollover t) \<longleftrightarrow> stats_ok t"
  by (simp add: stats_ok_def rollover_def)

lemma stats_ok_update: "stats_ok t \<Longrightarrow> stats_ok (snd (update_stats t m))"
  by (auto simp: stats_ok_def update_stats_def Let_def word_sless_alt word_sle_eq)

text \<open>All trades of an interval.\<close>

definition stats_after :: "TimeStats \<Rightarrow> MsgTrade list \<Rightarrow> TimeStats" where
  "stats_after t ms = foldl (\<lambda>t m. snd (update_stats t m)) t ms"

lemma update_stats_later:
  assumes "ts_first_time_updated t"
  shows "snd (update_stats t m) = t\<lparr>
    ts_high := (if ts_high t <s mt_price m then mt_price m else ts_high t),
    ts_low := (if mt_price m <s ts_low t then mt_price m else ts_low t),
    ts_size := ts_size t + mt_size m, ts_close := mt_price m\<rparr>"
  using assms by (cases t) (auto simp: update_stats_def Let_def)

lemma extrema_insert:
  fixes a b :: "'a :: linorder"
  assumes "finite A"
  shows "Max (insert (max a b) A) = Max (insert a (insert b A))"
    and "Min (insert (min a b) A) = Min (insert a (insert b A))"
  using assms by (cases "A = {}"; simp add: max.assoc min.assoc)+

lemma stats_after_later:
  assumes "ts_first_time_updated t"
  shows "sint (ts_high (stats_after t ms)) = Max (insert (sint (ts_high t)) ((\<lambda>m. sint (mt_price m)) ` set ms)) \<and>
    sint (ts_low (stats_after t ms)) = Min (insert (sint (ts_low t)) ((\<lambda>m. sint (mt_price m)) ` set ms)) \<and>
    ts_close (stats_after t ms) = last (ts_close t # map mt_price ms) \<and>
    ts_size (stats_after t ms) = ts_size t + sum_list (map mt_size ms) \<and>
    ts_open (stats_after t ms) = ts_open t"
  using assms
proof (induction ms arbitrary: t)
  case Nil
  then show ?case by (simp add: stats_after_def)
next
  case (Cons m ms)
  let ?t = "snd (update_stats t m)"
  note u = update_stats_later [OF Cons.prems, of m]
  have t: "ts_first_time_updated ?t" "sint (ts_high ?t) = max (sint (ts_high t)) (sint (mt_price m))"
    "sint (ts_low ?t) = min (sint (ts_low t)) (sint (mt_price m))" "ts_close ?t = mt_price m"
    "ts_size ?t = ts_size t + mt_size m" "ts_open ?t = ts_open t"
    using Cons.prems by (simp_all add: u word_sless_alt max_def min_def)
  have "stats_after t (m # ms) = stats_after ?t ms" by (simp add: stats_after_def)
  then show ?case
    using Cons.IH [OF t(1)] unfolding t
    by (simp add: extrema_insert add.assoc)
qed

text \<open>
  Property C34. The statistics of an interval are what they say: after the first and all further
  trades of an interval, the high and low are the largest and smallest price traded, the close is the
  last price, the size is the sum of the sizes, and the open is still the one set at the rollover.
\<close>

theorem interval_statistics:
  assumes "\<not> ts_first_time_updated t"
  shows "sint (ts_high (stats_after t (m # ms))) = Max ((\<lambda>m. sint (mt_price m)) ` set (m # ms)) \<and>
    sint (ts_low (stats_after t (m # ms))) = Min ((\<lambda>m. sint (mt_price m)) ` set (m # ms)) \<and>
    ts_close (stats_after t (m # ms)) = mt_price (last (m # ms)) \<and>
    ts_size (stats_after t (m # ms)) = ts_size t + sum_list (map mt_size (m # ms)) \<and>
    ts_open (stats_after t (m # ms)) = ts_open t"
proof -
  let ?t = "snd (update_stats t m)"
  have t: "ts_first_time_updated ?t" "ts_high ?t = mt_price m" "ts_low ?t = mt_price m"
    "ts_close ?t = mt_price m" "ts_size ?t = ts_size t + mt_size m" "ts_open ?t = ts_open t"
    using assms by (simp_all add: update_stats_def)
  have "stats_after t (m # ms) = stats_after ?t ms" by (simp add: stats_after_def)
  moreover have "last (mt_price m # map mt_price ms) = mt_price (last (m # ms))"
    by (simp add: last_map)
  ultimately show ?thesis
    using stats_after_later [OF t(1), of ms] t by (simp add: add.assoc)
qed

theorem interval_statistics_witness:
  "let trade = (\<lambda>p. MsgTrade_ctor\<lparr>mt_price := p, mt_size := 1\<rparr>); t = stats_after TimeStats_ctor [trade 5, trade 9, trade 4]
   in sint (ts_high t) = 9 \<and> sint (ts_low t) = 4 \<and> ts_close t = 4 \<and> ts_size t = 3 \<and> ts_open t = 0"
  using interval_statistics [of TimeStats_ctor "MsgTrade_ctor\<lparr>mt_price := 5, mt_size := 1\<rparr>"
      "[MsgTrade_ctor\<lparr>mt_price := 9, mt_size := 1\<rparr>, MsgTrade_ctor\<lparr>mt_price := 4, mt_size := 1\<rparr>]"]
  by (simp add: TimeStats_ctor_def Let_def)

section \<open>The invariant of the element\<close>

definition tp_inv :: "TradeProcessor \<Rightarrow> bool" where
  "tp_inv tp \<longleftrightarrow> sym_inv (tp_subscriptions_map tp) \<and> sym_inv (tp_time_stats_map tp) \<and>
     dom (hm_abs (tp_time_stats_map tp)) \<subseteq> dom (hm_abs (tp_subscriptions_map tp)) \<and>
     (\<forall>t\<in>ran (hm_abs (tp_time_stats_map tp)). stats_ok t)"

text \<open>The statistics of a symbol, those of a new entry when it has none.\<close>

definition stats_of :: "TradeProcessor \<Rightarrow> symbol \<Rightarrow> TimeStats" where
  "stats_of tp s = (case hm_abs (tp_time_stats_map tp) s of None \<Rightarrow> TimeStats_ctor | Some t \<Rightarrow> t)"

lemma tp_inv_ctor: "tp_inv (TradeProcessor_ctor nout)"
  by (simp add: tp_inv_def TradeProcessor_ctor_def hm_inv_ctor)

lemma route_symbols_inv:
  "sym_inv m \<Longrightarrow> route_symbols m ws = Inr (rc, m') \<Longrightarrow> sym_inv m' \<and> dom (hm_abs m) \<subseteq> dom (hm_abs m')"
proof (induction m ws arbitrary: rc m' rule: route_symbols.induct)
  case (3 m sy port rest)
  obtain l where l: "strtol (port @ [0]) = Inr l"
    using "3.prems"(2) by (cases "strtol (port @ [0])") simp_all
  obtain m1 where m1: "hm_insert aw_hashcode aw_eq m (aw_assign_str sy) (sint (word_of_int l :: 32 word)) =
      Inr (hm_abs m (aw_assign_str sy) = None, m1)" "sym_inv m1"
    "hm_abs m1 = (hm_abs m)(aw_assign_str sy \<mapsto> sint (word_of_int l :: 32 word))"
    using symbol_key.hm_insert_abs [OF "3.prems"(1) canonical_assign_str] by blast
  have sub: "dom (hm_abs m) \<subseteq> dom (hm_abs m1)" by (auto simp: m1(3))
  show ?case
  proof (cases "hm_abs m (aw_assign_str sy) = None")
    case True
    then have ins: "hm_insert aw_hashcode aw_eq m (aw_assign_str sy) (sint (word_of_int l :: 32 word)) = Inr (True, m1)"
      using m1(1) by simp
    with l "3.prems"(2) have "route_symbols m1 rest = Inr (rc, m')" by simp
    with "3.IH" [OF l ins refl _ m1(2)] sub show ?thesis by auto
  next
    case False
    with l m1 "3.prems"(2) sub show ?thesis by auto
  qed
qed auto

lemma tp_configure_inv:
  assumes "tp_inv tp" and "tp_configure i ws tp = Inr (rc, tp')"
  shows "tp_inv tp'"
proof -
  obtain m where m: "route_symbols (tp_subscriptions_map tp) ws = Inr (rc, m)"
    "tp_subscriptions_map tp' = m" "tp_time_stats_map tp' = tp_time_stats_map tp"
    using assms(2) by (auto simp: tp_configure_def bnd_eq_Inr Let_def split: option.splits)
  have "sym_inv (tp_subscriptions_map tp)"
    using assms(1) by (simp add: tp_inv_def)
  note r = route_symbols_inv [OF this m(1)]
  then have "dom (hm_abs (tp_time_stats_map tp)) \<subseteq> dom (hm_abs m)"
    using assms(1) unfolding tp_inv_def by blast
  with assms(1) m(2,3) r show ?thesis
    by (simp add: tp_inv_def)
qed

text \<open>What a push of a trade for a subscribed symbol does.\<close>

lemma tp_push_trade:
  assumes inv: "tp_inv tp" and act: "tp_active tp" and pop: "populate_msg_trade MsgTrade_ctor (pdata p) = Inr (Some m)"
    and can: "canonical (mt_symbol m)" and sub: "hm_abs (tp_subscriptions_map tp) (mt_symbol m) = Some out"
    and upd: "update_stats (stats_of tp (mt_symbol m)) m = (changed, t')"
  shows "\<exists>tp'. tp_push tp (port, p) =
      Inr (if changed then send_update_msg (tp_noutputs tp) t' (mt_src_timestamp m) out p
             (hm_abs (tp_time_stats_map tp) (mt_symbol m) = None) else discard_packet p, tp') \<and>
    tp_inv tp' \<and> hm_abs (tp_time_stats_map tp') = (hm_abs (tp_time_stats_map tp))(mt_symbol m \<mapsto> t') \<and>
    tp_subscriptions_map tp' = tp_subscriptions_map tp \<and> tp_active tp' \<and> tp_noutputs tp' = tp_noutputs tp"
proof -
  let ?s = "mt_symbol m" and ?T = "tp_time_stats_map tp"
  have subs: "sym_inv (tp_subscriptions_map tp)" and T: "sym_inv ?T"
    using inv by (simp_all add: tp_inv_def)
  have f: "findp aw_hashcode aw_eq (tp_subscriptions_map tp) ?s = Inr (Some out)"
    using symbol_key.findp_abs [OF subs can] sub by simp
  obtain m1 where m1: "get_or_create ?T False ?s TimeStats_ctor = Inr (Some (stats_of tp ?s), hm_abs ?T ?s = None, m1)"
    "sym_inv m1" "hm_abs m1 = (hm_abs ?T)(?s \<mapsto> stats_of tp ?s)"
    using get_or_create_abs [OF T can, of False TimeStats_ctor]
    by (auto simp: stats_of_def fun_upd_idem split: option.splits)
  obtain m2 where m2: "store_value aw_hashcode aw_eq m1 ?s t' = Inr m2" "sym_inv m2"
    "hm_abs m2 = (hm_abs ?T)(?s \<mapsto> t')"
    using symbol_key.store_value_abs [OF m1(2) can, of "stats_of tp ?s" t'] m1(3) by auto
  have "stats_ok (stats_of tp ?s)"
    using inv by (auto simp: tp_inv_def stats_of_def stats_ok_ctor ran_def split: option.splits)
  then have "stats_ok t'" using stats_ok_update [of "stats_of tp ?s" m] upd by simp
  then have ok: "sym_inv m2 \<and> dom (hm_abs m2) \<subseteq> dom (hm_abs (tp_subscriptions_map tp)) \<and> (\<forall>t\<in>ran (hm_abs m2). stats_ok t)"
    using inv m2 sub by (auto simp: tp_inv_def ran_def split: if_splits)
  show ?thesis
    using act pop f m1(1) m2 upd ok subs by (auto simp: tp_push_def Let_def tp_inv_def)
qed

text \<open>Every symbol that parsing returns is canonical.\<close>

lemma canonical_strncpy:
  assumes "canonical s" and "strncpy s src n = Inr s'" and "n < ORDER_SYMBOL_LEN" and "s = replicate ORDER_SYMBOL_LEN 0"
  shows "canonical s'"
proof -
  let ?c = "cstr (take n src)"
  have "length ?c \<le> n" using length_cstr_le [of "take n src"] by simp
  moreover have "s' = ?c @ replicate (n - length ?c) 0 @ drop n s"
    using assms(2) by (auto simp: strncpy_def Let_def split: if_splits)
  ultimately have "s' = ?c @ replicate (ORDER_SYMBOL_LEN - length ?c) 0"
    using assms(3,4) by (simp flip: replicate_add)
  with \<open>length ?c \<le> n\<close> assms(3) show ?thesis
    using canonical_padded [of ?c] set_cstr [of _ "take n src"] by auto
qed

lemma take_field_symbol:
  assumes "take_field n md i counter start msg = Inr (Some msg')" and "canonical (mt_symbol msg)"
    and "counter \<le> 3 \<Longrightarrow> mt_symbol msg = replicate ORDER_SYMBOL_LEN 0"
  shows "canonical (mt_symbol msg') \<and> (counter < 3 \<longrightarrow> mt_symbol msg' = replicate ORDER_SYMBOL_LEN 0)"
proof (cases "counter = 3")
  case True
  then obtain s where "strncpy (mt_symbol msg) (drop start md) (i - start) = Inr s" "msg' = msg\<lparr>mt_symbol := s\<rparr>"
    "i - start < ORDER_SYMBOL_LEN"
    using assms(1) by (auto simp: take_field_def bnd_eq_Inr ORDER_SYMBOL_LEN_def split: if_splits)
  with canonical_strncpy [OF assms(2)] assms(3) True show ?thesis by simp
next
  case False
  with assms show ?thesis
    by (auto simp: take_field_def bnd_eq_Inr split: if_splits)
qed

lemma scan_md_symbol:
  assumes "scan_md n md i counter start msg = Inr (Some (k, msg'))" and "canonical (mt_symbol msg)"
    and "counter < 3 \<Longrightarrow> mt_symbol msg = replicate ORDER_SYMBOL_LEN 0"
  shows "canonical (mt_symbol msg')"
  using assms
proof (induction n md i counter start msg rule: scan_md.induct)
  case (1 n md i counter start msg)
  show ?case
  proof (cases "i < n")
    case True
    obtain c where c: "arr_get md i = Inr c"
      using "1.prems"(1) True by (cases "arr_get md i") (simp_all add: scan_md.simps [of n md i])
    show ?thesis
    proof (cases "c = 124")
      case bar: True
      obtain msg1 where m: "take_field n md i (counter + 1) start msg = Inr (Some msg1)"
        "scan_md n md (i + 1) (counter + 1) (i + 1) msg1 = Inr (Some (k, msg'))"
        using "1.prems"(1) True c bar
        by (auto simp: scan_md.simps [of n md i] bnd_eq_Inr split: option.splits)
      have "canonical (mt_symbol msg1) \<and> (counter + 1 < 3 \<longrightarrow> mt_symbol msg1 = replicate ORDER_SYMBOL_LEN 0)"
        using "1.prems"(2,3) by (intro take_field_symbol [OF m(1)]) auto
      with "1.IH"(1) [OF True c bar m(1) refl m(2)] show ?thesis by blast
    next
      case False
      have "scan_md n md (i + 1) counter start msg = Inr (Some (k, msg'))"
        using "1.prems"(1) True c False by (simp add: scan_md.simps [of n md i])
      with "1.IH"(2) [OF True c False] "1.prems"(2,3) show ?thesis by blast
    qed
  next
    case False
    with 1 show ?thesis by (simp add: scan_md.simps [of n md i])
  qed
qed

lemma populate_canonical:
  assumes "populate_msg_trade MsgTrade_ctor data = Inr (Some m)"
  shows "canonical (mt_symbol m)"
proof -
  have z: "mt_symbol MsgTrade_ctor = replicate ORDER_SYMBOL_LEN 0" by (simp add: MsgTrade_ctor_def)
  then have "canonical (mt_symbol MsgTrade_ctor)"
    using canonical_padded [of "[]"] by (simp add: ORDER_SYMBOL_LEN_def)
  moreover define n where "n = unat (of_nat (length data) - of_nat s_mac_ip_udp_len - of_nat 8 :: 32 word)"
  moreover obtain r where r: "scan_md n (drop (s_mac_ip_udp_len + 8) data) 0 0 0 MsgTrade_ctor = Inr r"
    using assms by (cases "scan_md n (drop (s_mac_ip_udp_len + 8) data) 0 0 0 MsgTrade_ctor")
      (simp_all add: populate_msg_trade_def Let_def n_def split: if_splits)
  moreover obtain k m1 where "r = Some (k, m1)" "mt_symbol m = mt_symbol m1"
    using assms r [unfolded n_def] by (cases r)
      (auto simp: populate_msg_trade_def Let_def bnd_eq_Inr split: if_splits)
  ultimately show ?thesis
    using scan_md_symbol [of n "drop (s_mac_ip_udp_len + 8) data" 0 0 0 MsgTrade_ctor k m1] z by simp
qed

text \<open>Every push either stops in the parser or returns and keeps the invariant.\<close>

lemma tp_push_inv:
  assumes "tp_inv tp" and "populate_msg_trade MsgTrade_ctor (pdata p) = Inr r"
  shows "\<exists>a tp'. tp_push tp (port, p) = Inr (a, tp') \<and> tp_inv tp'"
proof (cases "tp_active tp")
  case True
  show ?thesis
  proof (cases r)
    case None
    with True assms show ?thesis by (simp add: tp_push_def Let_def tp_inv_def)
  next
    case (Some m)
    have can: "canonical (mt_symbol m)"
      using populate_canonical assms(2) Some by simp
    show ?thesis
    proof (cases "hm_abs (tp_subscriptions_map tp) (mt_symbol m)")
      case None
      then have "findp aw_hashcode aw_eq (tp_subscriptions_map tp) (mt_symbol m) = Inr None"
        using symbol_key.findp_abs [OF _ can, of "tp_subscriptions_map tp"] assms(1) by (simp add: tp_inv_def)
      with True assms Some show ?thesis by (simp add: tp_push_def Let_def tp_inv_def)
    next
      case sub: (Some out)
      obtain changed t' where "update_stats (stats_of tp (mt_symbol m)) m = (changed, t')" by fastforce
      with tp_push_trade [OF assms(1) True _ can sub] assms(2) Some show ?thesis by fastforce
    qed
  qed
qed (use assms in \<open>simp add: tp_push_def\<close>)

section \<open>The timer\<close>

lemma timer_entries:
  assumes "sym_inv subs" and "\<forall>e\<in>set es. canonical (fst e) \<and> fst e \<in> dom (hm_abs subs)"
  shows "map_acc (keep_key (timer_body nout tsc raw_byte subs)) acts es =
    Inr (acts @ map (\<lambda>(i, e). send_add_msg nout (tsc i) (raw_byte i) (snd e) (the (hm_abs subs (fst e))))
           (enumerate (length acts) es), map (apsnd rollover) es)"
  using assms(2)
proof (induction es arbitrary: acts)
  case (Cons e es)
  obtain out where "hm_abs subs (fst e) = Some out" using Cons.prems by auto
  moreover from this have "findp aw_hashcode aw_eq subs (fst e) = Inr (Some out)"
    using symbol_key.findp_abs [OF assms(1), of "fst e"] Cons.prems by simp
  ultimately have "keep_key (timer_body nout tsc raw_byte subs) acts e =
      Inr (acts @ [send_add_msg nout (tsc (length acts)) (raw_byte (length acts)) (snd e) (the (hm_abs subs (fst e)))],
        apsnd rollover e)"
    by (cases e) (simp add: keep_key_def timer_body_def)
  then show ?case
    using Cons.prems by (simp add: Cons.IH)
qed simp

lemma timer_buckets:
  assumes "sym_inv subs" and "\<forall>e\<in>set (concat bs). canonical (fst e) \<and> fst e \<in> dom (hm_abs subs)"
  shows "map_acc (map_acc (keep_key (timer_body nout tsc raw_byte subs))) acts bs =
    Inr (acts @ map (\<lambda>(i, e). send_add_msg nout (tsc i) (raw_byte i) (snd e) (the (hm_abs subs (fst e))))
           (enumerate (length acts) (concat bs)), map (map (apsnd rollover)) bs)"
  using assms(2)
proof (induction bs arbitrary: acts)
  case (Cons b bs)
  then show ?case
    using timer_entries [OF assms(1), of b] by (simp add: enumerate_append_eq)
qed simp

lemma sym_inv_entries:
  assumes "sym_inv m"
  shows "distinct (map fst (entries m))" and "\<forall>e\<in>set (entries m). canonical (fst e)"
    and "fst ` set (entries m) = dom (hm_abs m)"
  using assms chains_ok_distinct [of canonical aw_hashcode "take (hm_nbuckets m) (hm_buckets m)"]
    chains_ok_entry [of canonical aw_hashcode "take (hm_nbuckets m) (hm_buckets m)"]
  by (auto simp: hm_inv_def entries_def hm_abs_def dom_map_of_conv_image_fst simp del: set_concat)

text \<open>Changing the values of all entries and nothing else.\<close>

lemma chains_ok_values: "chains_ok ok h bs \<Longrightarrow> chains_ok ok h (map (map (apsnd f)) bs)"
proof -
  have "map fst (map (apsnd f) es) = map fst es" for es :: "('a \<times> 'b) list"
    by simp
  then show "chains_ok ok h bs \<Longrightarrow> chains_ok ok h (map (map (apsnd f)) bs)"
    by (simp add: chains_ok_def del: map_map)
qed

lemma map_values:
  assumes inv: "sym_inv m" and m': "m' = m\<lparr>hm_buckets := map (map (apsnd f)) (take (hm_nbuckets m) (hm_buckets m)) @
    drop (hm_nbuckets m) (hm_buckets m)\<rparr>"
  shows "sym_inv m'" and "hm_abs m' = map_option f \<circ> hm_abs m"
proof -
  have nb: "hm_nbuckets m' = hm_nbuckets m" and bs: "take (hm_nbuckets m) (hm_buckets m') =
      map (map (apsnd f)) (take (hm_nbuckets m) (hm_buckets m))"
    using inv by (simp_all add: m' hm_inv_def)
  have "chains_ok canonical aw_hashcode (take (hm_nbuckets m) (hm_buckets m'))"
    using inv unfolding bs by (intro chains_ok_values) (simp add: hm_inv_def)
  moreover have "length (concat (take (hm_nbuckets m) (hm_buckets m'))) = length (entries m)"
    unfolding bs by (simp add: map_concat [symmetric] entries_def)
  ultimately show "sym_inv m'"
    using inv by (simp add: hm_inv_def nb m' entries_def)
  have "entries m' = map (apsnd f) (entries m)"
    unfolding entries_def nb bs by (simp add: map_concat)
  moreover have "apsnd f = (\<lambda>(k :: symbol, v). (k, f v))"
    by (simp add: fun_eq_iff)
  ultimately show "hm_abs m' = map_option f \<circ> hm_abs m"
    by (simp only: hm_abs_def map_of_map)
qed

lemma run_timer_reports:
  assumes "tp_inv tp"
  shows "\<exists>keys tp'. run_timer tsc raw_byte tp =
      Inr (map (\<lambda>(i, k). send_add_msg (tp_noutputs tp) (tsc i) (raw_byte i) (stats_of tp k)
                  (the (hm_abs (tp_subscriptions_map tp) k))) (enumerate 0 keys), tp') \<and>
    distinct keys \<and> set keys = dom (hm_abs (tp_time_stats_map tp)) \<and>
    hm_abs (tp_time_stats_map tp') = map_option rollover \<circ> hm_abs (tp_time_stats_map tp) \<and>
    tp_timer tp' = Some (tp_aggregation_interval_sec tp) \<and> tp_inv tp' \<and>
    tp_subscriptions_map tp' = tp_subscriptions_map tp \<and> tp_noutputs tp' = tp_noutputs tp \<and> tp_active tp' = tp_active tp"
proof -
  let ?T = "tp_time_stats_map tp" and ?S = "tp_subscriptions_map tp"
  let ?bs = "take (hm_nbuckets ?T) (hm_buckets ?T)"
  let ?m = "?T\<lparr>hm_buckets := map (map (apsnd rollover)) ?bs @ drop (hm_nbuckets ?T) (hm_buckets ?T)\<rparr>"
  have inv: "sym_inv ?T" "sym_inv ?S" "dom (hm_abs ?T) \<subseteq> dom (hm_abs ?S)" "\<forall>t\<in>ran (hm_abs ?T). stats_ok t"
    using assms by (simp_all add: tp_inv_def)
  note en = sym_inv_entries [OF inv(1)]
  have "\<forall>e\<in>set (concat ?bs). canonical (fst e) \<and> fst e \<in> dom (hm_abs ?S)"
    using en(2,3) inv(3) unfolding entries_def by blast
  note acc = timer_buckets [OF inv(2) this, of "tp_noutputs tp" tsc raw_byte "[]"]
  have nb: "hm_nbuckets ?T \<le> length (hm_buckets ?T)" using inv(1) by (simp add: hm_inv_def)
  have run: "run_timer tsc raw_byte tp =
      Inr (map (\<lambda>(i, e). send_add_msg (tp_noutputs tp) (tsc i) (raw_byte i) (snd e) (the (hm_abs ?S (fst e))))
             (enumerate 0 (entries ?T)),
           tp\<lparr>tp_time_stats_map := ?m, tp_timer := Some (tp_aggregation_interval_sec tp)\<rparr>)"
    unfolding run_timer_def for_each_begin [OF nb] acc by (simp add: entries_def)
  have "stats_of tp (fst e) = snd e" if "e \<in> set (entries ?T)" for e
    using en(1) that by (cases e) (simp add: stats_of_def hm_abs_def)
  then have "map (\<lambda>(i, e). send_add_msg (tp_noutputs tp) (tsc i) (raw_byte i) (snd e) (the (hm_abs ?S (fst e))))
      (enumerate 0 (entries ?T)) =
    map (\<lambda>(i, k). send_add_msg (tp_noutputs tp) (tsc i) (raw_byte i) (stats_of tp k) (the (hm_abs ?S k)))
      (enumerate 0 (map fst (entries ?T)))"
    by (intro nth_equalityI) (simp_all add: nth_enumerate_eq)
  moreover have "tp_inv (tp\<lparr>tp_time_stats_map := ?m, tp_timer := Some (tp_aggregation_interval_sec tp)\<rparr>)"
    using map_values [OF inv(1) refl, of rollover] inv by (auto simp: tp_inv_def ran_def stats_ok_rollover)
  ultimately show ?thesis
    using run en map_values(2) [OF inv(1) refl, of rollover]
    by (intro exI [of _ "map fst (entries ?T)"] exI [of _ "tp\<lparr>tp_time_stats_map := ?m,
        tp_timer := Some (tp_aggregation_interval_sec tp)\<rparr>"]) simp
qed

text \<open>
  Property C35. When the timer fires, every symbol that has traded is reported exactly once: the
  messages sent are the add messages of all symbols in the table, each with that symbol's
  statistics and on its subscribed port, every interval is rolled over, and the timer is set again.
\<close>

theorem timer_reports_every_symbol:
  assumes "tp_inv tp"
  shows "\<exists>keys tp'. run_timer tsc raw_byte tp =
      Inr (map (\<lambda>(i, k). send_add_msg (tp_noutputs tp) (tsc i) (raw_byte i) (stats_of tp k)
                  (the (hm_abs (tp_subscriptions_map tp) k))) (enumerate 0 keys), tp') \<and>
    distinct keys \<and> set keys = dom (hm_abs (tp_time_stats_map tp)) \<and>
    hm_abs (tp_time_stats_map tp') = map_option rollover \<circ> hm_abs (tp_time_stats_map tp) \<and>
    tp_timer tp' = Some (tp_aggregation_interval_sec tp) \<and> tp_inv tp'"
  using run_timer_reports [OF assms, of tsc raw_byte] by blast

lemma singleton_table: "\<exists>m. sym_inv m \<and> hm_abs m = [aw_assign_str str \<mapsto> v]"
proof -
  have "sym_inv (HashMap_ctor v)" by (rule hm_inv_ctor)
  from symbol_key.hm_insert_abs [OF this canonical_assign_str, of str v] show ?thesis
    by auto
qed

theorem timer_reports_every_symbol_witness:
  "\<exists>tp keys tp'. card (dom (hm_abs (tp_time_stats_map tp))) = 1 \<and> run_timer (\<lambda>_. 5) (\<lambda>_. 0) tp =
      Inr (map (\<lambda>(i, k). send_add_msg (tp_noutputs tp) 5 0 (stats_of tp k)
                  (the (hm_abs (tp_subscriptions_map tp) k))) (enumerate 0 keys), tp') \<and>
    distinct keys \<and> set keys = dom (hm_abs (tp_time_stats_map tp)) \<and>
    hm_abs (tp_time_stats_map tp') = map_option rollover \<circ> hm_abs (tp_time_stats_map tp) \<and>
    tp_timer tp' = Some (tp_aggregation_interval_sec tp) \<and> tp_inv tp'"
proof -
  let ?k = "aw_assign_str [65]"
  obtain subs :: "(symbol, int) HashMap" where subs: "sym_inv subs" "hm_abs subs = [?k \<mapsto> 0]"
    using singleton_table [of "[65]" "0::int"] by metis
  obtain stats where stats: "sym_inv stats" "hm_abs stats = [?k \<mapsto> TimeStats_ctor]"
    using singleton_table [of "[65]" TimeStats_ctor] by metis
  let ?tp = "(TradeProcessor_ctor 1)\<lparr>tp_subscriptions_map := subs, tp_time_stats_map := stats\<rparr>"
  have inv: "tp_inv ?tp" using subs stats by (simp add: tp_inv_def stats_ok_ctor)
  show ?thesis
    using timer_reports_every_symbol [OF inv, of "\<lambda>_. 5" "\<lambda>_. 0"] stats(2)
    by (intro exI [of _ ?tp]) simp
qed

section \<open>Streams of packets\<close>

definition trade_of :: "Packet \<Rightarrow> MsgTrade option" where
  "trade_of p = (case populate_msg_trade MsgTrade_ctor (pdata p) of Inr r \<Rightarrow> r | Inl _ \<Rightarrow> None)"

definition parses :: "Packet \<Rightarrow> bool" where
  "parses p \<longleftrightarrow> (case populate_msg_trade MsgTrade_ctor (pdata p) of Inr r \<Rightarrow> True | Inl _ \<Rightarrow> False)"

definition trades_of :: "symbol \<Rightarrow> Packet list \<Rightarrow> MsgTrade list" where
  "trades_of s ps = filter (\<lambda>m. mt_symbol m = s) (List.map_filter trade_of ps)"

lemma tp_push_stats:
  assumes inv: "tp_inv tp" and act: "tp_active tp" and "parses p" and s: "s \<in> dom (hm_abs (tp_subscriptions_map tp))"
  shows "\<exists>a tp'. tp_push tp (port, p) = Inr (a, tp') \<and> tp_inv tp' \<and> tp_active tp' \<and>
    tp_subscriptions_map tp' = tp_subscriptions_map tp \<and>
    stats_of tp' s = stats_after (stats_of tp s) (trades_of s [p])"
proof -
  obtain r where r: "populate_msg_trade MsgTrade_ctor (pdata p) = Inr r"
    using assms(3) by (auto simp: parses_def split: sum.splits)
  have t: "trade_of p = r" using r by (simp add: trade_of_def)
  show ?thesis
  proof (cases r)
    case None
    with r t inv act show ?thesis
      by (simp add: tp_push_def Let_def tp_inv_def trades_of_def map_filter_simps stats_after_def stats_of_def)
  next
    case (Some m)
    have can: "canonical (mt_symbol m)" using populate_canonical r Some by simp
    show ?thesis
    proof (cases "hm_abs (tp_subscriptions_map tp) (mt_symbol m)")
      case None
      then have "findp aw_hashcode aw_eq (tp_subscriptions_map tp) (mt_symbol m) = Inr None" "mt_symbol m \<noteq> s"
        using symbol_key.findp_abs [OF _ can, of "tp_subscriptions_map tp"] inv s by (auto simp: tp_inv_def)
      with r t inv act Some show ?thesis
        by (simp add: tp_push_def Let_def tp_inv_def trades_of_def map_filter_simps stats_after_def stats_of_def)
    next
      case sub: (Some out)
      obtain changed t' where u: "update_stats (stats_of tp (mt_symbol m)) m = (changed, t')" by fastforce
      have tr: "trades_of s [p] = (if mt_symbol m = s then [m] else [])"
        using t Some by (simp add: trades_of_def map_filter_simps)
      obtain tp' where "tp_push tp (port, p) =
          Inr (if changed then send_update_msg (tp_noutputs tp) t' (mt_src_timestamp m) out p
             (hm_abs (tp_time_stats_map tp) (mt_symbol m) = None) else discard_packet p, tp')"
        "tp_inv tp'" "hm_abs (tp_time_stats_map tp') = (hm_abs (tp_time_stats_map tp))(mt_symbol m \<mapsto> t')"
        "tp_subscriptions_map tp' = tp_subscriptions_map tp" "tp_active tp'"
        using tp_push_trade [OF inv act _ can sub u] r Some by blast
      then show ?thesis
        using u by (auto simp: tr stats_after_def stats_of_def)
    qed
  qed
qed

text \<open>
  The statistics of a symbol are those of its own trades: whatever packets arrive, each
  of them parsed without a fault, on whatever ports, every push returns, the invariant holds at
  the end, and the statistics of every subscribed symbol are its earlier ones updated by exactly
  the trades among the packets that carry that symbol, in their order.
\<close>

theorem symbols_do_not_interfere:
  assumes "tp_inv tp" and "tp_active tp" and "list_all (\<lambda>(port, p). parses p) ps"
    and "s \<in> dom (hm_abs (tp_subscriptions_map tp))"
  shows "\<exists>acts tp'. run_ops tp_push tp ps = Inr (acts, tp') \<and> length acts = length ps \<and> tp_inv tp' \<and>
    stats_of tp' s = stats_after (stats_of tp s) (trades_of s (map snd ps))"
  using assms
proof (induction ps arbitrary: tp)
  case Nil
  then show ?case by (simp add: stats_after_def trades_of_def map_filter_simps)
next
  case (Cons x ps)
  obtain port p where x: "x = (port, p)" by (cases x)
  obtain a tp1 where 1: "tp_push tp x = Inr (a, tp1)" "tp_inv tp1" "tp_active tp1"
    "tp_subscriptions_map tp1 = tp_subscriptions_map tp"
    "stats_of tp1 s = stats_after (stats_of tp s) (trades_of s [p])"
    using tp_push_stats [OF Cons.prems(1,2) _ Cons.prems(4), of p port] Cons.prems(3) x by auto
  moreover have "trades_of s (map snd (x # ps)) = trades_of s [p] @ trades_of s (map snd ps)"
    by (simp add: x trades_of_def map_filter_simps split: option.splits)
  ultimately show ?case
    using Cons.IH [OF 1(2,3)] Cons.prems(3,4) by (auto simp: stats_after_def)
qed

theorem symbols_do_not_interfere_witness:
  "let p = \<lparr>pdata = packet_data (replicate 42 7) 99 (trade_text [84] [48] [65] [55, 55] [49]), packet_app_type = NO_APP_MSG\<rparr>
   in \<exists>tp acts tp'. run_ops tp_push tp [(0, p), (0, p)] = Inr (acts, tp') \<and> length acts = 2 \<and> tp_inv tp' \<and>
     ts_size (stats_of tp' (aw_assign_str [65])) = 2 \<and> ts_close (stats_of tp' (aw_assign_str [65])) = fixedpt_fromint 77"
proof -
  define p where "p = \<lparr>pdata = packet_data (replicate 42 7) 99 (trade_text [84] [48] [65] [55, 55] [49]), packet_app_type = NO_APP_MSG\<rparr>"
  let ?s = "aw_assign_str [65]"
  define m where "m = \<lparr>mt_price = fixedpt_fromint 77, mt_size = 1, mt_symbol = ?s, mt_timestamp = 0, mt_src_timestamp = 99\<rparr>"
  obtain subs :: "(symbol, int) HashMap" where subs: "sym_inv subs" "hm_abs subs = [?s \<mapsto> 0]"
    using singleton_table [of "[65]" "0::int"] by metis
  let ?tp = "(TradeProcessor_ctor 1)\<lparr>tp_subscriptions_map := subs\<rparr>"
  have inv: "tp_inv ?tp" "tp_active ?tp" using subs tp_inv_ctor [of 1] by (simp_all add: tp_inv_def TradeProcessor_ctor_def)
  have "parse_price_as_fixedpt [55, 55] = Inr (fixedpt_fromint 77)"
    using parse_price_whole [of "[55, 55]"] by (simp add: is_digit_def digits_val_def fixedpt_fromint_int)
  moreover have "strtol ([49] @ [0]) = Inr 1"
    using strtol_digits [of "[49]" "[]"] by (simp add: is_digit_def digits_val_def)
  ultimately have "populate_msg_trade MsgTrade_ctor (pdata p) = Inr (Some m)"
    unfolding p_def m_def using populate_trade_text [of "replicate 42 7" "[84]" "[48]" "[65]" "[55, 55]" "[49]" "fixedpt_fromint 77" 1 99]
    by (simp add: s_mac_ip_udp_len_def trade_text_def plain_def ORDER_SYMBOL_LEN_def aw_assign_str_def cstr_def)
  then have "parses p" "trades_of ?s [p, p] = [m, m]"
    by (simp_all add: parses_def trades_of_def trade_of_def map_filter_simps m_def)
  moreover have "stats_of ?tp ?s = TimeStats_ctor" by (simp add: stats_of_def TradeProcessor_ctor_def)
  moreover have "ts_size (stats_after TimeStats_ctor [m, m]) = 2" "ts_close (stats_after TimeStats_ctor [m, m]) = fixedpt_fromint 77"
    by (simp_all add: stats_after_def update_stats_def Let_def TimeStats_ctor_def m_def)
  ultimately show ?thesis
    using symbols_do_not_interfere [OF inv, of "[(0, p), (0, p)]" ?s] subs(2)
    unfolding Let_def p_def [symmetric] by (intro exI [of _ ?tp]) auto
qed

end
