(* ===== verification/Measurements.thy ===== *)
theory Measurements
  imports Packets
begin

text \<open>
  Latency measurement: \<open>RunningStat\<close> (lib/running_stat.cc), \<open>CyclesCounter\<close> (lib/cycles_counter.cc) and the
  element \<open>StatPrinter\<close> (elements/standard/stat_printer.cc) with the arrays all its instances share. Counter
  readings are arguments. The destructor's computation is modelled up to the statistics it prints.
\<close>

section \<open>RunningStat\<close>

record Stats =
  st_N :: "32 word"
  st_aggregate_cycles :: "64 word"
  st_highest :: "64 word"
  st_lowest :: "64 word"
  st_s1 :: "64 word"
  st_s2 :: "64 word"

definition Stats_ctor :: Stats where
  "Stats_ctor = \<lparr>st_N = 0, st_aggregate_cycles = 0, st_highest = 0, st_lowest = 0, st_s1 = 0, st_s2 = 0\<rparr>"

definition rs_update_counter :: "Stats \<Rightarrow> 64 word \<Rightarrow> Stats" where
  "rs_update_counter s value =
     s\<lparr>st_N := st_N s + 1,
       st_aggregate_cycles := st_aggregate_cycles s + value,
       st_highest := (if value > st_highest s then value else st_highest s),
       st_lowest := (if st_lowest s = 0 then value else if value < st_lowest s then value else st_lowest s),
       st_s1 := st_s1 s + value,
       st_s2 := st_s2 s + value * value\<rparr>"

definition get_running_stats :: "Stats \<Rightarrow> Stats" where
  "get_running_stats s = s"

section \<open>CyclesCounter\<close>

definition MAX_PREV_COUNTERS :: nat where "MAX_PREV_COUNTERS = 100"

record CyclesCounter =
  cc_cycles_counter :: "64 word"
  cc_reporting_interval :: int
  cc_current_interval :: int
  cc_num_prev_counters :: "32 word"
  cc_prev_counters :: "64 word list"

definition CyclesCounter_ctor :: CyclesCounter where
  "CyclesCounter_ctor = \<lparr>cc_cycles_counter = 0, cc_reporting_interval = 0, cc_current_interval = 0,
     cc_num_prev_counters = 0, cc_prev_counters = replicate MAX_PREV_COUNTERS 0\<rparr>"

definition set_reporting_interval :: "CyclesCounter \<Rightarrow> int \<Rightarrow> CyclesCounter" where
  "set_reporting_interval c n = c\<lparr>cc_reporting_interval := n\<rparr>"

definition update_prev_counters :: "CyclesCounter \<Rightarrow> CyclesCounter res" where
  "update_prev_counters c =
     bnd (arr_set (cc_prev_counters c) (unat (cc_num_prev_counters c) mod MAX_PREV_COUNTERS) (cc_cycles_counter c))
       (\<lambda>a. Inr (c\<lparr>cc_prev_counters := a, cc_num_prev_counters := cc_num_prev_counters c + 1\<rparr>))"

definition cc_update_counter :: "CyclesCounter \<Rightarrow> 64 word \<Rightarrow> (bool \<times> CyclesCounter) res" where
  "cc_update_counter c value =
     (let c1 = c\<lparr>cc_cycles_counter := cc_cycles_counter c + value, cc_current_interval := cc_current_interval c + 1\<rparr>
      in if cc_current_interval c1 \<ge> cc_reporting_interval c1
         then bnd (update_prev_counters (c1\<lparr>cc_current_interval := 0\<rparr>)) (\<lambda>c2. Inr (True, c2))
         else Inr (False, c1))"

definition get_counter :: "CyclesCounter \<Rightarrow> 64 word" where
  "get_counter c = cc_cycles_counter c"

definition reset_counter :: "CyclesCounter \<Rightarrow> CyclesCounter" where
  "reset_counter c = c\<lparr>cc_cycles_counter := 0\<rparr>"

text \<open>The decimal text \<open>%llu\<close> prints.\<close>

fun show_dec :: "nat \<Rightarrow> string" where
  "show_dec n = (if n < 10 then [digit_char n] else show_dec (n div 10) @ [digit_char n])"

declare show_dec.simps [simp del]

text \<open>
  \<open>get_x_last_counters_str\<close>: the text the successive \<open>snprintf\<close> calls leave in the buffer. Each writes
  at most the remaining size less one for the NUL and returns the length it wanted to write.
\<close>

function last_counters :: "CyclesCounter \<Rightarrow> int \<Rightarrow> int \<Rightarrow> int \<Rightarrow> string \<Rightarrow> string res" where
  "last_counters c n i remaining out =
     (if i < n \<and> sint (cc_num_prev_counters c) - i - 1 \<ge> 0
      then bnd (arr_get (cc_prev_counters c) (unat (cc_num_prev_counters c - word_of_int i - 1) mod MAX_PREV_COUNTERS)) (\<lambda>v.
             let text = show_dec (unat v) @ '','';
                 remaining' = remaining - int (length text);
                 out' = out @ take (nat (remaining - 1)) text
             in if remaining' < 1 then Inr out' else last_counters c n (i + 1) remaining' out')
      else Inr out)"
  by pat_completeness auto
termination
  by (relation "measure (\<lambda>(c, n, i, remaining, out). nat (n - i))") auto

declare last_counters.simps [simp del]

definition get_x_last_counters_str :: "CyclesCounter \<Rightarrow> nat \<Rightarrow> int \<Rightarrow> string res" where
  "get_x_last_counters_str c buf_len num_of_intervals = last_counters c num_of_intervals 0 (int buf_len) []"

section \<open>StatPrinter\<close>

definition MAX_ALL_VALUES :: nat where "MAX_ALL_VALUES = 5000"

record StatPair =
  sp_start_tstamp :: "64 word"
  sp_end_tstamp :: "64 word"
  sp_value :: FixedPt

record StatPrinter =
  spr_cycles_counter :: CyclesCounter
  spr_running_stat :: Stats
  spr_reporting_interval :: int
  spr_all_values_counter :: nat
  spr_active :: bool
  spr_combined_mode :: bool
  spr_longest_indic :: bool
  spr_mt_arr_idx :: nat

text \<open>
  The constructor appends an array to the vector all instances share; \<open>fresh\<close> is the content of the
  new array, whose timestamps are not initialised.
\<close>

definition StatPrinter_ctor :: "(nat \<Rightarrow> StatPair) \<Rightarrow> StatPair list list \<Rightarrow> StatPrinter \<times> StatPair list list" where
  "StatPrinter_ctor fresh svec =
     (let svec' = svec @ [map fresh [0..<MAX_ALL_VALUES]]
      in (\<lparr>spr_cycles_counter = set_reporting_interval CyclesCounter_ctor 1, spr_running_stat = Stats_ctor,
           spr_reporting_interval = 100, spr_all_values_counter = 0, spr_active = True, spr_combined_mode = False,
           spr_longest_indic = False, spr_mt_arr_idx = length svec' - 1\<rparr>, svec'))"

definition spr_configure :: "(int option \<times> bool option \<times> bool option) option \<Rightarrow> StatPrinter \<Rightarrow> int \<times> StatPrinter" where
  "spr_configure args s =
     (case args of None \<Rightarrow> (0, s)
      | Some (ri, cm, ld) \<Rightarrow>
          (0, s\<lparr>spr_reporting_interval := (case ri of None \<Rightarrow> spr_reporting_interval s | Some x \<Rightarrow> x),
                spr_combined_mode := (case cm of None \<Rightarrow> spr_combined_mode s | Some x \<Rightarrow> x),
                spr_longest_indic := (case ld of None \<Rightarrow> spr_longest_indic s | Some x \<Rightarrow> x)\<rparr>))"

definition update_running_stat_new :: "64 word \<Rightarrow> StatPair list list \<Rightarrow> StatPrinter \<Rightarrow> Packet \<Rightarrow>
    (StatPrinter \<times> StatPair list list) res" where
  "update_running_stat_new cycles_now svec s p =
     bnd (get_MsgValue (pdata p)) (\<lambda>m.
     bnd (arr_get svec (spr_mt_arr_idx s)) (\<lambda>the_arr.
       let n = spr_all_values_counter s;
           store = (\<lambda>f s'. if n < MAX_ALL_VALUES - 1
              then bnd (arr_get the_arr n) (\<lambda>pair. bnd (arr_set the_arr n (f pair)) (\<lambda>arr.
                   bnd (arr_set svec (spr_mt_arr_idx s) arr) (\<lambda>svec'.
                     Inr (s'\<lparr>spr_all_values_counter := n + 1\<rparr>, svec'))))
              else Inr (s', svec))
       in if spr_combined_mode s \<and> length svec > 1
          then store (\<lambda>pair. \<lparr>sp_start_tstamp = mv_timestamp m, sp_end_tstamp = cycles_now, sp_value = mv_value m\<rparr>) s
          else store (\<lambda>pair. pair\<lparr>sp_value := mv_value m\<rparr>)
                 (s\<lparr>spr_running_stat := rs_update_counter (spr_running_stat s) (cycles_now - mv_timestamp m)\<rparr>)))"

definition spr_simple_action :: "64 word \<Rightarrow> StatPair list list \<Rightarrow> StatPrinter \<Rightarrow> Packet \<Rightarrow>
    (Packet \<times> StatPrinter \<times> StatPair list list) res" where
  "spr_simple_action cycles_now svec s p =
     (if \<not> spr_active s then Inr (p, s, svec)
      else if get_packet_app_type p = MSG_UPDATE
      then bnd (update_running_stat_new cycles_now svec s p) (\<lambda>(s', svec'). Inr (p, s', svec'))
      else Inr (p, s, svec))"

text \<open>
  The destructor of the first instance in combined mode: for every recorded message, the latest end
  over all arrays, or the mean of the latencies.
\<close>

definition longest_latency :: "StatPair list list \<Rightarrow> nat \<Rightarrow> 64 word res" where
  "longest_latency svec i =
     bnd (arr_get svec 0) (\<lambda>a0. bnd (arr_get a0 i) (\<lambda>p0.
     bnd (iter_res (\<lambda>mx arr. bnd (arr_get arr i) (\<lambda>p. Inr (if mx < sp_end_tstamp p then sp_end_tstamp p else mx))) 0 svec)
       (\<lambda>mx. Inr (mx - sp_start_tstamp p0))))"

definition mean_latency :: "StatPair list list \<Rightarrow> nat \<Rightarrow> 64 word res" where
  "mean_latency svec i =
     bnd (arr_get svec 0) (\<lambda>a0. bnd (arr_get a0 i) (\<lambda>p0.
     bnd (iter_res (\<lambda>tot arr. bnd (arr_get arr i) (\<lambda>p. Inr (tot + (sp_end_tstamp p - sp_start_tstamp p0)))) 0 svec)
       (\<lambda>tot. Inr (word_of_int (uint tot div int (length svec))))))"

definition StatPrinter_dtor :: "StatPair list list \<Rightarrow> StatPrinter \<Rightarrow> StatPrinter res" where
  "StatPrinter_dtor svec s =
     (if spr_combined_mode s \<and> spr_mt_arr_idx s = 0
      then iter_res (\<lambda>s i. bnd (if spr_longest_indic s then longest_latency svec i else mean_latency svec i) (\<lambda>l.
             Inr (s\<lparr>spr_running_stat := rs_update_counter (spr_running_stat s) l\<rparr>))) s [0..<spr_all_values_counter s]
      else Inr s)"

section \<open>Statistics of a run\<close>

definition rs_all :: "Stats \<Rightarrow> 64 word list \<Rightarrow> Stats" where
  "rs_all s vs = foldl rs_update_counter s vs"

lemma rs_all_started:
  assumes "st_lowest s \<noteq> 0" and "0 \<notin> set vs"
  shows "st_lowest (rs_all s vs) = Min (insert (st_lowest s) (set vs))"
  using assms
proof (induction vs arbitrary: s)
  case (Cons v vs)
  let ?s = "rs_update_counter s v"
  have l: "st_lowest ?s = min (st_lowest s) v" using Cons.prems by (auto simp: rs_update_counter_def min_def)
  then have "st_lowest (rs_all ?s vs) = Min (insert (min (st_lowest s) v) (set vs))"
    using Cons.IH [of ?s] Cons.prems by (simp add: min_def)
  also have "\<dots> = Min (insert (st_lowest s) (insert v (set vs)))"
    by (cases "set vs = {}") (simp_all add: min.assoc)
  finally show ?case by (simp add: rs_all_def)
qed (simp add: rs_all_def)

lemma rs_all_sums:
  "st_N (rs_all s vs) = st_N s + of_nat (length vs) \<and>
   st_aggregate_cycles (rs_all s vs) = st_aggregate_cycles s + sum_list vs \<and>
   st_s1 (rs_all s vs) = st_s1 s + sum_list vs \<and>
   st_s2 (rs_all s vs) = st_s2 s + sum_list (map (\<lambda>v. v * v) vs) \<and>
   st_highest (rs_all s vs) = Max (insert (st_highest s) (set vs))"
proof (induction vs arbitrary: s)
  case (Cons v vs)
  have h: "st_highest (rs_update_counter s v) = max (st_highest s) v"
    by (auto simp: rs_update_counter_def max_def)
  have m: "Max (insert (max (st_highest s) v) (set vs)) = Max (insert (st_highest s) (insert v (set vs)))"
    by (cases "set vs = {}") (simp_all add: max.assoc)
  show ?case
    using Cons.IH [of "rs_update_counter s v"] by (simp add: rs_all_def h m) (simp add: rs_update_counter_def add_ac)
qed (simp add: rs_all_def)

text \<open>
  The running statistics of a series of non-zero latencies are right: the count, the sum
  and the sum of squares modulo the width of their fields, the largest and the smallest value.
\<close>

theorem running_stat_summarises:
  assumes "vs \<noteq> []" and "0 \<notin> set vs"
  shows "st_N (rs_all Stats_ctor vs) = of_nat (length vs) \<and> st_aggregate_cycles (rs_all Stats_ctor vs) = sum_list vs \<and>
    st_s2 (rs_all Stats_ctor vs) = sum_list (map (\<lambda>v. v * v) vs) \<and>
    st_highest (rs_all Stats_ctor vs) = Max (set vs) \<and> st_lowest (rs_all Stats_ctor vs) = Min (set vs)"
proof -
  obtain v ws where vs: "vs = v # ws" using assms(1) by (cases vs) auto
  have "st_lowest (rs_all Stats_ctor vs) = st_lowest (rs_all (rs_update_counter Stats_ctor v) ws)"
    by (simp add: rs_all_def vs)
  also have "\<dots> = Min (set vs)"
    using assms(2) vs by (subst rs_all_started) (simp_all add: rs_update_counter_def Stats_ctor_def)
  finally have "st_lowest (rs_all Stats_ctor vs) = Min (set vs)" .
  moreover have "Max (insert 0 (set vs)) = Max (set vs)"
    using assms(1) by (simp add: max_absorb2)
  ultimately show ?thesis
    using rs_all_sums [of Stats_ctor vs] by (simp add: Stats_ctor_def)
qed

theorem running_stat_summarises_witness:
  "let s = rs_all Stats_ctor [4, 9, 2] in st_N s = 3 \<and> st_aggregate_cycles s = 15 \<and> st_s2 s = 101 \<and>
     st_highest s = 9 \<and> st_lowest s = 2"
  using running_stat_summarises [of "[4, 9, 2]"] by (simp add: Let_def)

text \<open>
  A latency of zero is forgotten: the smallest value zero marks the start of a series, so
  the next value replaces it.
\<close>

theorem zero_latency_is_forgotten:
  "st_lowest (rs_all s (vs @ [0])) = 0 \<and> st_lowest (rs_all s (vs @ [0, v])) = v"
  by (auto simp: rs_all_def rs_update_counter_def word_neq_0_conv)

section \<open>Buffers are respected\<close>

lemma last_counters_fits:
  assumes "length (cc_prev_counters c) = MAX_PREV_COUNTERS" and "1 \<le> remaining"
    and "int (length out) + remaining \<le> int buf_len"
  shows "\<exists>t. last_counters c n i remaining out = Inr t \<and> length t < buf_len"
  using assms
proof (induction c n i remaining out rule: last_counters.induct)
  case (1 c n i remaining out)
  let ?k = "unat (cc_num_prev_counters c - word_of_int i - 1) mod MAX_PREV_COUNTERS"
  let ?text = "show_dec (unat (cc_prev_counters c ! ?k)) @ '',''"
  let ?out = "out @ take (nat (remaining - 1)) ?text" and ?rem = "remaining - int (length ?text)"
  show ?case
  proof (cases "i < n \<and> sint (cc_num_prev_counters c) - i - 1 \<ge> 0")
    case True
    have g: "arr_get (cc_prev_counters c) ?k = Inr (cc_prev_counters c ! ?k)"
      using "1.prems"(1) by (simp add: MAX_PREV_COUNTERS_def)
    have step: "last_counters c n i remaining out = (if ?rem < 1 then Inr ?out else last_counters c n (i + 1) ?rem ?out)"
      using True g by (simp add: last_counters.simps [of c n i] Let_def)
    show ?thesis
    proof (cases "?rem < 1")
      case True
      with step "1.prems"(2,3) show ?thesis by auto
    next
      case False
      then have "int (length ?out) + ?rem \<le> int buf_len" using "1.prems"(2,3) by simp
      with "1.IH" [OF True g refl refl refl] False "1.prems"(1) step show ?thesis by simp
    qed
  next
    case False
    then have "last_counters c n i remaining out = Inr out"
      by (subst last_counters.simps) auto
    with "1.prems"(2,3) show ?thesis by auto
  qed
qed

text \<open>
  Printing the last counters stays inside the buffer: for a buffer of at least one byte
  and any number of counters asked for, the array of counters is read inside its bounds and the
  text, with its terminating NUL, fits.
\<close>

theorem counters_text_fits:
  assumes "length (cc_prev_counters c) = MAX_PREV_COUNTERS" and "0 < buf_len"
  shows "\<exists>t. get_x_last_counters_str c buf_len n = Inr t \<and> length t < buf_len"
  unfolding get_x_last_counters_str_def using assms by (intro last_counters_fits) simp_all

theorem counters_text_fits_witness:
  "\<exists>t. get_x_last_counters_str CyclesCounter_ctor 200 10 = Inr t \<and> length t < 200"
  using counters_text_fits [of CyclesCounter_ctor 200 10] by (simp add: CyclesCounter_ctor_def)

text \<open>The state every sequence of messages keeps: all arrays of full length, the counter below it.\<close>

definition spr_inv :: "StatPrinter \<times> StatPair list list \<Rightarrow> bool" where
  "spr_inv x \<longleftrightarrow> spr_mt_arr_idx (fst x) < length (snd x) \<and> spr_all_values_counter (fst x) < MAX_ALL_VALUES \<and>
     (\<forall>arr\<in>set (snd x). length arr = MAX_ALL_VALUES)"

definition spr_step :: "StatPrinter \<times> StatPair list list \<Rightarrow> 64 word \<times> Packet \<Rightarrow> (Packet \<times> StatPrinter \<times> StatPair list list) res" where
  "spr_step x y = spr_simple_action (fst y) (snd x) (fst x) (snd y)"

lemma spr_step_inv:
  assumes "spr_inv x" and "24 \<le> length (pdata (snd y))"
  shows "\<exists>x'. spr_step x y = Inr (snd y, x') \<and> spr_inv x'"
proof -
  obtain s svec now p where xy: "x = (s, svec)" "y = (now, p)" by (cases x, cases y)
  obtain m where m: "get_MsgValue (pdata p) = Inr m" using get_MsgValue_long assms(2) xy by auto
  let ?n = "spr_all_values_counter s"
  have inv: "spr_mt_arr_idx s < length svec" "?n < MAX_ALL_VALUES" "\<And>arr. arr \<in> set svec \<Longrightarrow> length arr = MAX_ALL_VALUES"
    using assms(1) xy by (auto simp: spr_inv_def)
  have "length (svec ! spr_mt_arr_idx s) = MAX_ALL_VALUES" using inv by simp
  with inv m xy show ?thesis
    by (auto simp: spr_step_def spr_simple_action_def update_running_stat_new_def Let_def spr_inv_def
        dest!: set_update_subset_insert [THEN subsetD])
qed

lemma spr_run_inv:
  "spr_inv x \<Longrightarrow> list_all (\<lambda>y. 24 \<le> length (pdata (snd y))) ys \<Longrightarrow>
   \<exists>x'. run_ops spr_step x ys = Inr (map snd ys, x') \<and> spr_inv x'"
proof (induction ys arbitrary: x)
  case (Cons y ys)
  obtain x1 where "spr_step x y = Inr (snd y, x1)" "spr_inv x1"
    using spr_step_inv [OF Cons.prems(1), of y] Cons.prems(2) by auto
  with Cons.IH [of x1] Cons.prems(2) show ?case by auto
qed simp

lemma spr_inv_ctor:
  "\<forall>arr\<in>set svec. length arr = MAX_ALL_VALUES \<Longrightarrow> spr_inv (StatPrinter_ctor fresh svec)"
  by (auto simp: spr_inv_def StatPrinter_ctor_def Let_def MAX_ALL_VALUES_def)

text \<open>
  The statistics printer never leaves its arrays: whatever sequence of packets that are
  long enough for a value message arrives at a new instance, every packet is passed on unchanged, no
  access is out of bounds and the recording stops before the array is full; a packet too short for
  a value message is read out of bounds.
\<close>

theorem stat_printer_is_safe:
  assumes "\<forall>arr\<in>set svec. length arr = MAX_ALL_VALUES"
    and "list_all (\<lambda>y. sizeof_MsgValue \<le> length (pdata (snd y))) ys"
  shows "(\<exists>s svec'. run_ops spr_step (StatPrinter_ctor fresh svec) ys = Inr (map snd ys, s, svec') \<and>
      spr_all_values_counter s < MAX_ALL_VALUES \<and> length svec' = length svec + 1) \<and>
    spr_step (StatPrinter_ctor fresh svec) (now, \<lparr>pdata = [], packet_app_type = MSG_UPDATE\<rparr>) = Inl OutOfBounds"
proof -
  obtain s svec' where r: "run_ops spr_step (StatPrinter_ctor fresh svec) ys = Inr (map snd ys, s, svec')" "spr_inv (s, svec')"
    using spr_run_inv [OF spr_inv_ctor [OF assms(1)], of ys fresh] assms(2) by (auto simp: sizeof_MsgValue_def)
  have len: "length (snd x') = length (snd x)" if "run_ops spr_step x ys = Inr (zs, x')" for x zs x' ys
    using that
  proof (induction ys arbitrary: x zs)
    case (Cons y ys)
    then obtain p x1 zs' where 1: "spr_step x y = Inr (p, x1)" "run_ops spr_step x1 ys = Inr (zs', x')"
      by (auto simp: bnd_eq_Inr)
    then have "length (snd x1) = length (snd x)"
      by (auto simp: spr_step_def spr_simple_action_def update_running_stat_new_def Let_def bnd_eq_Inr arr_set_def
          split: if_splits)
    with Cons.IH [OF 1(2)] show ?case by simp
  qed simp
  have "length (snd (StatPrinter_ctor fresh svec)) = length svec + 1"
    by (simp add: StatPrinter_ctor_def Let_def)
  with len [OF r(1)] r show ?thesis
    by (simp add: spr_inv_def spr_step_def spr_simple_action_def update_running_stat_new_def get_packet_app_type_def
        get_MsgValue_short StatPrinter_ctor_def Let_def)
qed

theorem stat_printer_is_safe_witness:
  "let p = \<lparr>pdata = put_MsgValue MsgValue_ctor, packet_app_type = MSG_UPDATE\<rparr>
   in \<exists>s svec'. run_ops spr_step (StatPrinter_ctor (\<lambda>_. undefined) []) [(5, p), (6, p)] = Inr ([p, p], s, svec') \<and>
      spr_all_values_counter s < MAX_ALL_VALUES \<and> length svec' = 1"
  using stat_printer_is_safe [of "[]" "[(5, \<lparr>pdata = put_MsgValue MsgValue_ctor, packet_app_type = MSG_UPDATE\<rparr>),
      (6, \<lparr>pdata = put_MsgValue MsgValue_ctor, packet_app_type = MSG_UPDATE\<rparr>)]" "\<lambda>_. undefined"]
  by (simp add: Let_def sizeof_MsgValue_def del: run_ops.simps)

end
