(* ===== verification/Hc_Engine.thy ===== *)
theory Hc_Engine
  imports Hc_Indicators Trade_Processor Measurements
begin

text \<open>
  The hand-coded program around its indicators (src/hand_coded): the command line and the symbol list
  of main.cpp, the per-symbol \<open>IndicatorManager\<close>, the message parser of msg_parsing.h, and the two
  callbacks that drive everything, \<open>udp_read_cb\<close> for a datagram and \<open>on_timer_cb\<close> for the end of an
  interval. \<open>TimeStats\<close> and \<open>MsgTrade\<close> are the same structures as in the Click elements. The event loop and
  the socket are outside: a datagram is an argument, and so is the reading of the time-stamp counter.
\<close>

section \<open>Parameters\<close>

record Params =
  pr_is_trix :: bool
  pr_is_dmi :: bool
  pr_is_vortex :: bool
  pr_is_adline :: bool
  pr_indicator_debug :: bool
  pr_symbols :: "byte list list"
  pr_ewma_periods :: int
  pr_interval_len_secs :: int
  pr_port :: int

definition Params_ctor :: Params where
  "Params_ctor = \<lparr>pr_is_trix = False, pr_is_dmi = False, pr_is_vortex = False, pr_is_adline = False,
     pr_indicator_debug = False, pr_symbols = [], pr_ewma_periods = 0, pr_interval_len_secs = 0, pr_port = 0\<rparr>"

text \<open>The successive results of \<open>strtok(str, ",")\<close>: the maximal runs of other characters.\<close>

function strtok_commas :: "byte list \<Rightarrow> byte list list" where
  "strtok_commas cs =
     (let r = dropWhile (\<lambda>c. c = 44) cs
      in if r = [] then [] else takeWhile (\<lambda>c. c \<noteq> 44) r # strtok_commas (dropWhile (\<lambda>c. c \<noteq> 44) r))"
  by pat_completeness auto
termination
proof (relation "measure length")
  fix cs r :: "byte list" assume r: "r = dropWhile (\<lambda>c. c = 44) cs" "r \<noteq> []"
  then have "hd r \<noteq> 44" using hd_dropWhile [of "\<lambda>c. c = 44" cs] by simp
  with r(2) have "length (dropWhile (\<lambda>c. c \<noteq> 44) r) < length r"
    by (cases r) (simp_all add: length_dropWhile_le less_Suc_eq_le)
  also have "\<dots> \<le> length cs" using r(1) by (simp add: length_dropWhile_le)
  finally show "(dropWhile (\<lambda>c. c \<noteq> 44) r, cs) \<in> measure length" by simp
qed simp

declare strtok_commas.simps [simp del]

definition parse_symbol_list :: "byte list \<Rightarrow> byte list list \<Rightarrow> byte list list" where
  "parse_symbol_list in_str symbols = symbols @ strtok_commas (cstr in_str)"

text \<open>
  One round of the \<open>getopt\<close> loop: the option character and its argument. None is the exit on an option
  that is not recognised. The flag is the global \<open>g_debug\<close>.
\<close>

definition parse_option :: "Params \<times> bool \<Rightarrow> byte \<times> byte list \<Rightarrow> (Params \<times> bool) option res" where
  "parse_option st opt =
     (case st of (p, g_debug) \<Rightarrow> case opt of (c, optarg) \<Rightarrow>
        if c = 116 then Inr (Some (p\<lparr>pr_is_trix := True\<rparr>, g_debug))
        else if c = 100 then Inr (Some (p\<lparr>pr_is_dmi := True\<rparr>, g_debug))
        else if c = 118 then Inr (Some (p\<lparr>pr_is_vortex := True\<rparr>, g_debug))
        else if c = 97 then Inr (Some (p\<lparr>pr_is_adline := True\<rparr>, g_debug))
        else if c = 115 then Inr (Some (p\<lparr>pr_symbols := parse_symbol_list optarg (pr_symbols p)\<rparr>, g_debug))
        else if c = 110 then bnd (atoi optarg) (\<lambda>n. Inr (Some (p\<lparr>pr_ewma_periods := n\<rparr>, g_debug)))
        else if c = 105 then bnd (atoi optarg) (\<lambda>n. Inr (Some (p\<lparr>pr_interval_len_secs := n\<rparr>, g_debug)))
        else if c = 112 then bnd (atoi optarg) (\<lambda>n. Inr (Some (p\<lparr>pr_port := n\<rparr>, g_debug)))
        else if c = 101 then Inr (Some (p, True))
        else if c = 119 then Inr (Some (p\<lparr>pr_indicator_debug := True\<rparr>, g_debug))
        else if c = 63 then Inr None
        else Inr (Some (p, g_debug)))"

text \<open>\<open>parse_cmds\<close>: \<open>opts\<close> is what \<open>getopt\<close> delivers; None is an exit of the program.\<close>

definition parse_cmds :: "nat \<Rightarrow> (byte \<times> byte list) list \<Rightarrow> Params \<Rightarrow> (Params \<times> bool) option res" where
  "parse_cmds argc opts p =
     (if argc < 2 then Inr None
      else iter_res (\<lambda>st opt. case st of None \<Rightarrow> Inr None | Some s \<Rightarrow> parse_option s opt) (Some (p, False)) opts)"

section \<open>IndicatorManager\<close>

definition s_all_values_size :: nat where "s_all_values_size = 5000 * 2"

record IndicatorManager =
  im_trix :: "HcTrix option"
  im_dmi :: "HcDmi option"
  im_vortex :: "HcVortex option"
  im_ad_line_tick :: "ADLineTick option"
  im_running_stats :: Stats
  im_all_values :: "FixedPt list"
  im_all_values_counter :: nat
  im_symbol :: symbol
  im_initialized :: bool

definition configure_indicators :: "Params \<Rightarrow> IndicatorManager \<Rightarrow> IndicatorManager res" where
  "configure_indicators pars im =
     bnd (if pr_is_trix pars then bnd (HcTrix_ctor (pr_ewma_periods pars)) (\<lambda>t. Inr (im\<lparr>im_trix := Some t\<rparr>)) else Inr im) (\<lambda>im1.
     bnd (if pr_is_dmi pars then bnd (HcDmi_ctor (pr_ewma_periods pars)) (\<lambda>d. Inr (im1\<lparr>im_dmi := Some d\<rparr>)) else Inr im1) (\<lambda>im2.
     let im3 = (if pr_is_vortex pars then im2\<lparr>im_vortex := Some (HcVortex_ctor (word_of_int (pr_ewma_periods pars)))\<rparr> else im2);
         im4 = (if pr_is_adline pars then im3\<lparr>im_ad_line_tick := Some (ADLineTick_ctor (im_symbol im3))\<rparr> else im3)
     in Inr im4))"

definition IndicatorManager_ctor :: "Params \<Rightarrow> symbol \<Rightarrow> IndicatorManager res" where
  "IndicatorManager_ctor pars symbol_buffer =
     configure_indicators pars
       \<lparr>im_trix = None, im_dmi = None, im_vortex = None, im_ad_line_tick = None, im_running_stats = Stats_ctor,
        im_all_values = replicate s_all_values_size FixedPt_ctor, im_all_values_counter = 0,
        im_symbol = symbol_buffer, im_initialized = False\<rparr>"

definition initialize_indicators :: "IndicatorManager \<Rightarrow> FixedPt \<Rightarrow> FixedPt \<Rightarrow> FixedPt \<Rightarrow> FixedPt \<Rightarrow> IndicatorManager" where
  "initialize_indicators im high low open close =
     im\<lparr>im_trix := map_option (\<lambda>t. trix_initialize t close) (im_trix im),
        im_dmi := map_option (\<lambda>d. dmi_initialize d close high low) (im_dmi im),
        im_vortex := map_option (\<lambda>v. vortex_initialize v close high low) (im_vortex im),
        im_ad_line_tick := map_option (\<lambda>t. adline_initialize t close) (im_ad_line_tick im),
        im_initialized := True\<rparr>"

text \<open>
  Calling an indicator through its pointer, in the order of \<open>emit_add\<close> and \<open>emit_update\<close>. The advance/decline
  line is a singleton that all managers share.
\<close>

definition run_trix :: "IndicatorManager \<Rightarrow> FixedPt \<Rightarrow> UpdateType \<Rightarrow> (FixedPt option \<times> IndicatorManager) res" where
  "run_trix im close ut =
     (case im_trix im of None \<Rightarrow> Inr (None, im)
      | Some t \<Rightarrow> bnd (trix_calculate_value t close ut) (\<lambda>(r, t'). Inr (Some r, im\<lparr>im_trix := Some t'\<rparr>)))"

definition run_dmi :: "IndicatorManager \<Rightarrow> FixedPt \<Rightarrow> FixedPt \<Rightarrow> FixedPt \<Rightarrow> UpdateType \<Rightarrow>
    (FixedPt option \<times> IndicatorManager) res" where
  "run_dmi im close high low ut =
     (case im_dmi im of None \<Rightarrow> Inr (None, im)
      | Some d \<Rightarrow> bnd (dmi_calculate_value d close high low ut) (\<lambda>(r, d'). Inr (Some r, im\<lparr>im_dmi := Some d'\<rparr>)))"

definition run_vortex :: "IndicatorManager \<Rightarrow> FixedPt \<Rightarrow> FixedPt \<Rightarrow> FixedPt \<Rightarrow> UpdateType \<Rightarrow>
    ((FixedPt \<times> FixedPt) option \<times> IndicatorManager) res" where
  "run_vortex im close high low ut =
     (case im_vortex im of None \<Rightarrow> Inr (None, im)
      | Some v \<Rightarrow> bnd (vortex_calculate_value v close high low ut) (\<lambda>(r, v'). Inr (Some r, im\<lparr>im_vortex := Some v'\<rparr>)))"

definition run_adline :: "IndicatorManager \<Rightarrow> ADLine \<Rightarrow> FixedPt \<Rightarrow> UpdateType \<Rightarrow>
    (FixedPt option \<times> IndicatorManager \<times> ADLine) res" where
  "run_adline im a close ut =
     (case im_ad_line_tick im of None \<Rightarrow> Inr (None, im, a)
      | Some t \<Rightarrow> bnd (adtick_calculate_value t a close ut) (\<lambda>(r, t', a').
          Inr (Some r, im\<lparr>im_ad_line_tick := Some t'\<rparr>, a')))"

definition emit_add :: "IndicatorManager \<Rightarrow> ADLine \<Rightarrow> FixedPt \<Rightarrow> FixedPt \<Rightarrow> FixedPt \<Rightarrow> FixedPt \<Rightarrow>
    (IndicatorManager \<times> ADLine) res" where
  "emit_add im a high low open close =
     bnd (run_trix im close ADD) (\<lambda>(_, im1).
     bnd (run_dmi im1 close high low ADD) (\<lambda>(_, im2).
     bnd (run_vortex im2 close high low ADD) (\<lambda>(_, im3).
     bnd (run_adline im3 a close ADD) (\<lambda>(_, im4, a'). Inr (im4, a')))))"

text \<open>Writing \<open>_all_values[_all_values_counter]\<close>, for a result there is.\<close>

definition log_at :: "FixedPt list \<Rightarrow> nat \<Rightarrow> FixedPt option \<Rightarrow> FixedPt list res" where
  "log_at vs i r = (case r of None \<Rightarrow> Inr vs | Some x \<Rightarrow> arr_set vs i x)"

definition log_results :: "IndicatorManager \<Rightarrow> FixedPt option \<Rightarrow> FixedPt option \<Rightarrow> (FixedPt \<times> FixedPt) option \<Rightarrow>
    FixedPt option \<Rightarrow> IndicatorManager res" where
  "log_results im result_trix result_dmi result_vortex result_adline =
     (if im_all_values_counter im < s_all_values_size - 1
      then let n = im_all_values_counter im; n' = (if result_vortex = None then n else n + 1)
           in bnd (log_at (im_all_values im) n result_trix) (\<lambda>v1.
              bnd (log_at v1 n result_dmi) (\<lambda>v2.
              bnd (log_at v2 n (map_option fst result_vortex)) (\<lambda>v3.
              bnd (log_at v3 n' (map_option snd result_vortex)) (\<lambda>v4.
              bnd (log_at v4 n' result_adline) (\<lambda>v5.
                Inr (im\<lparr>im_all_values := v5, im_all_values_counter := n' + 1\<rparr>))))))
      else Inr im)"

definition emit_update :: "64 word \<Rightarrow> IndicatorManager \<Rightarrow> ADLine \<Rightarrow> FixedPt \<Rightarrow> FixedPt \<Rightarrow> FixedPt \<Rightarrow> FixedPt \<Rightarrow>
    64 word \<Rightarrow> (IndicatorManager \<times> ADLine) res" where
  "emit_update cycles_now im a high low open close cycles_start =
     bnd (run_trix im close UPDATE) (\<lambda>(result_trix, im1).
     bnd (run_dmi im1 close high low UPDATE) (\<lambda>(result_dmi, im2).
     bnd (run_vortex im2 close high low UPDATE) (\<lambda>(result_vortex, im3).
     bnd (run_adline im3 a close UPDATE) (\<lambda>(result_adline, im4, a').
     bnd (log_results im4 result_trix result_dmi result_vortex result_adline) (\<lambda>im5.
       Inr (im5\<lparr>im_running_stats := rs_update_counter (im_running_stats im5) (cycles_now - cycles_start)\<rparr>, a'))))))"

section \<open>Parsing a datagram\<close>

text \<open>
  \<open>populate_msg_trade\<close> of msg_parsing.h on the receive buffer, of which \<open>packet_len\<close> bytes were received. The
  scan of the text and the parsing of prices are the code of the Click element, and there is no check
  on the length: \<open>md_len\<close> wraps around for less than eight bytes.
\<close>

definition hc_populate_msg_trade :: "MsgTrade \<Rightarrow> byte list \<Rightarrow> nat \<Rightarrow> MsgTrade option res" where
  "hc_populate_msg_trade msg packet packet_len =
     (let tstamp_len = 8;
          md_msg = drop tstamp_len packet;
          md_len = unat (of_nat packet_len - of_nat tstamp_len :: 32 word)
      in bnd (scan_md md_len md_msg 0 0 0 msg) (\<lambda>r. case r of
             None \<Rightarrow> Inr None
           | Some (counter, msg') \<Rightarrow>
               if counter < 1 then Inr None
               else bnd (get64 packet 0) (\<lambda>ts. Inr (Some (msg'\<lparr>mt_src_timestamp := ts\<rparr>)))))"

definition update_hloc :: "MsgTrade \<Rightarrow> TimeStats \<Rightarrow> bool \<times> TimeStats" where
  "update_hloc m t =
     (if \<not> ts_first_time_updated t
      then (True, t\<lparr>ts_high := mt_price m, ts_low := mt_price m, ts_close := mt_price m,
                    ts_size := ts_size t + mt_size m, ts_first_time_updated := True\<rparr>)
      else let rc1 = ts_high t <s mt_price m;
               t1 = (if rc1 then t\<lparr>ts_high := mt_price m\<rparr> else t);
               rc2 = mt_price m <s ts_low t1;
               t2 = (if rc2 then t1\<lparr>ts_low := mt_price m\<rparr> else t1);
               t3 = t2\<lparr>ts_size := ts_size t2 + mt_size m\<rparr>;
               rc3 = (mt_price m \<noteq> ts_close t3);
               t4 = (if rc3 then t3\<lparr>ts_close := mt_price m\<rparr> else t3)
           in (rc1 \<or> rc2 \<or> rc3, t4))"

section \<open>The callbacks\<close>

text \<open>The globals of main.cpp: \<open>gSymbols\<close>, whether \<open>gTimerWatcher\<close> is active, and the advance/decline singleton.\<close>

record Engine =
  gSymbols :: "(symbol \<times> TimeStats \<times> IndicatorManager) list"
  gTimer_active :: bool
  gADLine :: ADLine

definition timer_symbol :: "ADLine \<Rightarrow> symbol \<times> TimeStats \<times> IndicatorManager \<Rightarrow>
    (ADLine \<times> symbol \<times> TimeStats \<times> IndicatorManager) res" where
  "timer_symbol a e =
     (case e of (s, time_stats, ind_mgr) \<Rightarrow>
        bnd (emit_add ind_mgr a (fromC (ts_high time_stats)) (fromC (ts_low time_stats)) (fromInt 0)
               (fromC (ts_close time_stats))) (\<lambda>(ind_mgr', a').
          Inr (a', s, rollover time_stats, ind_mgr')))"

definition on_timer_cb :: "Engine \<Rightarrow> Engine res" where
  "on_timer_cb e =
     bnd (map_acc timer_symbol (gADLine e) (gSymbols e)) (\<lambda>(a, m). Inr (e\<lparr>gSymbols := m, gADLine := a\<rparr>))"

text \<open>
  \<open>recvfrom\<close> on a UDP socket stores the first \<open>BUFLEN\<close> bytes of the datagram in the buffer, drops the rest of it
  and returns the number of bytes stored. The buffer behind them keeps what was there.
\<close>

definition BUFLEN :: nat where
  "BUFLEN = 512"

definition recvfrom :: "byte list \<Rightarrow> byte list \<Rightarrow> byte list \<times> nat" where
  "recvfrom buffer bytes = (let n = min BUFLEN (length bytes) in (take n bytes @ drop n buffer, n))"

text \<open>
  \<open>udp_read_cb\<close>: \<open>stack\<close> is what the uninitialised local buffer holds at first, and \<open>received\<close> the datagram that
  \<open>recvfrom\<close> finds, None if the call fails.
\<close>

definition udp_read_cb :: "64 word \<Rightarrow> Engine \<Rightarrow> byte list \<Rightarrow> byte list option \<Rightarrow> Engine res" where
  "udp_read_cb cycles_now e stack received =
     (case received of
        None \<Rightarrow> Inr e
      | Some bytes \<Rightarrow> (case recvfrom stack bytes of (buffer, bytesReceived) \<Rightarrow>
          bnd (hc_populate_msg_trade MsgTrade_ctor buffer bytesReceived) (\<lambda>r. case r of
            None \<Rightarrow> Inr e
          | Some msg \<Rightarrow> (case umap_find (gSymbols e) (mt_symbol msg) of
              None \<Rightarrow> Inr e
            | Some (time_stats, ind_mgr) \<Rightarrow>
                let e1 = e\<lparr>gTimer_active := True\<rparr>
                in case update_hloc msg time_stats of (changed, ts') \<Rightarrow>
                   let e2 = e1\<lparr>gSymbols := umap_store (gSymbols e1) (mt_symbol msg) (ts', ind_mgr)\<rparr>;
                       close_price = fromC (ts_close ts'); high_price = fromC (ts_high ts'); low_price = fromC (ts_low ts')
                   in if \<not> changed then Inr e2
                      else if \<not> im_initialized ind_mgr
                      then Inr (e2\<lparr>gSymbols := umap_store (gSymbols e2) (mt_symbol msg)
                             (ts', initialize_indicators ind_mgr high_price low_price (fromInt 0) close_price)\<rparr>)
                      else bnd (emit_update cycles_now ind_mgr (gADLine e2) high_price low_price (fromInt 0) close_price
                                  (mt_src_timestamp msg)) (\<lambda>(ind_mgr', a').
                             Inr (e2\<lparr>gSymbols := umap_store (gSymbols e2) (mt_symbol msg) (ts', ind_mgr'), gADLine := a'\<rparr>))))))"

section \<open>Start-up\<close>

text \<open>The loop of \<open>main\<close> over the symbols: \<open>strcpy\<close> into a buffer of \<open>ORDER_SYMBOL_LEN\<close> bytes, then an insertion.\<close>

definition insert_symbol :: "Params \<Rightarrow> (symbol \<times> TimeStats \<times> IndicatorManager) list \<Rightarrow> byte list \<Rightarrow>
    (symbol \<times> TimeStats \<times> IndicatorManager) list res" where
  "insert_symbol pars m str =
     (if length (cstr str) \<ge> ORDER_SYMBOL_LEN then Inl OutOfBounds
      else let symbol_buffer = cstr str @ replicate (ORDER_SYMBOL_LEN - length (cstr str)) 0
           in bnd (IndicatorManager_ctor pars symbol_buffer) (\<lambda>im.
                Inr (umap_insert m symbol_buffer (TimeStats_ctor, im))))"

definition engine_start :: "Params \<Rightarrow> Engine res" where
  "engine_start pars =
     bnd (iter_res (insert_symbol pars) [] (pr_symbols pars)) (\<lambda>m.
       Inr \<lparr>gSymbols = m, gTimer_active = False, gADLine = ADLine_ctor\<rparr>)"

text \<open>The destructor of an \<open>IndicatorManager\<close> prints the values logged, read from the array.\<close>

definition IndicatorManager_dtor :: "IndicatorManager \<Rightarrow> (FixedPt list \<times> Stats) res" where
  "IndicatorManager_dtor im =
     bnd (iter_res (\<lambda>out i. bnd (arr_get (im_all_values im) i) (\<lambda>v. Inr (out @ [v]))) [] [0..<im_all_values_counter im])
       (\<lambda>vs. Inr (vs, get_running_stats (im_running_stats im)))"

end
