(* ===== verification/Hc_Results.thy ===== *)
theory Hc_Results
  imports Hc_Engine Hc_Dmi
begin

text \<open>
  What the hand-coded program guarantees and where it fails: the states its callbacks reach, as an
  inductive relation, and the invariant they keep; its parser and its interval statistics, which are
  those of the Click elements; and the divisions by zero at the end of an interval.
\<close>

section \<open>Reachable states\<close>

text \<open>The event loop calls \<open>udp_read_cb\<close> for a datagram and, once started, \<open>on_timer_cb\<close> for the timer.\<close>

inductive engine_reaches :: "Params \<Rightarrow> Engine \<Rightarrow> bool" for pars :: Params where
  start: "engine_start pars = Inr e \<Longrightarrow> engine_reaches pars e"
| datagram: "engine_reaches pars e \<Longrightarrow> length stack = BUFLEN \<Longrightarrow> udp_read_cb cycles e stack received = Inr e' \<Longrightarrow>
    engine_reaches pars e'"
| timer: "engine_reaches pars e \<Longrightarrow> gTimer_active e \<Longrightarrow> on_timer_cb e = Inr e' \<Longrightarrow> engine_reaches pars e'"

text \<open>The log of values stays within its array.\<close>

definition im_ok :: "symbol \<Rightarrow> IndicatorManager \<Rightarrow> bool" where
  "im_ok s im \<longleftrightarrow> length (im_all_values im) = s_all_values_size \<and> im_all_values_counter im \<le> s_all_values_size \<and>
     im_symbol im = s"

text \<open>
  Every value of the advance/decline line is printed as if it were a string, which only a zero survives: as long as
  the program runs, no symbol has had a tick up or down.
\<close>

definition adl_flat :: "ADLine \<Rightarrow> bool" where
  "adl_flat a \<longleftrightarrow> (\<forall>e\<in>set (al_tick_map a). snd e = FLAT) \<and> al_total_up a = 0 \<and> al_total_down a = 0"

fun entry_ok :: "symbol \<times> TimeStats \<times> IndicatorManager \<Rightarrow> bool" where
  "entry_ok (s, ts, im) \<longleftrightarrow> canonical s \<and> stats_ok ts \<and> im_ok s im"

definition engine_inv :: "Engine \<Rightarrow> bool" where
  "engine_inv e \<longleftrightarrow> list_all entry_ok (gSymbols e) \<and> distinct (map fst (gSymbols e)) \<and> adl_flat (gADLine e)"

lemma log_at_length: "i < length vs \<Longrightarrow> \<exists>vs'. log_at vs i r = Inr vs' \<and> length vs' = length vs"
  by (auto simp: log_at_def split: option.splits)

lemma log_results_ok:
  assumes "im_ok s im"
  shows "\<exists>im'. log_results im rt rd rv ra = Inr im' \<and> im_ok s im'"
proof (cases "im_all_values_counter im < s_all_values_size - 1")
  case True
  let ?n = "im_all_values_counter im" and ?n' = "if rv = None then im_all_values_counter im else im_all_values_counter im + 1"
  have len: "length (im_all_values im) = s_all_values_size" using assms by (simp add: im_ok_def)
  have b: "?n < s_all_values_size" "?n' < s_all_values_size" using True by auto
  obtain v1 where v1: "log_at (im_all_values im) ?n rt = Inr v1" "length v1 = s_all_values_size"
    using log_at_length [of ?n "im_all_values im" rt] b len by auto
  obtain v2 where v2: "log_at v1 ?n rd = Inr v2" "length v2 = s_all_values_size"
    using log_at_length [of ?n v1 rd] b v1(2) by auto
  obtain v3 where v3: "log_at v2 ?n (map_option fst rv) = Inr v3" "length v3 = s_all_values_size"
    using log_at_length [of ?n v2 "map_option fst rv"] b v2(2) by auto
  obtain v4 where v4: "log_at v3 ?n' (map_option snd rv) = Inr v4" "length v4 = s_all_values_size"
    using log_at_length [of ?n' v3 "map_option snd rv"] b v3(2) by auto
  obtain v5 where v5: "log_at v4 ?n' ra = Inr v5" "length v5 = s_all_values_size"
    using log_at_length [of ?n' v4 ra] b v4(2) by auto
  have "log_results im rt rd rv ra = Inr (im\<lparr>im_all_values := v5, im_all_values_counter := ?n' + 1\<rparr>)"
    using True v1(1) v2(1) v3(1) v4(1) v5(1) by (simp add: log_results_def Let_def)
  moreover have "im_ok s (im\<lparr>im_all_values := v5, im_all_values_counter := ?n' + 1\<rparr>)"
    using assms b v5(2) by (simp add: im_ok_def)
  ultimately show ?thesis by blast
next
  case False
  with assms show ?thesis by (simp add: log_results_def)
qed

lemma run_indicators_ok:
  "run_trix im c ut = Inr (r, im') \<Longrightarrow> im_ok s im \<Longrightarrow> im_ok s im'"
  "run_dmi im c h l ut = Inr (r, im') \<Longrightarrow> im_ok s im \<Longrightarrow> im_ok s im'"
  "run_vortex im c h l ut = Inr (rv, im') \<Longrightarrow> im_ok s im \<Longrightarrow> im_ok s im'"
  by (auto simp: run_trix_def run_dmi_def run_vortex_def im_ok_def bnd_eq_Inr split: option.splits)

lemma umap_find_in: "umap_find m k = Some v \<Longrightarrow> v \<in> snd ` set m"
proof (induction m)
  case Nil
  then show ?case by (simp add: umap_find_def)
next
  case (Cons e m)
  then show ?case by (cases "aw_eq (fst e) k") (auto simp: umap_find_def)
qed

lemma adtick_flat:
  assumes "adl_flat a" and "adtick_calculate_value t a c ut = Inr (r, t', a')"
  shows "adl_flat a' \<and> tick_of (fp_minus c (at_prev_close t)) = FLAT"
proof -
  define k where "k = tick_of (fp_minus c (at_prev_close t))"
  obtain rv where rv: "adline_calculate_value a k (at_symbol t) = (rv, a')" "rv = 0"
    using assms(2) by (auto simp: adtick_calculate_value_def k_def Let_def print_int_as_string_def bnd_eq_Inr split: prod.splits if_splits)
  have flat: "umap_find (al_tick_map a) (at_symbol t) = Some v \<Longrightarrow> v = FLAT" for v
    using assms(1) umap_find_in [of "al_tick_map a" "at_symbol t" v] by (auto simp: adl_flat_def)
  have k: "k = FLAT"
    using rv assms(1) flat
    by (cases k) (auto simp: adline_calculate_value_def adl_flat_def Let_def split: option.splits)
  then have "a' = a\<lparr>al_tick_map := umap_insert (al_tick_map a) (at_symbol t) FLAT\<rparr> \<or>
      a' = a\<lparr>al_tick_map := umap_store (al_tick_map a) (at_symbol t) FLAT\<rparr>"
    using rv flat by (auto simp: adline_calculate_value_def Let_def split: option.splits)
  then have "adl_flat a'" using assms(1) by (auto simp: adl_flat_def umap_insert_def umap_store_def split: if_splits)
  with k show ?thesis by (simp add: k_def)
qed

lemma run_adline_ok:
  assumes "run_adline im a c ut = Inr (r, im', a')" and "im_ok s im" and "adl_flat a"
  shows "im_ok s im' \<and> adl_flat a'"
  using assms adtick_flat [OF assms(3)]
  by (cases "im_ad_line_tick im") (auto simp: run_adline_def im_ok_def bnd_eq_Inr)

lemma emit_ok:
  assumes "im_ok s im" and "adl_flat a"
  shows "emit_add im a h l op c = Inr (im', a') \<Longrightarrow> im_ok s im' \<and> adl_flat a'"
    and "emit_update cycles im a h l op c start = Inr (im', a') \<Longrightarrow> im_ok s im' \<and> adl_flat a'"
proof -
  assume "emit_add im a h l op c = Inr (im', a')"
  then show "im_ok s im' \<and> adl_flat a'"
    using assms by (auto simp: emit_add_def bnd_eq_Inr dest: run_indicators_ok dest!: run_adline_ok)
next
  assume "emit_update cycles im a h l op c start = Inr (im', a')"
  then obtain rt im1 rd im2 rv im3 ra im4 im5 where r: "run_trix im c UPDATE = Inr (rt, im1)"
    "run_dmi im1 c h l UPDATE = Inr (rd, im2)" "run_vortex im2 c h l UPDATE = Inr (rv, im3)"
    "run_adline im3 a c UPDATE = Inr (ra, im4, a')" "log_results im4 rt rd rv ra = Inr im5"
    "im' = im5\<lparr>im_running_stats := rs_update_counter (im_running_stats im5) (cycles - start)\<rparr>"
    by (auto simp: emit_update_def bnd_eq_Inr)
  have "im_ok s im3" using r(1-3) assms(1) by (auto dest: run_indicators_ok)
  from run_adline_ok [OF r(4) this assms(2)] log_results_ok [of s im4 rt rd rv ra] r(5,6)
  show "im_ok s im' \<and> adl_flat a'" by (auto simp: im_ok_def)
qed

lemma entries_keys: "list_all entry_ok m \<Longrightarrow> \<forall>e\<in>set m. canonical (fst e)"
  by (auto simp: list_all_iff)

lemma umap_find_entry:
  assumes "list_all entry_ok m" and "canonical k" and "umap_find m k = Some (ts, im)"
  shows "stats_ok ts \<and> im_ok k im"
proof -
  have "map_of m k = Some (ts, im)" using umap_find_map [OF entries_keys [OF assms(1)] assms(2)] assms(3) by simp
  then have "(k, ts, im) \<in> set m" by (rule map_of_SomeD)
  with assms(1) show ?thesis by (auto simp: list_all_iff)
qed

lemma umap_store_entry:
  assumes "list_all entry_ok m" and "canonical k" and "stats_ok ts" and "im_ok k im"
  shows "list_all entry_ok (umap_store m k (ts, im))"
  unfolding list_all_iff
proof
  fix e assume "e \<in> set (umap_store m k (ts, im))"
  then obtain e0 where e0: "e = (if aw_eq (fst e0) k then (fst e0, ts, im) else e0)" "e0 \<in> set m"
    unfolding umap_store_def set_map by (rule imageE)
  moreover have "aw_eq (fst e0) k \<longleftrightarrow> fst e0 = k"
    using entries_keys [OF assms(1)] e0(2) assms(2) by (simp add: aw_eq_canonical)
  ultimately show "entry_ok e"
    using assms by (auto simp: list_all_iff)
qed

lemma update_hloc_update_stats: "update_hloc m t = update_stats t m"
  by (simp add: update_hloc_def update_stats_def Let_def)

lemma hc_populate_canonical:
  assumes "hc_populate_msg_trade MsgTrade_ctor packet n = Inr (Some m)"
  shows "canonical (mt_symbol m)"
proof -
  have z: "mt_symbol MsgTrade_ctor = replicate ORDER_SYMBOL_LEN 0" by (simp add: MsgTrade_ctor_def)
  then have c: "canonical (mt_symbol MsgTrade_ctor)"
    using canonical_padded [of "[]"] by (simp add: ORDER_SYMBOL_LEN_def)
  obtain r where r: "scan_md (unat (of_nat n - 8 :: 32 word)) (drop 8 packet) 0 0 0 MsgTrade_ctor = Inr r"
    using assms by (cases "scan_md (unat (of_nat n - 8 :: 32 word)) (drop 8 packet) 0 0 0 MsgTrade_ctor")
      (simp_all add: hc_populate_msg_trade_def)
  then obtain k m1 where "r = Some (k, m1)" "mt_symbol m = mt_symbol m1"
    using assms by (cases r) (auto simp: hc_populate_msg_trade_def bnd_eq_Inr split: if_splits)
  with scan_md_symbol [OF _ c] r z show ?thesis by simp
qed

lemma initialize_indicators_ok: "im_ok s im \<Longrightarrow> im_ok s (initialize_indicators im h l op c)"
  by (auto simp: im_ok_def initialize_indicators_def adline_initialize_def)

text \<open>Only a trade of a known symbol changes anything.\<close>

lemma udp_read_trade:
  assumes "e' \<noteq> e" and "udp_read_cb cycles e stack received = Inr e'"
  obtains bytes buffer n msg ts im where "received = Some bytes" and "recvfrom stack bytes = (buffer, n)"
    and "hc_populate_msg_trade MsgTrade_ctor buffer n = Inr (Some msg)"
    and "umap_find (gSymbols e) (mt_symbol msg) = Some (ts, im)"
proof -
  obtain bytes where bytes: "received = Some bytes"
    using assms by (cases received) (auto simp: udp_read_cb_def)
  obtain buffer n where "recvfrom stack bytes = (buffer, n)" by (cases "recvfrom stack bytes")
  note rcv = bytes this
  then obtain r where r: "hc_populate_msg_trade MsgTrade_ctor buffer n = Inr r"
    using assms(2) by (cases "hc_populate_msg_trade MsgTrade_ctor buffer n") (auto simp: udp_read_cb_def)
  then obtain msg where msg: "r = Some msg"
    using assms rcv by (cases r) (auto simp: udp_read_cb_def)
  then obtain ts im where "umap_find (gSymbols e) (mt_symbol msg) = Some (ts, im)"
    using assms rcv r by (cases "umap_find (gSymbols e) (mt_symbol msg)") (auto simp: udp_read_cb_def)
  with rcv r msg show thesis by (intro that) simp_all
qed

lemma udp_read_cb_inv:
  assumes "engine_inv e" and "udp_read_cb cycles e stack received = Inr e'"
  shows "engine_inv e'"
proof (cases "e' = e")
  case False
  have inv: "list_all entry_ok (gSymbols e)" "distinct (map fst (gSymbols e))" "adl_flat (gADLine e)"
    using assms(1) by (simp_all add: engine_inv_def)
  from False assms(2) obtain bytes buffer n msg ts im where
    p: "received = Some bytes" "hc_populate_msg_trade MsgTrade_ctor buffer n = Inr (Some msg)"
      "umap_find (gSymbols e) (mt_symbol msg) = Some (ts, im)" "recvfrom stack bytes = (buffer, n)"
    by (rule udp_read_trade)
  let ?s = "mt_symbol msg"
  have can: "canonical ?s" using p(2) by (rule hc_populate_canonical)
  have ok: "stats_ok ts" "im_ok ?s im" using umap_find_entry [OF inv(1) can p(3)] by simp_all
  obtain changed ts' where u: "update_hloc msg ts = (changed, ts')" by (cases "update_hloc msg ts")
  then have ts': "stats_ok ts'"
    using stats_ok_update [OF ok(1), of msg] by (simp add: update_hloc_update_stats)
  note store = umap_store_entry [OF _ can ts']
  show ?thesis
    using assms(2) p u inv ok emit_ok [OF ok(2) inv(3)]
    by (auto simp: udp_read_cb_def Let_def bnd_eq_Inr engine_inv_def umap_store_keys
        intro!: store initialize_indicators_ok split: if_splits)
qed (use assms in simp)

lemma timer_symbol_eq:
  "timer_symbol a (s, ts, im) =
     bnd (emit_add im a (fromC (ts_high ts)) (fromC (ts_low ts)) (fromInt 0) (fromC (ts_close ts)))
       (\<lambda>(im', a'). Inr (a', s, rollover ts, im'))"
  by (simp add: timer_symbol_def)

lemma map_acc_timer:
  "map_acc timer_symbol a m = Inr (a', m') \<Longrightarrow> list_all entry_ok m \<Longrightarrow> adl_flat a \<Longrightarrow>
   list_all entry_ok m' \<and> map fst m' = map fst m \<and> adl_flat a'"
proof (induction m arbitrary: a m')
  case (Cons e m)
  obtain s ts im where e: "e = (s, ts, im)" by (cases e)
  from Cons.prems(1) obtain im1 a1 m1 where st: "emit_add im a (fromC (ts_high ts)) (fromC (ts_low ts)) (fromInt 0)
      (fromC (ts_close ts)) = Inr (im1, a1)" "map_acc timer_symbol a1 m = Inr (a', m1)" "m' = (s, rollover ts, im1) # m1"
    by (auto simp: e timer_symbol_eq bnd_eq_Inr)
  have ok: "canonical s" "stats_ok ts" "im_ok s im" "list_all entry_ok m"
    using Cons.prems(2) by (simp_all add: e)
  have "im_ok s im1 \<and> adl_flat a1" using emit_ok(1) [OF ok(3) Cons.prems(3) st(1)] .
  with Cons.IH [OF st(2) ok(4)] ok st(3) show ?case by (simp add: e stats_ok_rollover)
qed simp

lemma on_timer_cb_inv: "engine_inv e \<Longrightarrow> on_timer_cb e = Inr e' \<Longrightarrow> engine_inv e'"
  by (auto simp: on_timer_cb_def engine_inv_def bnd_eq_Inr dest!: map_acc_timer)

lemma IndicatorManager_ctor_ok: "IndicatorManager_ctor pars s = Inr im \<Longrightarrow> im_ok s im"
  by (auto simp: IndicatorManager_ctor_def configure_indicators_def im_ok_def bnd_eq_Inr Let_def
      ADLineTick_ctor_def split: if_splits)

lemma umap_insert_keys: "distinct (map fst m) \<Longrightarrow> \<forall>e\<in>set m. canonical (fst e) \<Longrightarrow> canonical k \<Longrightarrow>
   distinct (map fst (umap_insert m k v))"
  using symbol_key.chain_pos_None [of m k] by (auto simp: umap_insert_def map_of_eq_None_iff)

lemma insert_symbols_ok:
  "iter_res (insert_symbol pars) m strs = Inr m' \<Longrightarrow> list_all entry_ok m \<Longrightarrow> distinct (map fst m) \<Longrightarrow>
   list_all entry_ok m' \<and> distinct (map fst m')"
proof (induction strs arbitrary: m)
  case (Cons str strs)
  let ?s = "cstr str @ replicate (ORDER_SYMBOL_LEN - length (cstr str)) 0"
  from Cons.prems(1) obtain im where st: "length (cstr str) < ORDER_SYMBOL_LEN" "IndicatorManager_ctor pars ?s = Inr im"
    "iter_res (insert_symbol pars) (umap_insert m ?s (TimeStats_ctor, im)) strs = Inr m'"
    by (auto simp: insert_symbol_def [of pars m str] Let_def bnd_eq_Inr split: if_splits)
  have can: "canonical ?s" using st(1) set_cstr [of _ str] by (intro canonical_padded) auto
  have "list_all entry_ok (umap_insert m ?s (TimeStats_ctor, im))"
    using Cons.prems(2) can IndicatorManager_ctor_ok [OF st(2)] stats_ok_ctor
    by (auto simp: umap_insert_def list_all_iff)
  with Cons.IH [OF st(3)] umap_insert_keys [OF Cons.prems(3) entries_keys [OF Cons.prems(2)] can] show ?case by simp
qed simp

lemma engine_start_inv: "engine_start pars = Inr e \<Longrightarrow> engine_inv e"
  using insert_symbols_ok [of pars "[]" "pr_symbols pars"]
  by (auto simp: engine_start_def engine_inv_def bnd_eq_Inr adl_flat_def ADLine_ctor_def)

lemma engine_reaches_inv: "engine_reaches pars e \<Longrightarrow> engine_inv e"
  by (induction rule: engine_reaches.induct) (auto intro: engine_start_inv udp_read_cb_inv on_timer_cb_inv)

section \<open>The same trades as in Click\<close>

text \<open>What lies behind the received bytes does not matter.\<close>

lemma slice_prefix: "to \<le> length md \<Longrightarrow> slice (md @ rest) from to = slice md from to"
  by (simp add: slice_def)

lemma take_field_prefix:
  assumes "start \<le> i" and "i < length md"
  shows "take_field (length md) (md @ rest) i counter start msg = take_field (length md) md i counter start msg"
proof -
  have "strncpy dst (drop start (md @ rest)) (i - start) = strncpy dst (drop start md) (i - start)" for dst
    using assms by (simp add: strncpy_def)
  with assms show ?thesis
    by (simp add: take_field_def slice_prefix cong: if_cong)
qed

lemma scan_md_prefix:
  "start \<le> i \<Longrightarrow> n = length md \<Longrightarrow> scan_md n (md @ rest) i counter start msg = scan_md n md i counter start msg"
proof (induction n md i counter start msg rule: scan_md.induct)
  case (1 n md i counter start msg)
  show ?case
  proof (cases "i < n")
    case True
    then have g: "arr_get (md @ rest) i = Inr (md ! i)" "arr_get md i = Inr (md ! i)"
      using "1.prems" by (simp_all add: nth_append)
    have f: "take_field n (md @ rest) i (counter + 1) start msg = take_field n md i (counter + 1) start msg"
      using "1.prems" True by (simp add: take_field_prefix)
    have eq: "scan_md n xs i counter start msg =
        (if md ! i = 124
         then bnd (take_field n md i (Suc counter) start msg) (\<lambda>r. case r of
                  None \<Rightarrow> Inr None | Some msg' \<Rightarrow> scan_md n xs (Suc i) (Suc counter) (Suc i) msg')
         else scan_md n xs (Suc i) counter start msg)" if "xs = md @ rest \<or> xs = md" for xs
      using that True g f scan_md.simps [of n xs i counter start msg] by (auto simp del: arr_get_in)
    have "scan_md n (md @ rest) (Suc i) (Suc counter) (Suc i) m = scan_md n md (Suc i) (Suc counter) (Suc i) m"
      if "md ! i = 124" "take_field n md i (counter + 1) start msg = Inr (Some m)" for m
      using "1.IH"(1) [OF True g(2) that refl] "1.prems" by simp
    moreover have "scan_md n (md @ rest) (Suc i) counter start msg = scan_md n md (Suc i) counter start msg"
      if "md ! i \<noteq> 124"
      using "1.IH"(2) [OF True g(2) that] "1.prems" by simp
    ultimately show ?thesis
      using eq [of "md @ rest"] eq [of md] by (auto intro!: bnd_cong split: option.splits)
  next
    case False
    then show ?thesis by (simp add: scan_md.simps [of n _ i])
  qed
qed

lemma hc_populate_scanned:
  assumes "length md < 2 ^ 32 - 50"
  shows "hc_populate_msg_trade msg (word_to_le ts @ md @ rest) (8 + length md) =
    bnd (scan_md (length md) md 0 0 0 msg) (\<lambda>r. case r of
      None \<Rightarrow> Inr None
    | Some (counter, msg') \<Rightarrow> Inr (if counter < 1 then None else Some (msg'\<lparr>mt_src_timestamp := ts\<rparr>)))"
proof -
  have "unat (of_nat (8 + length md) - of_nat 8 :: 32 word) = unat (of_nat (length md) :: 32 word)" by simp
  also have "\<dots> = length md" using assms by (simp add: unat_of_nat)
  finally have len: "unat (of_nat (8 + length md) - of_nat 8 :: 32 word) = length md" .
  have "get64 (word_to_le ts @ md @ rest) 0 = Inr ts" "drop 8 (word_to_le ts @ md @ rest) = md @ rest"
    by (simp_all add: get64_def)
  with len scan_md_prefix [of 0 0 "length md" md rest 0 msg] show ?thesis
    unfolding hc_populate_msg_trade_def Let_def
    by (simp add: case_prod_unfold if_distrib cong: option.case_cong if_cong)
qed

text \<open>
  The hand-coded parser and the one in the Click element read the same trades: for the
  same timestamp and text, behind 42 bytes of packet headers for Click and at the start of a receive
  buffer with anything after it for the hand-coded program, both return the same message, reject
  it, or fail alike.
\<close>

theorem parsers_agree:
  assumes "length hdr = s_mac_ip_udp_len" and "length md < 2 ^ 32 - 50"
  shows "hc_populate_msg_trade msg (word_to_le ts @ md @ rest) (8 + length md) =
    populate_msg_trade msg (packet_data hdr ts md)"
  by (simp only: hc_populate_scanned [OF assms(2)] populate_scanned [OF assms])

theorem parsers_agree_witness:
  "hc_populate_msg_trade MsgTrade_ctor (word_to_le 99 @ trade_text [84] [48] [65, 66] [49, 50, 46, 53] [49] @ replicate 7 0)
     (8 + length (trade_text [84] [48] [65, 66] [49, 50, 46, 53] [49])) =
   populate_msg_trade MsgTrade_ctor (packet_data (replicate 42 1) 99 (trade_text [84] [48] [65, 66] [49, 50, 46, 53] [49]))"
  by (rule parsers_agree) (simp_all add: s_mac_ip_udp_len_def trade_text_def)

text \<open>The statistics the engine keeps for a symbol.\<close>

definition engine_stats :: "Engine \<Rightarrow> symbol \<Rightarrow> TimeStats" where
  "engine_stats e s = (case map_of (gSymbols e) s of None \<Rightarrow> TimeStats_ctor | Some v \<Rightarrow> fst v)"

lemma store_same_keys:
  assumes "list_all entry_ok m" and "canonical k" and "umap_find m k = Some v"
  shows "map_of (umap_store m k w) = (map_of m)(k \<mapsto> w)" and "map fst (umap_store m k w) = map fst m"
proof -
  have "map_of m k = Some v" using umap_find_map [OF entries_keys [OF assms(1)] assms(2)] assms(3) by simp
  then show "map_of (umap_store m k w) = (map_of m)(k \<mapsto> w)"
    by (intro umap_store_map [OF entries_keys [OF assms(1)] assms(2)]) (simp only: option.distinct not_False_eq_True)
qed (rule umap_store_keys)

lemma umap_store_twice: "umap_store (umap_store m k v) k w = umap_store m k w"
  by (simp add: umap_store_def)

lemma udp_read_stats:
  assumes inv: "engine_inv e" and run: "udp_read_cb cycles e stack (Some bytes) = Inr e'" and b: "recvfrom stack bytes = (buffer, n)"
    and s: "s \<in> fst ` set (gSymbols e)"
  shows "\<exists>r. hc_populate_msg_trade MsgTrade_ctor buffer n = Inr r \<and> fst ` set (gSymbols e') = fst ` set (gSymbols e) \<and>
    engine_stats e' s = stats_after (engine_stats e s) (filter (\<lambda>m. mt_symbol m = s) (case r of None \<Rightarrow> [] | Some m \<Rightarrow> [m]))"
proof -
  have ok: "list_all entry_ok (gSymbols e)" using inv by (simp add: engine_inv_def)
  obtain r where r: "hc_populate_msg_trade MsgTrade_ctor buffer n = Inr r"
    using run by (cases "hc_populate_msg_trade MsgTrade_ctor buffer n") (simp_all add: udp_read_cb_def b)
  show ?thesis
  proof (cases r)
    case None
    with r run b show ?thesis by (simp add: udp_read_cb_def stats_after_def)
  next
    case (Some m)
    have can: "canonical (mt_symbol m)" using r Some by (simp add: hc_populate_canonical)
    show ?thesis
    proof (cases "umap_find (gSymbols e) (mt_symbol m)")
      case none: None
      then have "map_of (gSymbols e) (mt_symbol m) = None"
        using umap_find_map [OF entries_keys [OF ok] can] by simp
      then have "mt_symbol m \<noteq> s" using s by (auto simp: map_of_eq_None_iff)
      with none r Some run b show ?thesis by (simp add: udp_read_cb_def stats_after_def)
    next
      case found: (Some v)
      obtain ts im where v: "v = (ts, im)" by (cases v)
      obtain changed ts' where u: "update_stats ts m = (changed, ts')" by (cases "update_stats ts m")
      have "\<exists>im'. gSymbols e' = umap_store (gSymbols e) (mt_symbol m) (ts', im')"
        using run b r Some found v u
        by (auto simp: udp_read_cb_def Let_def bnd_eq_Inr update_hloc_update_stats umap_store_twice split: if_splits)
      then obtain im' where e': "gSymbols e' = umap_store (gSymbols e) (mt_symbol m) (ts', im')" ..
      note k = store_same_keys [OF ok can found, of "(ts', im')"]
      have "map_of (gSymbols e) (mt_symbol m) = Some (ts, im)"
        using umap_find_map [OF entries_keys [OF ok] can] found v by simp
      then have "engine_stats e' s = (if mt_symbol m = s then ts' else engine_stats e s)"
        "mt_symbol m = s \<Longrightarrow> engine_stats e s = ts"
        using k(1) by (auto simp: engine_stats_def e')
      moreover have "fst ` set (gSymbols e') = fst ` set (gSymbols e)"
        using arg_cong [OF k(2), of set] by (simp add: e')
      ultimately show ?thesis
        using r Some u by (auto simp: stats_after_def)
    qed
  qed
qed

text \<open>
  A datagram on the wire: the Ethernet, IP and UDP headers, the timestamp and the text, as Click sees
  it; the hand-coded program gets the timestamp and the text in its receive buffer, a local array that is not
  cleared. Its 512 bytes hold a timestamp and 504 bytes of text.
\<close>

record datagram =
  dg_hdr :: "byte list"
  dg_ts :: "64 word"
  dg_text :: "byte list"
  dg_stack :: "byte list"

definition datagram_ok :: "datagram \<Rightarrow> bool" where
  "datagram_ok d \<longleftrightarrow> length (dg_hdr d) = s_mac_ip_udp_len \<and> length (dg_stack d) = BUFLEN \<and> 8 + length (dg_text d) \<le> BUFLEN"

definition click_packet :: "datagram \<Rightarrow> Packet" where
  "click_packet d = \<lparr>pdata = packet_data (dg_hdr d) (dg_ts d) (dg_text d), packet_app_type = NO_APP_MSG\<rparr>"

definition receive :: "64 word \<Rightarrow> Engine \<Rightarrow> datagram \<Rightarrow> Engine res" where
  "receive cycles e d =
     udp_read_cb cycles e (dg_stack d) (Some (word_to_le (dg_ts d) @ dg_text d))"

lemma received:
  assumes "datagram_ok d"
  shows "recvfrom (dg_stack d) (word_to_le (dg_ts d) @ dg_text d) =
    (word_to_le (dg_ts d) @ dg_text d @ drop (8 + length (dg_text d)) (dg_stack d), 8 + length (dg_text d))"
  using assms by (simp add: recvfrom_def datagram_ok_def Let_def)

lemma trade_of_received:
  assumes "datagram_ok d"
  shows "hc_populate_msg_trade MsgTrade_ctor (word_to_le (dg_ts d) @ dg_text d @ rest) (8 + length (dg_text d)) =
    populate_msg_trade MsgTrade_ctor (pdata (click_packet d))"
  using hc_populate_scanned [of "dg_text d" MsgTrade_ctor "dg_ts d" rest]
    populate_scanned [of "dg_hdr d" "dg_text d" MsgTrade_ctor "dg_ts d"] assms
  by (simp add: click_packet_def datagram_ok_def BUFLEN_def)

lemma receive_stats:
  assumes "engine_inv e" and "receive cycles e d = Inr e'" and "s \<in> fst ` set (gSymbols e)" and "datagram_ok d"
  shows "parses (click_packet d) \<and> fst ` set (gSymbols e') = fst ` set (gSymbols e) \<and> engine_inv e' \<and>
    engine_stats e' s = stats_after (engine_stats e s) (trades_of s [click_packet d])"
proof -
  let ?b = "word_to_le (dg_ts d) @ dg_text d @ drop (8 + length (dg_text d)) (dg_stack d)"
  obtain r where r: "hc_populate_msg_trade MsgTrade_ctor ?b (8 + length (dg_text d)) = Inr r"
    "fst ` set (gSymbols e') = fst ` set (gSymbols e)"
    "engine_stats e' s = stats_after (engine_stats e s) (filter (\<lambda>m. mt_symbol m = s) (case r of None \<Rightarrow> [] | Some m \<Rightarrow> [m]))"
    using udp_read_stats [OF assms(1) assms(2) [unfolded receive_def] received [OF assms(4)] assms(3)] by blast
  then have "populate_msg_trade MsgTrade_ctor (pdata (click_packet d)) = Inr r"
    using trade_of_received [OF assms(4)] by simp
  then show ?thesis
    using r udp_read_cb_inv [OF assms(1) assms(2) [unfolded receive_def]]
    by (cases r) (simp_all add: parses_def trades_of_def trade_of_def map_filter_simps)
qed

text \<open>
  Property C10. The hand-coded program and the Click element keep the same statistics: fed the same
  datagrams, each of at most the 512 bytes that the receive buffer of the hand-coded program holds, from states that
  agree on a symbol both know, the TradeProcessor takes every packet the
  hand-coded program gets through, and both end with the same high, low, open, close and size of that symbol.
\<close>

theorem engines_keep_same_statistics:
  assumes "engine_inv e" and "tp_inv tp" and "tp_active tp"
    and "s \<in> fst ` set (gSymbols e)" and "s \<in> dom (hm_abs (tp_subscriptions_map tp))"
    and "engine_stats e s = stats_of tp s" and "list_all datagram_ok ds"
    and "iter_res (receive cycles) e ds = Inr e'"
  shows "\<exists>acts tp'. run_ops tp_push tp (map (\<lambda>d. (0, click_packet d)) ds) = Inr (acts, tp') \<and>
    stats_of tp' s = engine_stats e' s"
  using assms
proof (induction ds arbitrary: e tp)
  case Nil
  then show ?case by simp
next
  case (Cons d ds)
  obtain e1 where e1: "receive cycles e d = Inr e1" "iter_res (receive cycles) e1 ds = Inr e'"
    using Cons.prems(8) by (auto simp: bnd_eq_Inr)
  have ok: "datagram_ok d" "list_all datagram_ok ds" using Cons.prems(7) by simp_all
  note r = receive_stats [OF Cons.prems(1) e1(1) Cons.prems(4) ok(1)]
  obtain a tp1 where tp1: "tp_push tp (0, click_packet d) = Inr (a, tp1)" "tp_inv tp1" "tp_active tp1"
    "tp_subscriptions_map tp1 = tp_subscriptions_map tp"
    "stats_of tp1 s = stats_after (stats_of tp s) (trades_of s [click_packet d])"
    using tp_push_stats [OF Cons.prems(2,3) _ Cons.prems(5), of "click_packet d" 0] r by blast
  have "\<exists>acts tp'. run_ops tp_push tp1 (map (\<lambda>d. (0, click_packet d)) ds) = Inr (acts, tp') \<and>
      stats_of tp' s = engine_stats e' s"
    using Cons.IH [OF _ tp1(2,3) _ _ _ ok(2) e1(2)] r tp1(4,5) Cons.prems(4-6) by simp
  with tp1(1) show ?case by auto
qed

section \<open>Properties of the callbacks\<close>

lemma dtor_reads:
  assumes "n \<le> length vs"
  shows "iter_res (\<lambda>out i. bnd (arr_get vs i) (\<lambda>v. Inr (out @ [v]))) [] [0..<n] = Inr (take n vs)"
  using assms by (induction n) (simp_all add: iter_res_append take_Suc_conv_app_nth)


text \<open>An engine for one symbol without indicators.\<close>

definition bare_manager :: "symbol \<Rightarrow> IndicatorManager" where
  "bare_manager s = \<lparr>im_trix = None, im_dmi = None, im_vortex = None, im_ad_line_tick = None,
     im_running_stats = Stats_ctor, im_all_values = replicate s_all_values_size FixedPt_ctor, im_all_values_counter = 0,
     im_symbol = s, im_initialized = False\<rparr>"

definition bare_engine :: "symbol \<Rightarrow> Engine" where
  "bare_engine s = \<lparr>gSymbols = [(s, TimeStats_ctor, bare_manager s)], gTimer_active = False, gADLine = ADLine_ctor\<rparr>"

lemma bare_engine_start:
  "engine_start (Params_ctor\<lparr>pr_symbols := [[65]]\<rparr>) = Inr (bare_engine (aw_assign_str [65]))"
  by (simp add: engine_start_def insert_symbol_def bare_engine_def bare_manager_def IndicatorManager_ctor_def
      configure_indicators_def Params_ctor_def umap_insert_def aw_assign_str_def cstr_def ORDER_SYMBOL_LEN_def Let_def)

text \<open>A trade of symbol A at a price of two digits, and what it is read as.\<close>

definition quote :: "64 word \<Rightarrow> byte \<Rightarrow> byte \<Rightarrow> datagram" where
  "quote ts a b = \<lparr>dg_hdr = replicate 42 7, dg_ts = ts, dg_text = trade_text [84] [48] [65] [a, b] [49], dg_stack = replicate BUFLEN 9\<rparr>"

definition deal :: "64 word \<Rightarrow> fixedpt \<Rightarrow> MsgTrade" where
  "deal ts price = \<lparr>mt_price = price, mt_size = 1, mt_symbol = aw_assign_str [65], mt_timestamp = 0, mt_src_timestamp = ts\<rparr>"

lemma quote_ok: "datagram_ok (quote ts a b)"
  by (simp add: quote_def datagram_ok_def s_mac_ip_udp_len_def trade_text_def BUFLEN_def)

lemma quote_parsed:
  assumes "is_digit a" and "is_digit b"
  shows "populate_msg_trade MsgTrade_ctor (pdata (click_packet (quote ts a b))) =
    Inr (Some (deal ts (fixedpt_fromint (int (digits_val [a, b])))))"
proof -
  have "parse_price_as_fixedpt [a, b] = Inr (fixedpt_fromint (int (digits_val [a, b])))"
    using parse_price_whole [of "[a, b]"] assms by (simp add: fixedpt_fromint_int)
  moreover have "strtol ([49] @ [0]) = Inr 1"
    using strtol_digits [of "[49]" "[]"] by (simp add: is_digit_def digits_val_def)
  moreover have "plain [a, b]" using assms by (auto simp: plain_def dest: is_digit_props)
  ultimately show ?thesis
    using populate_trade_text [of "replicate 42 7" "[84]" "[48]" "[65]" "[a, b]" "[49]" "fixedpt_fromint (int (digits_val [a, b]))" 1 ts]
    by (simp add: s_mac_ip_udp_len_def trade_text_def plain_def ORDER_SYMBOL_LEN_def aw_assign_str_def cstr_def click_packet_def
        quote_def deal_def)
qed

lemma quote_77_parsed:
  "populate_msg_trade MsgTrade_ctor (pdata (click_packet (quote ts 55 55))) = Inr (Some (deal ts (word_of_int (77 * 2 ^ 40))))"
  using quote_parsed [of 55 55 ts] by (simp add: is_digit_def digits_val_def fixedpt_fromint_int)

text \<open>The first trade starts the indicators.\<close>

lemma first_quote:
  assumes "gSymbols e = [(aw_assign_str [65], TimeStats_ctor, im)]" and "\<not> im_initialized im"
  shows "\<exists>ts'. receive cycles e (quote ts 55 55) = Inr (e\<lparr>gTimer_active := True, gSymbols := [(aw_assign_str [65], ts',
      initialize_indicators im (fromC (ts_high ts')) (fromC (ts_low ts')) (fromInt 0) (fromC (ts_close ts')))]\<rparr>) \<and>
    ts_close ts' = word_of_int (77 * 2 ^ 40)"
proof -
  have "aw_eq (aw_assign_str [65]) (aw_assign_str [65])" by (simp add: aw_eq_def)
  with assms quote_77_parsed [of ts] trade_of_received [OF quote_ok] show ?thesis
    by (intro exI [of _ "snd (update_hloc (deal ts (word_of_int (77 * 2 ^ 40))) TimeStats_ctor)"])
      (simp add: receive_def udp_read_cb_def received [OF quote_ok] umap_find_def umap_store_def deal_def update_hloc_def
        TimeStats_ctor_def Let_def)
qed

text \<open>An engine for one symbol with the advance/decline line, after a trade and the end of an interval.\<close>

lemma flat_tick_reached:
  "\<exists>e. engine_reaches (Params_ctor\<lparr>pr_is_adline := True, pr_symbols := [[65]]\<rparr>) e \<and>
     al_tick_map (gADLine e) = [(aw_assign_str [65], FLAT)] \<and> ts_close (engine_stats e (aw_assign_str [65])) = word_of_int (77 * 2 ^ 40)"
proof -
  let ?s = "aw_assign_str [65]" and ?p = "Params_ctor\<lparr>pr_is_adline := True, pr_symbols := [[65]]\<rparr>"
  let ?im = "(bare_manager ?s)\<lparr>im_ad_line_tick := Some (ADLineTick_ctor ?s)\<rparr>"
  define e0 where "e0 = (bare_engine ?s)\<lparr>gSymbols := [(?s, TimeStats_ctor, ?im)]\<rparr>"
  have "engine_start ?p = Inr e0"
    by (simp add: engine_start_def insert_symbol_def e0_def bare_engine_def bare_manager_def IndicatorManager_ctor_def
        configure_indicators_def Params_ctor_def umap_insert_def aw_assign_str_def cstr_def ORDER_SYMBOL_LEN_def Let_def)
  then have r0: "engine_reaches ?p e0" by (rule engine_reaches.start)
  obtain t e1 where e1: "receive 5 e0 (quote 3 55 55) = Inr e1" "gTimer_active e1" "ts_close t = word_of_int (77 * 2 ^ 40)"
    "gSymbols e1 = [(?s, t, initialize_indicators ?im (fromC (ts_high t)) (fromC (ts_low t)) (fromInt 0) (fromC (ts_close t)))]"
    "gADLine e1 = ADLine_ctor"
    using first_quote [of e0 ?im 5 3] by (auto simp: e0_def bare_engine_def bare_manager_def)
  have len: "length (dg_stack (quote 3 55 55)) = BUFLEN" using quote_ok by (simp add: datagram_ok_def)
  have r1: "engine_reaches ?p e1" by (rule engine_reaches.datagram [OF r0 len e1(1) [unfolded receive_def]])
  have tick: "tick_of (fp_minus x x) = FLAT" for x by (simp add: tick_of_def fp_minus_def fixedpt_sub_def FixedPt_defs)
  obtain e2 where e2: "on_timer_cb e1 = Inr e2" "al_tick_map (gADLine e2) = [(?s, FLAT)]" "engine_stats e2 ?s = rollover t"
    by (simp add: on_timer_cb_def e1 timer_symbol_def emit_add_def initialize_indicators_def run_trix_def run_dmi_def run_vortex_def
        run_adline_def bare_manager_def ADLineTick_ctor_def adline_initialize_def adtick_calculate_value_def Let_def tick
        adline_calculate_value_def ADLine_ctor_def umap_find_def umap_insert_def print_int_as_string_def engine_stats_def)
  have "engine_reaches ?p e2" using r1 e1(2) e2(1) by (rule engine_reaches.timer)
  with e2(2,3) e1(3) show ?thesis by (intro exI [of _ e2]) (simp add: rollover_def)
qed


theorem engines_keep_same_statistics_witness:
  "let s = aw_assign_str [65]; d = quote 99 55 55
   in \<exists>e' tp acts tp'. iter_res (receive 5) (bare_engine s) [d] = Inr e' \<and> ts_close (engine_stats e' s) = word_of_int (77 * 2 ^ 40) \<and>
     run_ops tp_push tp (map (\<lambda>d. (0, click_packet d)) [d]) = Inr (acts, tp') \<and> stats_of tp' s = engine_stats e' s"
proof -
  let ?s = "aw_assign_str [65]" and ?d = "quote 99 55 55"
  obtain e' where e': "iter_res (receive 5) (bare_engine ?s) [?d] = Inr e'" "ts_close (engine_stats e' ?s) = word_of_int (77 * 2 ^ 40)"
    using first_quote [of "bare_engine ?s" "bare_manager ?s" 5 99] by (auto simp: bare_engine_def bare_manager_def engine_stats_def)
  obtain subs :: "(symbol, int) HashMap" where subs: "sym_inv subs" "hm_abs subs = [?s \<mapsto> 0]"
    using singleton_table [of "[65]" "0::int"] by metis
  let ?tp = "(TradeProcessor_ctor 1)\<lparr>tp_subscriptions_map := subs\<rparr>"
  have tp: "tp_inv ?tp" "tp_active ?tp" "stats_of ?tp ?s = TimeStats_ctor"
    using subs tp_inv_ctor [of 1] by (simp_all add: tp_inv_def TradeProcessor_ctor_def stats_of_def)
  have "engine_inv (bare_engine ?s)" using bare_engine_start by (rule engine_start_inv)
  from engines_keep_same_statistics [OF this tp(1,2) _ _ _ _ e'(1)] subs(2) tp(3) quote_ok e' show ?thesis
    unfolding Let_def by (intro exI [of _ e'] exI [of _ ?tp]) (simp add: bare_engine_def engine_stats_def)
qed

section \<open>Divisions by zero\<close>

lemma fp_divide_fault: "fp_divide x y = Inl f \<Longrightarrow> f = DivByZero"
  by (cases "fp_value y = 0") (auto dest: fp_divide_ok [of y x])

lemma fp_minus_self: "fp_minus x x = fromC 0"
  by (simp add: fp_minus_def fixedpt_sub_def)

lemma zero_moves [simp]:
  "fp_lt (fromC 0) (fromC 0) = False" "fp_gt (fromC 0) (fromC 0) = False" "fpt_abs (fromC 0) = fromC 0"
  "hc_max (fromC 0) (fromC 0) = fromC 0" "fromInt 0 = fromC 0"
  by (simp_all add: fp_lt_def fp_gt_def fpt_abs_def getC_def hc_max_def fromInt_def fromC_def fixedpt_fromint_int)

lemma trix_first_zero:
  "HcTrix_ctor n = Inr t \<Longrightarrow> trix_calculate_value t (fromC 0) ut = Inl DivByZero"
  by (auto simp: HcTrix_ctor_def bnd_eq_Inr trix_calculate_value_def calculate_new_value_def set_alfa_def
      EwmaHc_ctor_def get_last_value_def)

text \<open>A bar equal to the previous one has no true range, and there is nothing else to divide by yet.\<close>

lemma dmi_first_flat:
  assumes "HcDmi_ctor n = Inr d"
  shows "dmi_calculate_value (dmi_initialize d p p p) p p p ut = Inl DivByZero"
    and "dmi_calculate_value d (fromC 0) (fromC 0) (fromC 0) ut = Inl DivByZero"
  using assms
  by (auto simp: HcDmi_ctor_def bnd_eq_Inr dmi_calculate_value_def dmi_initialize_def calculate_new_value_def set_alfa_def
      EwmaHc_ctor_def hc_calculate_pdm_def hc_calculate_ndm_def hc_calculate_tr_def fp_minus_self FixedPt_ctor_def
      fp_minus_def fixedpt_sub_def)

lemma vortex_first_flat:
  "vortex_calculate_value (vortex_initialize (HcVortex_ctor n) p p p) p p p ADD = Inl DivByZero"
  "vortex_calculate_value (HcVortex_ctor n) (fromC 0) (fromC 0) (fromC 0) ADD = Inl DivByZero"
  by (simp_all add: vortex_calculate_value_def vortex_initialize_def HcVortex_ctor_def SumRingBuffer_ctor_def
      get_total_sum_def fp_minus_self Let_def) (simp add: fp_minus_def fixedpt_sub_def)

lemma run_trix_cases:
  assumes "run_trix im c ut = r"
  obtains "r = Inl DivByZero" | x im1 where "r = Inr (x, im1)" "im_dmi im1 = im_dmi im" "im_vortex im1 = im_vortex im"
  using assms
  by (cases "im_trix im"; cases r)
    (auto simp: run_trix_def bnd_def trix_calculate_value_def Let_def dest: fp_divide_fault split: sum.splits prod.splits)

lemma configured_indicators:
  assumes "IndicatorManager_ctor pars s = Inr im"
  shows "pr_is_trix pars \<Longrightarrow> \<exists>t. HcTrix_ctor (pr_ewma_periods pars) = Inr t \<and> im_trix im = Some t"
    and "pr_is_dmi pars \<Longrightarrow> \<exists>d. HcDmi_ctor (pr_ewma_periods pars) = Inr d \<and> im_dmi im = Some d"
    and "\<not> pr_is_dmi pars \<Longrightarrow> im_dmi im = None"
    and "pr_is_vortex pars \<Longrightarrow> im_vortex im = Some (HcVortex_ctor (word_of_int (pr_ewma_periods pars)))"
  using assms
  by (auto simp: IndicatorManager_ctor_def configure_indicators_def bnd_eq_Inr Let_def split: if_splits)

lemma flat_emit_add:
  assumes ctor: "IndicatorManager_ctor pars s = Inr im" and "pr_is_dmi pars \<or> pr_is_vortex pars"
  shows "emit_add (initialize_indicators im p p op p) a p p op p = Inl DivByZero"
proof -
  let ?im = "initialize_indicators im p p op p"
  note c = configured_indicators [OF ctor]
  show ?thesis
  proof (rule run_trix_cases [OF refl, of ?im p ADD])
    assume "run_trix ?im p ADD = Inl DivByZero"
    then show ?thesis by (simp add: emit_add_def)
  next
    fix x im1 assume r: "run_trix ?im p ADD = Inr (x, im1)" "im_dmi im1 = im_dmi ?im" "im_vortex im1 = im_vortex ?im"
    show ?thesis
    proof (cases "pr_is_dmi pars")
      case True
      then obtain d where "HcDmi_ctor (pr_ewma_periods pars) = Inr d" "im_dmi im1 = Some (dmi_initialize d p p p)"
        using c(2) r(2) by (auto simp: initialize_indicators_def)
      with r(1) show ?thesis by (simp add: emit_add_def run_dmi_def dmi_first_flat(1))
    next
      case False
      then have "im_dmi im1 = None"
        "im_vortex im1 = Some (vortex_initialize (HcVortex_ctor (word_of_int (pr_ewma_periods pars))) p p p)"
        using c(3,4) r(2,3) assms(2) by (auto simp: initialize_indicators_def)
      with r(1) show ?thesis by (simp add: emit_add_def run_dmi_def run_vortex_def vortex_first_flat(1))
    qed
  qed
qed

lemma idle_emit_add:
  assumes ctor: "IndicatorManager_ctor pars s = Inr im" and "pr_is_trix pars \<or> pr_is_dmi pars \<or> pr_is_vortex pars"
  shows "emit_add im a (fromC 0) (fromC 0) op (fromC 0) = Inl DivByZero"
proof -
  note c = configured_indicators [OF ctor]
  show ?thesis
  proof (rule run_trix_cases [OF refl, of im "fromC 0" ADD])
    assume "run_trix im (fromC 0) ADD = Inl DivByZero"
    then show ?thesis by (simp add: emit_add_def)
  next
    fix x im1 assume r: "run_trix im (fromC 0) ADD = Inr (x, im1)" "im_dmi im1 = im_dmi im" "im_vortex im1 = im_vortex im"
    then have "\<not> pr_is_trix pars" using c(1) by (auto simp: run_trix_def trix_first_zero)
    with r c assms(2) show ?thesis
      by (cases "pr_is_dmi pars") (auto simp: emit_add_def run_dmi_def run_vortex_def dmi_first_flat(2) vortex_first_flat(2))
  qed
qed

lemma map_acc_fault:
  "x \<in> set xs \<Longrightarrow> (\<And>a. \<exists>f. F a x = Inl f) \<Longrightarrow> \<exists>f. map_acc F a xs = Inl f"
proof (induction xs arbitrary: a)
  case (Cons y ys)
  show ?case
  proof (cases "F a y")
    case (Inr r)
    then have "x \<in> set ys" using Cons.prems by (metis Inl_Inr_False set_ConsD)
    with Cons.IH [of "fst r"] Cons.prems(2) Inr show ?thesis by (cases r) auto
  qed simp
qed simp

text \<open>
  Property C36. A quiet symbol ends the program at the timer: if, when the timer fires, a subscribed
  symbol has not traded yet and any of the three price indicators is on, or has traded at a single
  price so far and the directional movement or the vortex indicator is on, the callback divides by
  zero (or has failed before it gets to that symbol).
\<close>

theorem quiet_symbol_stops_engine:
  assumes "IndicatorManager_ctor pars s = Inr im" and "(s, ts, im') \<in> set (gSymbols e)"
    and "ts_high ts = v" and "ts_low ts = v" and "ts_close ts = v"
    and "im' = im \<and> v = 0 \<and> (pr_is_trix pars \<or> pr_is_dmi pars \<or> pr_is_vortex pars) \<or>
      im' = initialize_indicators im (fromC v) (fromC v) (fromInt 0) (fromC v) \<and> (pr_is_dmi pars \<or> pr_is_vortex pars)"
  shows "timer_symbol (gADLine e) (s, ts, im') = Inl DivByZero \<and> (\<exists>f. on_timer_cb e = Inl f)"
proof -
  have "emit_add im' a (fromC v) (fromC v) (fromInt 0) (fromC v) = Inl DivByZero" for a
    using assms(6) idle_emit_add [OF assms(1)] flat_emit_add [OF assms(1)] by auto
  then have t: "timer_symbol a (s, ts, im') = Inl DivByZero" for a
    using assms(3-5) by (simp add: timer_symbol_eq)
  then have "\<exists>f. map_acc timer_symbol (gADLine e) (gSymbols e) = Inl f"
    by (intro map_acc_fault [OF assms(2)]) simp
  with t show ?thesis by (auto simp: on_timer_cb_def)
qed

theorem quiet_symbol_stops_engine_witness:
  "\<exists>im. IndicatorManager_ctor (Params_ctor\<lparr>pr_is_vortex := True, pr_ewma_periods := 13\<rparr>) (aw_assign_str [65]) = Inr im \<and>
     (\<exists>f. on_timer_cb ((bare_engine (aw_assign_str [65]))\<lparr>gSymbols := [(aw_assign_str [65], TimeStats_ctor, im)]\<rparr>) = Inl f)"
proof -
  let ?p = "Params_ctor\<lparr>pr_is_vortex := True, pr_ewma_periods := 13\<rparr>"
  obtain im where im: "IndicatorManager_ctor ?p (aw_assign_str [65]) = Inr im"
    by (simp add: IndicatorManager_ctor_def configure_indicators_def Params_ctor_def)
  with quiet_symbol_stops_engine [OF im, of TimeStats_ctor im
      "(bare_engine (aw_assign_str [65]))\<lparr>gSymbols := [(aw_assign_str [65], TimeStats_ctor, im)]\<rparr>" 0]
  show ?thesis by (auto simp: TimeStats_ctor_def)
qed

end
