(* ===== verification/Whole_Program.thy ===== *)
theory Whole_Program
  imports Graph_Vortex Hc_Results
begin

text \<open>
  The two programs side by side, from the datagram to the value: the Click program, a \<open>TradeProcessor\<close> in front
  of an indicator graph as the configurations of src/indicator_configs connect them, and the hand-coded program of
  src/hand_coded with one symbol and one indicator. Both are driven by the same events, datagrams and ends of
  intervals. Each event makes at most one source message; what the graph does with the source messages and
  what the hand-coded indicator does with their prices is compared in the theories of the graphs.
\<close>

section \<open>Events\<close>

text \<open>
  A datagram, or the timer at the end of an interval; the hand-coded program starts its timer at the first trade of one of its
  symbols. The first component is the reading of the time-stamp counter while the
  event is handled; the byte is what the allocation of the add message left in its packet.
\<close>

datatype event = Trade "64 word" datagram | Timer "64 word" byte

fun event_ok :: "event \<Rightarrow> bool" where
  "event_ok (Trade tsc d) \<longleftrightarrow> datagram_ok d \<and> length (dg_text d) < 198"
| "event_ok (Timer tsc junk) \<longleftrightarrow> True"

fun hc_event :: "Engine \<Rightarrow> event \<Rightarrow> Engine res" where
  "hc_event e (Trade tsc d) = receive tsc e d"
| "hc_event e (Timer tsc junk) = (if gTimer_active e then on_timer_cb e else Inr e)"

text \<open>The packets of output 0 of the \<open>TradeProcessor\<close> enter the graph.\<close>

definition out_packets :: "action list \<Rightarrow> Packet list" where
  "out_packets acts = concat (map (\<lambda>a. case a of KillPkt _ \<Rightarrow> [] | PushOut i p \<Rightarrow> if i = 0 then [p] else []) acts)"

definition click_pass :: "'n wiring \<Rightarrow> 'n \<Rightarrow> 64 word \<Rightarrow> ('n \<Rightarrow> element) \<Rightarrow> (action list \<times> TradeProcessor) res \<Rightarrow>
    (fault + TradeProcessor \<times> ('n \<Rightarrow> element)) option" where
  "click_pass conns entry tsc net r =
     (case r of Inl f \<Rightarrow> Some (Inl f)
      | Inr (acts, tp) \<Rightarrow>
          map_option (map_sum id (Pair tp)) (router_run conns tsc net (map (\<lambda>p. (entry, 0, p)) (out_packets acts))))"

fun click_event :: "'n wiring \<Rightarrow> 'n \<Rightarrow> TradeProcessor \<times> ('n \<Rightarrow> element) \<Rightarrow> event \<Rightarrow>
    (fault + TradeProcessor \<times> ('n \<Rightarrow> element)) option" where
  "click_event conns entry (tp, net) (Trade tsc d) =
     click_pass conns entry tsc net (bnd (tp_push tp (0, click_packet d)) (\<lambda>(a, tp'). Inr ([a], tp')))"
| "click_event conns entry (tp, net) (Timer tsc junk) =
     click_pass conns entry tsc net (run_timer (\<lambda>_. tsc) (\<lambda>_. junk) tp)"

primrec click_run :: "'n wiring \<Rightarrow> 'n \<Rightarrow> TradeProcessor \<times> ('n \<Rightarrow> element) \<Rightarrow> event list \<Rightarrow>
    (fault + TradeProcessor \<times> ('n \<Rightarrow> element)) option" where
  "click_run conns entry st [] = Some (Inr st)"
| "click_run conns entry st (ev # evs) =
     (case click_event conns entry st ev of
        None \<Rightarrow> None | Some (Inl f) \<Rightarrow> Some (Inl f) | Some (Inr st') \<Rightarrow> click_run conns entry st' evs)"

section \<open>The source messages of a symbol\<close>

text \<open>The statistics of the symbol, and whether it has traded.\<close>

type_synonym progress = "TimeStats \<times> bool"

fun source_step :: "symbol \<Rightarrow> progress \<Rightarrow> event \<Rightarrow> source_msg list \<times> progress" where
  "source_step s (t, started) (Trade tsc d) =
     (case trade_of (click_packet d) of
        None \<Rightarrow> ([], t, started)
      | Some m \<Rightarrow>
          if mt_symbol m \<noteq> s then ([], t, started)
          else let t' = snd (update_stats t m)
               in (if fst (update_stats t m)
                   then [\<lparr>sm_type = (if started then MSG_UPDATE_SOURCE else MSG_INIT_SOURCE), sm_tsc = tsc,
                          sm_msg = (source_of t')\<lparr>ms_timestamp := mt_src_timestamp m\<rparr>,
                          sm_rest = drop sizeof_MsgSource (pdata (click_packet d))\<rparr>]
                   else [], t', True))"
| "source_step s (t, started) (Timer tsc junk) =
     (if started
      then ([\<lparr>sm_type = MSG_ADD_SOURCE, sm_tsc = tsc, sm_msg = (source_of t)\<lparr>ms_volume := ts_size t, ms_timestamp := tsc\<rparr>,
              sm_rest = [junk]\<rparr>], rollover t, True)
      else ([], t, False))"

primrec sources :: "symbol \<Rightarrow> progress \<Rightarrow> event list \<Rightarrow> source_msg list" where
  "sources s st [] = []"
| "sources s st (ev # evs) = fst (source_step s st ev) @ sources s (snd (source_step s st ev)) evs"

section \<open>The Click program\<close>

definition tp_at :: "symbol \<Rightarrow> progress \<Rightarrow> TradeProcessor \<Rightarrow> bool" where
  "tp_at s st tp \<longleftrightarrow> tp_inv tp \<and> tp_active tp \<and> tp_noutputs tp = 1 \<and> hm_abs (tp_subscriptions_map tp) = [s \<mapsto> 0] \<and>
     hm_abs (tp_time_stats_map tp) = (if snd st then [s \<mapsto> fst st] else Map.empty) \<and> (snd st \<or> fst st = TimeStats_ctor)"

lemma feed_one: "feed conns entry net [x] = router_run conns (sm_tsc x) net [(entry, 0, source_packet x)]"
  by (simp split: option.split sum.split)

lemma feed_append:
  "feed conns entry net (xs @ ys) = (case feed conns entry net xs of
     None \<Rightarrow> None | Some (Inl f) \<Rightarrow> Some (Inl f) | Some (Inr net') \<Rightarrow> feed conns entry net' ys)"
  by (induction xs arbitrary: net) (auto split: option.splits sum.splits)

lemma put_MsgSource_len: "sizeof_MsgSource \<le> length d \<Longrightarrow> overwrite d (put_MsgSource m) = put_MsgSource m @ drop sizeof_MsgSource d"
  by (simp add: overwrite_def sizeof_MsgSource_def)

lemma click_trade:
  assumes at: "tp_at s st tp" and ok: "event_ok (Trade tsc d)" and par: "parses (click_packet d)"
  shows "\<exists>tp'. click_event conns entry (tp, net) (Trade tsc d) =
      map_option (map_sum id (Pair tp')) (feed conns entry net (fst (source_step s st (Trade tsc d)))) \<and>
    tp_at s (snd (source_step s st (Trade tsc d))) tp'"
proof -
  obtain t started where st: "st = (t, started)" by (cases st)
  have tp: "tp_inv tp" "tp_active tp" "tp_noutputs tp = 1" "hm_abs (tp_subscriptions_map tp) = [s \<mapsto> 0]"
    "hm_abs (tp_time_stats_map tp) = (if started then [s \<mapsto> t] else Map.empty)" "started \<or> t = TimeStats_ctor"
    using at by (simp_all add: tp_at_def st)
  let ?p = "click_packet d"
  obtain r where r: "populate_msg_trade MsgTrade_ctor (pdata ?p) = Inr r"
    using par by (auto simp: parses_def split: sum.splits)
  then have tr: "trade_of ?p = r" by (simp add: trade_of_def)
  show ?thesis
  proof (cases "\<exists>m. r = Some m \<and> mt_symbol m = s")
    case False
    have "\<exists>tp'. tp_push tp (0, ?p) = Inr (discard_packet ?p, tp') \<and> tp_at s st tp'"
    proof (cases r)
      case None
      with r at tp(2) show ?thesis by (simp add: tp_push_def Let_def tp_at_def tp_inv_def)
    next
      case (Some m)
      have can: "canonical (mt_symbol m)" using populate_canonical r Some by simp
      have "findp aw_hashcode aw_eq (tp_subscriptions_map tp) (mt_symbol m) = Inr None"
        using symbol_key.findp_abs [OF _ can, of "tp_subscriptions_map tp"] tp(1,4) False Some by (simp add: tp_inv_def)
      with r Some at tp(2) show ?thesis by (simp add: tp_push_def Let_def tp_at_def tp_inv_def)
    qed
    moreover have "source_step s st (Trade tsc d) = ([], st)"
      using False by (auto simp: st tr split: option.splits)
    ultimately show ?thesis
      by (auto simp: click_pass_def out_packets_def discard_packet_def)
  next
    case True
    then obtain m where m: "r = Some m" "mt_symbol m = s" by blast
    have can: "canonical s" using populate_canonical r m by auto
    have so: "stats_of tp s = t" using tp(5,6) by (auto simp: stats_of_def)
    obtain changed t' where u: "update_stats t m = (changed, t')" by fastforce
    obtain tp' where tp': "tp_push tp (0, ?p) = Inr (if changed then send_update_msg 1 t' (mt_src_timestamp m) 0 ?p
          (hm_abs (tp_time_stats_map tp) s = None) else discard_packet ?p, tp')"
      "tp_inv tp'" "hm_abs (tp_time_stats_map tp') = (hm_abs (tp_time_stats_map tp))(s \<mapsto> t')"
      "tp_subscriptions_map tp' = tp_subscriptions_map tp" "tp_active tp'" "tp_noutputs tp' = 1"
      using tp_push_trade [OF tp(1,2) r [unfolded m(1)] _ _, of 0 changed t' 0] m(2) can u so tp(3,4) by auto
    have len: "sizeof_MsgSource \<le> length (pdata ?p)"
      using ok by (simp add: click_packet_def packet_data_def datagram_ok_def s_mac_ip_udp_len_def sizeof_MsgSource_def)
    have "tp_at s (t', True) tp'"
      using tp' tp(4,5) by (auto simp: tp_at_def)
    moreover have "(hm_abs (tp_time_stats_map tp) s = None) = (\<not> started)" using tp(5) by simp
    moreover have "send_update_msg 1 t' (mt_src_timestamp m) 0 ?p i = PushOut 0 \<lparr>pdata =
        put_MsgSource ((source_of t')\<lparr>ms_timestamp := mt_src_timestamp m\<rparr>) @ drop sizeof_MsgSource (pdata ?p),
        packet_app_type = (if i then MSG_INIT_SOURCE else MSG_UPDATE_SOURCE)\<rparr>" for i
      using len by (simp add: send_update_msg_def checked_output_push_def put_MsgSource_len set_packet_app_type_def)
    ultimately show ?thesis
      using tp'(1) m u
      by (cases changed) (simp_all add: st tr click_pass_def out_packets_def discard_packet_def feed_one source_packet_def
          del: feed.simps(2), blast+)
  qed
qed

lemma click_tick:
  assumes at: "tp_at s st tp"
  shows "\<exists>tp'. click_event conns entry (tp, net) (Timer tsc junk) =
      map_option (map_sum id (Pair tp')) (feed conns entry net (fst (source_step s st (Timer tsc junk)))) \<and>
    tp_at s (snd (source_step s st (Timer tsc junk))) tp'"
proof -
  obtain t started where st: "st = (t, started)" by (cases st)
  have tp: "tp_inv tp" "tp_active tp" "tp_noutputs tp = 1" "hm_abs (tp_subscriptions_map tp) = [s \<mapsto> 0]"
    "hm_abs (tp_time_stats_map tp) = (if started then [s \<mapsto> t] else Map.empty)"
    using at by (simp_all add: tp_at_def st)
  obtain keys tp' where run: "run_timer (\<lambda>_. tsc) (\<lambda>_. junk) tp =
      Inr (map (\<lambda>(i, k). send_add_msg 1 tsc junk (stats_of tp k) (the (hm_abs (tp_subscriptions_map tp) k))) (enumerate 0 keys), tp')"
    "distinct keys" "set keys = dom (hm_abs (tp_time_stats_map tp))"
    "hm_abs (tp_time_stats_map tp') = map_option rollover \<circ> hm_abs (tp_time_stats_map tp)" "tp_inv tp'"
    "tp_subscriptions_map tp' = tp_subscriptions_map tp" "tp_noutputs tp' = 1" "tp_active tp'"
    using run_timer_reports [OF tp(1), of "\<lambda>_. tsc" "\<lambda>_. junk"] tp(2,3) by auto
  show ?thesis
  proof (cases started)
    case True
    then have "keys = [s]"
      using run(2,3) tp(5) by (cases keys rule: list.exhaust; cases "tl keys") auto
    moreover have "stats_of tp s = t" using tp(5) True by (simp add: stats_of_def)
    moreover have "tp_at s (rollover t, True) tp'"
      using run tp(4,5) True by (auto simp: tp_at_def fun_eq_iff)
    ultimately show ?thesis
      using run(1) True tp(4)
      by (auto simp: st click_pass_def out_packets_def send_add_msg_def checked_output_push_def feed_one source_packet_def
          simp del: feed.simps(2))
  next
    case False
    then have "keys = []" using run(3) tp(5) by simp
    moreover have "tp_at s st tp'"
      using at run tp(5) False by (auto simp: tp_at_def st fun_eq_iff)
    ultimately show ?thesis using run(1) False by (auto simp: st click_pass_def out_packets_def)
  qed
qed

text \<open>The Click program feeds its graph the source messages of the symbol.\<close>

lemma click_run_feed:
  assumes "tp_at s st tp" and "list_all event_ok evs"
    and "\<forall>tsc d. Trade tsc d \<in> set evs \<longrightarrow> parses (click_packet d)"
    and "feed conns entry net (sources s st evs) = Some (Inr net')"
  shows "\<exists>tp'. click_run conns entry (tp, net) evs = Some (Inr (tp', net'))"
  using assms
proof (induction evs arbitrary: st tp net)
  case (Cons ev evs)
  let ?xs = "fst (source_step s st ev)" and ?st = "snd (source_step s st ev)"
  have "\<exists>tp1. click_event conns entry (tp, net) ev = map_option (map_sum id (Pair tp1)) (feed conns entry net ?xs) \<and> tp_at s ?st tp1"
  proof (cases ev)
    case (Trade tsc d)
    with Cons.prems(2,3) show ?thesis unfolding Trade by (intro click_trade [OF Cons.prems(1)]) auto
  next
    case (Timer tsc junk)
    then show ?thesis unfolding Timer by (intro click_tick [OF Cons.prems(1)])
  qed
  then obtain tp1 where tp1: "click_event conns entry (tp, net) ev = map_option (map_sum id (Pair tp1)) (feed conns entry net ?xs)"
    "tp_at s ?st tp1" by blast
  obtain net1 where net1: "feed conns entry net ?xs = Some (Inr net1)"
    "feed conns entry net1 (sources s ?st evs) = Some (Inr net')"
    using Cons.prems(4) by (auto simp: feed_append split: option.splits sum.splits)
  then show ?case
    using Cons.IH [OF tp1(2) _ _ net1(2)] Cons.prems(2,3) tp1(1) by simp
qed simp

section \<open>The hand-coded program\<close>

text \<open>What a manager has logged: the values so far, as many as fit.\<close>

definition log_ok :: "nat \<Rightarrow> FixedPt list \<Rightarrow> IndicatorManager \<Rightarrow> bool" where
  "log_ok limit vs im \<longleftrightarrow> length (im_all_values im) = s_all_values_size \<and> im_all_values_counter im = min limit (length vs) \<and>
     take (im_all_values_counter im) (im_all_values im) = take limit vs"

text \<open>
  An indicator that is the only one of its manager. The relation says at which state of the indicator the manager stands,
  what it has logged and whether it is initialized; the laws are what the callbacks do with it.
\<close>

locale only_indicator =
  fixes manages :: "'d \<Rightarrow> FixedPt list \<Rightarrow> bool \<Rightarrow> IndicatorManager \<Rightarrow> bool"
    and step :: "'d \<Rightarrow> UpdateType \<times> bar \<Rightarrow> ('r \<times> 'd) res"
    and start :: "'d \<Rightarrow> bar \<Rightarrow> 'd"
    and vals :: "'r \<Rightarrow> FixedPt list"
  assumes start_law: "manages d vs b im \<Longrightarrow> manages (start d (c, h, l)) vs True (initialize_indicators im h l op c)"
    and add_law: "manages d vs b im \<Longrightarrow> emit_add im a h l op c = Inr (im', a') \<Longrightarrow>
      \<exists>r d'. step d (ADD, c, h, l) = Inr (r, d') \<and> manages d' vs b im'"
    and update_law: "manages d vs b im \<Longrightarrow> emit_update cycles im a h l op c cs = Inr (im', a') \<Longrightarrow>
      \<exists>r d'. step d (UPDATE, c, h, l) = Inr (r, d') \<and> manages d' (vs @ vals r) b im'"
    and init_law: "manages d vs b im \<Longrightarrow> im_initialized im = b"
begin

definition hc_at :: "symbol \<Rightarrow> progress \<Rightarrow> 'd \<Rightarrow> FixedPt list \<Rightarrow> Engine \<Rightarrow> bool" where
  "hc_at s st d vs e \<longleftrightarrow> (\<exists>im. gSymbols e = [(s, fst st, im)] \<and> manages d vs (snd st) im) \<and>
     gTimer_active e = snd st \<and> (snd st \<or> fst st = TimeStats_ctor)"

text \<open>What a source message does to the indicator.\<close>

definition taken_in :: "bool \<Rightarrow> 'd \<Rightarrow> FixedPt list \<Rightarrow> source_msg list \<Rightarrow> 'd \<Rightarrow> FixedPt list \<Rightarrow> bool" where
  "taken_in started d vs xs d' vs' \<longleftrightarrow>
     (case xs of [] \<Rightarrow> d' = d \<and> vs' = vs
      | x # _ \<Rightarrow> if started then \<exists>r. step d (hc_type x, hc_bar x) = Inr (r, d') \<and> vs' = vs @ (if provisional x then vals r else [])
                 else d' = start d (hc_bar x) \<and> vs' = vs)"

lemma hc_trade:
  assumes "hc_at s st d vs e" and "canonical s" and "datagram_ok dg" and "receive tsc e dg = Inr e'"
  shows "parses (click_packet dg) \<and> (\<exists>d' vs'. taken_in (snd st) d vs (fst (source_step s st (Trade tsc dg))) d' vs' \<and>
    hc_at s (snd (source_step s st (Trade tsc dg))) d' vs' e')"
proof -
  obtain t started where st: "st = (t, started)" by (cases st)
  obtain im where im: "gSymbols e = [(s, t, im)]" "manages d vs started im"
    and new: "started \<or> t = TimeStats_ctor" and timer: "gTimer_active e = started"
    using assms(1) by (auto simp: hc_at_def st)
  note run = assms(4) [unfolded receive_def udp_read_cb_def option.case received [OF assms(3)] trade_of_received [OF assms(3)] prod.case]
  then obtain r where r: "populate_msg_trade MsgTrade_ctor (pdata (click_packet dg)) = Inr r"
    by (cases "populate_msg_trade MsgTrade_ctor (pdata (click_packet dg))") simp_all
  then have tr: "trade_of (click_packet dg) = r" "parses (click_packet dg)" by (simp_all add: trade_of_def parses_def)
  have "\<exists>d' vs'. taken_in started d vs (fst (source_step s st (Trade tsc dg))) d' vs' \<and> hc_at s (snd (source_step s st (Trade tsc dg))) d' vs' e'"
  proof (cases "\<exists>m. r = Some m \<and> mt_symbol m = s")
    case False
    have "e' = e"
    proof (cases r)
      case (Some m)
      have "canonical (mt_symbol m)" using populate_canonical r Some by simp
      with False Some have "umap_find (gSymbols e) (mt_symbol m) = None"
        using symbol_key.eq_iff [OF assms(2)] by (simp add: im umap_find_def)
      with run r Some show ?thesis by simp
    qed (use run r in simp)
    moreover have "source_step s st (Trade tsc dg) = ([], st)"
      using False by (auto simp: st tr split: option.splits)
    ultimately show ?thesis using assms(1) by (auto simp: taken_in_def)
  next
    case True
    then obtain m where m: "r = Some m" "mt_symbol m = s" by blast
    have eq: "aw_eq s s" using symbol_key.eq_iff [OF assms(2,2)] by simp
    obtain changed t' where u: "update_stats t m = (changed, t')" by fastforce
    define x where "x = \<lparr>sm_type = (if started then MSG_UPDATE_SOURCE else MSG_INIT_SOURCE), sm_tsc = tsc,
      sm_msg = (source_of t')\<lparr>ms_timestamp := mt_src_timestamp m\<rparr>, sm_rest = drop sizeof_MsgSource (pdata (click_packet dg))\<rparr>"
    have src: "source_step s st (Trade tsc dg) = (if changed then [x] else [], t', True)"
      using m u by (simp add: st tr x_def)
    have bar: "hc_bar x = (fromC (ts_close t'), fromC (ts_high t'), fromC (ts_low t'))"
      and ty: "started \<Longrightarrow> hc_type x = UPDATE" "started \<Longrightarrow> provisional x"
      by (simp_all add: x_def hc_bar_def source_of_def hc_type_def provisional_def)
    have first: "started \<or> changed"
      using new u by (auto simp: update_stats_def TimeStats_ctor_def)
    have store: "umap_find [(s, t, im)] s = Some (t, im)" "umap_store [(s, v)] s w = [(s, w)]" for v w :: "TimeStats \<times> IndicatorManager"
      using eq by (simp_all add: umap_find_def umap_store_def)
    show ?thesis
    proof (cases "changed \<and> started")
      case True
      with run r m u store im init_law [OF im(2)] obtain im' a' where e':
        "emit_update tsc im (gADLine e) (fromC (ts_high t')) (fromC (ts_low t')) (fromInt 0) (fromC (ts_close t')) (mt_src_timestamp m) =
          Inr (im', a')" "gSymbols e' = [(s, t', im')]" "gTimer_active e'"
        by (auto simp: update_hloc_update_stats Let_def bnd_eq_Inr)
      from update_law [OF im(2) e'(1)] e'(2,3) True show ?thesis
        by (auto simp: src taken_in_def bar ty hc_at_def)
    next
      case False
      with run r m u store im init_law [OF im(2)] have
        "gSymbols e' = [(s, t', if changed then initialize_indicators im (fromC (ts_high t')) (fromC (ts_low t')) (fromInt 0) (fromC (ts_close t')) else im)]" "gTimer_active e'"
        by (auto simp: update_hloc_update_stats Let_def split: if_splits)
      with False first start_law [OF im(2)] im(2) show ?thesis
        by (cases changed) (auto simp: src taken_in_def bar hc_at_def)
    qed
  qed
  with tr(2) st show ?thesis by simp
qed

end

context only_indicator
begin

lemma hc_timer:
  assumes "hc_at s st d vs e" and "hc_event e (Timer tsc junk) = Inr e'"
  shows "\<exists>d' vs'. taken_in (snd st) d vs (fst (source_step s st (Timer tsc junk))) d' vs' \<and>
    hc_at s (snd (source_step s st (Timer tsc junk))) d' vs' e'"
proof -
  obtain t started where st: "st = (t, started)" by (cases st)
  obtain im where im: "gSymbols e = [(s, t, im)]" "manages d vs started im" and timer: "gTimer_active e = started"
    using assms(1) by (auto simp: hc_at_def st)
  show ?thesis
  proof (cases started)
    case True
    obtain im' a' where e': "emit_add im (gADLine e) (fromC (ts_high t)) (fromC (ts_low t)) (fromInt 0) (fromC (ts_close t)) = Inr (im', a')"
      "gSymbols e' = [(s, rollover t, im')]" "gTimer_active e'"
      using assms(2) im(1) timer True by (auto simp: on_timer_cb_def timer_symbol_eq bnd_eq_Inr)
    from add_law [OF im(2) e'(1)] e'(2,3) True show ?thesis
      by (auto simp: st taken_in_def hc_at_def hc_type_def hc_bar_def provisional_def source_of_def)
  next
    case False
    then show ?thesis using assms timer by (auto simp: st taken_in_def)
  qed
qed

definition all_vals :: "source_msg list \<Rightarrow> 'r list \<Rightarrow> FixedPt list" where
  "all_vals xs outs = concat (map2 (\<lambda>x r. if provisional x then vals r else []) xs outs)"

lemma source_step_le: "fst (source_step s st ev) = [] \<or> (\<exists>x. fst (source_step s st ev) = [x])"
  by (cases st; cases ev) (auto simp: Let_def split: option.split)

lemma hc_event_step:
  assumes "hc_at s st d vs e" and "canonical s" and "event_ok ev" and "hc_event e ev = Inr e'"
  shows "(\<forall>tsc dg. ev = Trade tsc dg \<longrightarrow> parses (click_packet dg)) \<and>
    (\<exists>d' vs'. taken_in (snd st) d vs (fst (source_step s st ev)) d' vs' \<and> hc_at s (snd (source_step s st ev)) d' vs' e')"
proof (cases ev)
  case (Trade tsc dg)
  then show ?thesis using hc_trade [OF assms(1,2), of dg tsc e'] assms(3,4) by simp
next
  case (Timer tsc junk)
  then show ?thesis using hc_timer [OF assms(1), of tsc junk e'] assms(4) by (simp del: hc_event.simps)
qed

lemma hc_run:
  assumes "hc_at s st d vs e" and "snd st" and "canonical s" and "list_all event_ok evs" and "iter_res hc_event e evs = Inr e'"
  shows "(\<forall>tsc dg. Trade tsc dg \<in> set evs \<longrightarrow> parses (click_packet dg)) \<and>
    (\<exists>outs d' st'. run_ops step d (hc_inputs (sources s st evs)) = Inr (outs, d') \<and>
      hc_at s st' d' (vs @ all_vals (sources s st evs) outs) e')"
  using assms(1,2,4,5)
proof (induction evs arbitrary: st d vs e)
  case (Cons ev evs)
  let ?xs = "fst (source_step s st ev)" and ?st = "snd (source_step s st ev)"
  from Cons.prems(4) obtain e1 where e1: "hc_event e ev = Inr e1" "iter_res hc_event e1 evs = Inr e'"
    by (auto simp: bnd_eq_Inr)
  have "event_ok ev" using Cons.prems(3) by simp
  from hc_event_step [OF Cons.prems(1) assms(3) this e1(1)] Cons.prems(2)
  obtain d1 vs1 where d1: "taken_in True d vs ?xs d1 vs1" "hc_at s ?st d1 vs1 e1"
    "\<forall>tsc dg. ev = Trade tsc dg \<longrightarrow> parses (click_packet dg)" by auto
  have st: "snd ?st" using Cons.prems(2) by (cases st; cases ev) (auto simp: Let_def split: option.split)
  from Cons.IH [OF d1(2) st _ e1(2)] Cons.prems(3) obtain outs d' st' where
    ih: "run_ops step d1 (hc_inputs (sources s ?st evs)) = Inr (outs, d')" "hc_at s st' d' (vs1 @ all_vals (sources s ?st evs) outs) e'"
      "\<forall>tsc dg. Trade tsc dg \<in> set evs \<longrightarrow> parses (click_packet dg)" by auto
  from source_step_le [of s st ev] show ?case
  proof (elim disjE exE)
    assume "?xs = []"
    then show ?thesis using d1 ih by (auto simp: taken_in_def simp del: split_paired_Ex)
  next
    fix x assume x: "?xs = [x]"
    then obtain r where "step d (hc_type x, hc_bar x) = Inr (r, d1)" "vs1 = vs @ (if provisional x then vals r else [])"
      using d1(1) by (auto simp: taken_in_def)
    then show ?thesis using d1(3) ih x by (auto simp: all_vals_def simp del: split_paired_Ex)
  qed
qed (auto simp: all_vals_def simp del: split_paired_Ex)

text \<open>The first trade starts the indicator; before it nothing happens.\<close>

lemma hc_run_start:
  assumes "hc_at s (t, False) d [] e" and "canonical s" and "list_all event_ok evs" and "iter_res hc_event e evs = Inr e'"
    and "sources s (t, False) evs = x0 # xs"
  shows "(\<forall>tsc dg. Trade tsc dg \<in> set evs \<longrightarrow> parses (click_packet dg)) \<and> sm_type x0 = MSG_INIT_SOURCE \<and>
    (\<exists>outs d' st'. run_ops step (start d (hc_bar x0)) (hc_inputs xs) = Inr (outs, d') \<and> hc_at s st' d' (all_vals xs outs) e')"
  using assms(1,3-)
proof (induction evs arbitrary: d e)
  case (Cons ev evs)
  let ?st = "(t, False)"
  let ?xs = "fst (source_step s ?st ev)"
  from Cons.prems(3) obtain e1 where e1: "hc_event e ev = Inr e1" "iter_res hc_event e1 evs = Inr e'"
    by (auto simp: bnd_eq_Inr)
  have ok: "event_ok ev" "list_all event_ok evs" using Cons.prems(2) by simp_all
  from hc_event_step [OF Cons.prems(1) assms(2) ok(1) e1(1)]
  obtain d1 vs1 where d1: "taken_in False d [] ?xs d1 vs1" "hc_at s (snd (source_step s ?st ev)) d1 vs1 e1"
    "\<forall>tsc dg. ev = Trade tsc dg \<longrightarrow> parses (click_packet dg)" by auto
  have t: "t = TimeStats_ctor" using Cons.prems(1) by (simp add: hc_at_def)
  have st: "?xs = [] \<and> snd (source_step s ?st ev) = ?st \<or>
      (\<exists>x. ?xs = [x] \<and> sm_type x = MSG_INIT_SOURCE \<and> snd (snd (source_step s ?st ev)))"
    by (cases ev) (auto simp: Let_def t update_stats_def TimeStats_ctor_def split: option.split)
  then show ?case
  proof (elim disjE exE conjE)
    assume "?xs = []" and "snd (source_step s ?st ev) = ?st"
    with d1 Cons.IH [OF _ ok(2) e1(2), of d] Cons.prems(4) show ?thesis by (auto simp: taken_in_def simp del: split_paired_Ex)
  next
    fix x assume x: "?xs = [x]" "sm_type x = MSG_INIT_SOURCE" "snd (snd (source_step s ?st ev))"
    from hc_run [OF d1(2) x(3) assms(2) ok(2) e1(2)] d1(1,3) x(1,2) Cons.prems(4)
    show ?thesis by (auto simp: taken_in_def simp del: split_paired_Ex)
  qed
qed simp

end


section \<open>Managers with one indicator\<close>

lemma take_snoc_update: "n < length xs \<Longrightarrow> take (Suc n) (xs[n := v]) = take n xs @ [v]"
  by (simp add: take_Suc_conv_app_nth)

text \<open>Logging one value and logging two, from a log that is full to the last place or to the end.\<close>

lemma log_one:
  assumes "log_ok 9999 vs im" and "rt = Some r \<and> rd = None \<or> rt = None \<and> rd = Some r"
    and "log_results im rt rd None None = Inr im'"
  shows "log_ok 9999 (vs @ [r]) im'" and "\<exists>vals k. im' = im\<lparr>im_all_values := vals, im_all_values_counter := k\<rparr>"
proof -
  have im: "length (im_all_values im) = 10000" "im_all_values_counter im = min 9999 (length vs)"
    "take (im_all_values_counter im) (im_all_values im) = take 9999 vs"
    using assms(1) unfolding log_ok_def s_all_values_size_def by auto
  have "log_ok 9999 (vs @ [r]) im' \<and> (\<exists>vals k. im' = im\<lparr>im_all_values := vals, im_all_values_counter := k\<rparr>)"
  proof (cases "length vs < 9999")
    case True
    let ?im = "im\<lparr>im_all_values := (im_all_values im)[length vs := r], im_all_values_counter := Suc (length vs)\<rparr>"
    have "im' = ?im"
      using assms(2,3) im True by (auto simp: log_results_def log_at_def s_all_values_size_def Let_def arr_set_def)
    moreover have "log_ok 9999 (vs @ [r]) ?im"
      using im True by (simp add: log_ok_def s_all_values_size_def take_snoc_update)
    ultimately show ?thesis by blast
  next
    case False
    then have eq: "im' = im" using assms(3) im(2) by (simp add: log_results_def s_all_values_size_def)
    then have "im' = im\<lparr>im_all_values := im_all_values im, im_all_values_counter := im_all_values_counter im\<rparr>" by simp
    moreover have "log_ok 9999 (vs @ [r]) im'" using assms(1) False unfolding eq by (auto simp: log_ok_def)
    ultimately show ?thesis by blast
  qed
  then show "log_ok 9999 (vs @ [r]) im'" and "\<exists>vals k. im' = im\<lparr>im_all_values := vals, im_all_values_counter := k\<rparr>" by blast+
qed

lemma log_two:
  assumes "log_ok 10000 vs im" and "even (length vs)" and "log_results im None None (Some (u, d)) None = Inr im'"
  shows "log_ok 10000 (vs @ [u, d]) im'" and "\<exists>vals k. im' = im\<lparr>im_all_values := vals, im_all_values_counter := k\<rparr>"
proof -
  have im: "length (im_all_values im) = 10000" "im_all_values_counter im = min 10000 (length vs)"
    "take (im_all_values_counter im) (im_all_values im) = take 10000 vs"
    using assms(1) unfolding log_ok_def s_all_values_size_def by auto
  have "log_ok 10000 (vs @ [u, d]) im' \<and> (\<exists>vals k. im' = im\<lparr>im_all_values := vals, im_all_values_counter := k\<rparr>)"
  proof (cases "length vs < 10000")
    case True
    with assms(2) have small: "length vs < 9999" by (cases "length vs = 9999") auto
    let ?im = "im\<lparr>im_all_values := (im_all_values im)[length vs := u, Suc (length vs) := d], im_all_values_counter := Suc (Suc (length vs))\<rparr>"
    have "im' = ?im"
      using assms(3) im small by (auto simp: log_results_def log_at_def s_all_values_size_def Let_def arr_set_def)
    moreover have "log_ok 10000 (vs @ [u, d]) ?im"
      using im small by (simp add: log_ok_def s_all_values_size_def take_snoc_update)
    ultimately show ?thesis by blast
  next
    case False
    then have eq: "im' = im" using assms(3) im(2) by (simp add: log_results_def s_all_values_size_def)
    then have "im' = im\<lparr>im_all_values := im_all_values im, im_all_values_counter := im_all_values_counter im\<rparr>" by simp
    moreover have "log_ok 10000 (vs @ [u, d]) im'" using assms(1) False unfolding eq by (auto simp: log_ok_def)
    ultimately show ?thesis by blast
  qed
  then show "log_ok 10000 (vs @ [u, d]) im'" and "\<exists>vals k. im' = im\<lparr>im_all_values := vals, im_all_values_counter := k\<rparr>" by blast+
qed

definition dmi_manages :: "HcDmi \<Rightarrow> FixedPt list \<Rightarrow> bool \<Rightarrow> IndicatorManager \<Rightarrow> bool" where
  "dmi_manages d vs b im \<longleftrightarrow> im_trix im = None \<and> im_vortex im = None \<and> im_ad_line_tick im = None \<and> im_dmi im = Some d \<and>
     im_initialized im = b \<and> log_ok 9999 vs im"

definition vortex_manages :: "HcVortex \<Rightarrow> FixedPt list \<Rightarrow> bool \<Rightarrow> IndicatorManager \<Rightarrow> bool" where
  "vortex_manages v vs b im \<longleftrightarrow> im_trix im = None \<and> im_dmi im = None \<and> im_ad_line_tick im = None \<and> im_vortex im = Some v \<and>
     im_initialized im = b \<and> log_ok 10000 vs im \<and> even (length vs)"

definition trix_manages :: "HcTrix \<Rightarrow> FixedPt list \<Rightarrow> bool \<Rightarrow> IndicatorManager \<Rightarrow> bool" where
  "trix_manages t vs b im \<longleftrightarrow> im_dmi im = None \<and> im_vortex im = None \<and> im_ad_line_tick im = None \<and> im_trix im = Some t \<and>
     im_initialized im = b \<and> log_ok 9999 vs im"

lemmas manager_simps = initialize_indicators_def emit_add_def emit_update_def run_trix_def run_dmi_def run_vortex_def
  run_adline_def

lemma log_ok_update [simp]:
  "log_ok n vs (im\<lparr>im_dmi := x\<rparr>) = log_ok n vs im" "log_ok n vs (im\<lparr>im_vortex := y\<rparr>) = log_ok n vs im"
  "log_ok n vs (im\<lparr>im_trix := z\<rparr>) = log_ok n vs im" "log_ok n vs (im\<lparr>im_initialized := b\<rparr>) = log_ok n vs im"
  "log_ok n vs (im\<lparr>im_running_stats := w\<rparr>) = log_ok n vs im" "log_ok n vs (im\<lparr>im_ad_line_tick := t\<rparr>) = log_ok n vs im"
  by (simp_all add: log_ok_def)

interpretation dmi_only: only_indicator dmi_manages dmi_step dmi_begin "\<lambda>r. [r]"
proof unfold_locales
  fix d vs b im c h l op cycles a cs im' a'
  assume m: "dmi_manages d vs b im" and e: "emit_update cycles im a h l op c cs = Inr (im', a')"
  then obtain r d' im1 where r: "dmi_step d (UPDATE, c, h, l) = Inr (r, d')"
    "log_results (im\<lparr>im_dmi := Some d'\<rparr>) None (Some r) None None = Inr im1"
    "im' = im1\<lparr>im_running_stats := rs_update_counter (im_running_stats im1) (cycles - cs)\<rparr>"
    by (auto simp: dmi_manages_def manager_simps dmi_step_def bnd_eq_Inr)
  have "log_ok 9999 vs (im\<lparr>im_dmi := Some d'\<rparr>)" using m by (simp add: dmi_manages_def)
  from log_one [OF this _ r(2)] r(1,3) m
  show "\<exists>r d'. dmi_step d (UPDATE, c, h, l) = Inr (r, d') \<and> dmi_manages d' (vs @ [r]) b im'"
    by (auto simp: dmi_manages_def)
qed (auto simp: dmi_manages_def manager_simps dmi_begin_def dmi_step_def bnd_eq_Inr dmi_first_flat(2))

interpretation vortex_only: only_indicator vortex_manages vortex_step vortex_begin "\<lambda>(u, d). [u, d]"
proof unfold_locales
  fix d vs b im c h l op cycles a cs im' a'
  assume m: "vortex_manages d vs b im" and e: "emit_update cycles im a h l op c cs = Inr (im', a')"
  then obtain x y d' im1 where r: "vortex_step d (UPDATE, c, h, l) = Inr ((x, y), d')"
    "log_results (im\<lparr>im_vortex := Some d'\<rparr>) None None (Some (x, y)) None = Inr im1"
    "im' = im1\<lparr>im_running_stats := rs_update_counter (im_running_stats im1) (cycles - cs)\<rparr>"
    by (auto simp: vortex_manages_def manager_simps vortex_step_def bnd_eq_Inr)
  have "log_ok 10000 vs (im\<lparr>im_vortex := Some d'\<rparr>)" "even (length vs)" using m by (simp_all add: vortex_manages_def)
  from log_two [OF this r(2)] r(1,3) m
  show "\<exists>r d'. vortex_step d (UPDATE, c, h, l) = Inr (r, d') \<and> vortex_manages d' (vs @ (case r of (u, d) \<Rightarrow> [u, d])) b im'"
    by (auto simp: vortex_manages_def)
qed (auto simp: vortex_manages_def manager_simps vortex_begin_def vortex_step_def bnd_eq_Inr vortex_first_flat(2))

definition hc_trix_step :: "HcTrix \<Rightarrow> UpdateType \<times> bar \<Rightarrow> (FixedPt \<times> HcTrix) res" where
  "hc_trix_step t x = (case x of (ut, c, h, l) \<Rightarrow> trix_calculate_value t c ut)"

definition trix_begin :: "HcTrix \<Rightarrow> bar \<Rightarrow> HcTrix" where
  "trix_begin t b = trix_initialize t (fst b)"

interpretation trix_only: only_indicator trix_manages hc_trix_step trix_begin "\<lambda>r. [r]"
proof unfold_locales
  fix d vs b im c h l op cycles a cs im' a'
  assume m: "trix_manages d vs b im" and e: "emit_update cycles im a h l op c cs = Inr (im', a')"
  then obtain r d' im1 where r: "hc_trix_step d (UPDATE, c, h, l) = Inr (r, d')"
    "log_results (im\<lparr>im_trix := Some d'\<rparr>) (Some r) None None None = Inr im1"
    "im' = im1\<lparr>im_running_stats := rs_update_counter (im_running_stats im1) (cycles - cs)\<rparr>"
    by (auto simp: trix_manages_def manager_simps hc_trix_step_def bnd_eq_Inr)
  have "log_ok 9999 vs (im\<lparr>im_trix := Some d'\<rparr>)" using m by (simp add: trix_manages_def)
  from log_one [OF this _ r(2)] r(1,3) m
  show "\<exists>r d'. hc_trix_step d (UPDATE, c, h, l) = Inr (r, d') \<and> trix_manages d' (vs @ [r]) b im'"
    by (auto simp: trix_manages_def)
qed (auto simp: trix_manages_def manager_simps trix_begin_def hc_trix_step_def bnd_eq_Inr trix_first_zero)


section \<open>From datagrams to values\<close>

text \<open>The values of the updates among the packets at the end of a graph.\<close>

definition update_values :: "Packet list \<Rightarrow> FixedPt list" where
  "update_values log =
     concat (map (\<lambda>p. case logged p of Inl _ \<Rightarrow> [] | Inr (v, ts) \<Rightarrow> if packet_app_type p = MSG_UPDATE then [v] else []) log)"

lemma update_values_carry:
  assumes "list_all (\<lambda>x. sm_type x \<in> {MSG_ADD_SOURCE, MSG_UPDATE_SOURCE}) xs"
  shows "update_values (map2 carry xs vs) = concat (map2 (\<lambda>x v. if provisional x then [v] else []) xs vs)"
proof -
  have "(case logged (carry x v) of Inl _ \<Rightarrow> [] | Inr (v, ts) \<Rightarrow> if packet_app_type (carry x v') = MSG_UPDATE then [v] else []) =
      (if provisional x then [v] else [])" if "sm_type x \<in> {MSG_ADD_SOURCE, MSG_UPDATE_SOURCE}" for x v v'
    using that by (auto simp: carry_def [of x v'] provisional_def split_type_def value_packet_def)
  with assms show ?thesis
    unfolding update_values_def
    by (intro arg_cong [where f = concat] nth_equalityI) (auto simp: list_all_length)
qed

text \<open>The source messages of a symbol: the first trade makes the first one.\<close>

lemma sources_types:
  "snd st \<Longrightarrow> list_all event_ok evs \<Longrightarrow>
   list_all (\<lambda>x. sm_type x \<in> {MSG_ADD_SOURCE, MSG_UPDATE_SOURCE} \<and> length (sm_rest x) < 200) (sources s st evs)"
proof (induction evs arbitrary: st)
  case (Cons ev evs)
  then have "snd (snd (source_step s st ev)) \<and> list_all (\<lambda>x. sm_type x \<in> {MSG_ADD_SOURCE, MSG_UPDATE_SOURCE} \<and> length (sm_rest x) < 200)
      (fst (source_step s st ev))"
    by (cases st; cases ev) (auto simp: Let_def click_packet_def packet_data_def datagram_ok_def s_mac_ip_udp_len_def
        sizeof_MsgSource_def split: option.split)
  with Cons show ?case by simp
qed simp

lemma sources_first:
  assumes "sources s (TimeStats_ctor, False) evs = x0 # xs" and "list_all event_ok evs"
  shows "sm_type x0 = MSG_INIT_SOURCE \<and> length (sm_rest x0) < 200 \<and>
    list_all (\<lambda>x. sm_type x \<in> {MSG_ADD_SOURCE, MSG_UPDATE_SOURCE} \<and> length (sm_rest x) < 200) xs"
  using assms
proof (induction evs)
  case (Cons ev evs)
  let ?st = "(TimeStats_ctor, False)"
  have "source_step s ?st ev = ([], ?st) \<or> (\<exists>x. fst (source_step s ?st ev) = [x] \<and> sm_type x = MSG_INIT_SOURCE \<and>
      length (sm_rest x) < 200 \<and> snd (snd (source_step s ?st ev)))"
    using Cons.prems(2)
    by (cases ev) (auto simp: Let_def update_stats_def TimeStats_ctor_def click_packet_def packet_data_def datagram_ok_def
        s_mac_ip_udp_len_def sizeof_MsgSource_def split: option.split)
  with Cons sources_types [of "snd (source_step s ?st ev)" evs s] show ?case by auto
qed simp

lemma later_sorted:
  "sorted_wrt (<) (t # map stamp_of xs) \<Longrightarrow>
   list_all (\<lambda>x. sm_type x \<in> {MSG_ADD_SOURCE, MSG_UPDATE_SOURCE} \<and> length (sm_rest x) < 200) xs \<Longrightarrow> later t xs"
  by (induction xs arbitrary: t) auto

lemma sources_shape:
  assumes "sources s (TimeStats_ctor, False) evs = x0 # xs" and "list_all event_ok evs" and "sorted_wrt (<) (0 # map stamp_of (x0 # xs))"
  shows "first_msg x0" and "later (stamp_of x0) xs" and "list_all (\<lambda>x. sm_type x \<in> {MSG_ADD_SOURCE, MSG_UPDATE_SOURCE}) xs"
  using sources_first [OF assms(1,2)] assms(3) later_sorted [of "stamp_of x0" xs]
  by (auto simp: first_msg_def list_all_iff)

text \<open>Both programs at their start, for one symbol.\<close>

lemma click_start:
  assumes "tp_configure interval [sy, [48]] (TradeProcessor_ctor 1) = Inr (rc, tp)"
  shows "tp_at (aw_assign_str sy) (TimeStats_ctor, False) tp"
proof -
  have z: "strtol [48, 0] = Inr 0" using strtol_digits [of "[48]" "[]"] by (simp add: is_digit_def digits_val_def)
  have m: "sym_inv (HashMap_ctor (0 :: int))" by (rule hm_inv_ctor)
  obtain m' where m': "hm_insert aw_hashcode aw_eq (HashMap_ctor (0 :: int)) (aw_assign_str sy) 0 = Inr (True, m')" "sym_inv m'"
    "hm_abs m' = [aw_assign_str sy \<mapsto> 0]"
    using symbol_key.hm_insert_abs [OF m canonical_assign_str, of sy 0] by auto
  have "tp_inv (TradeProcessor_ctor 1)" by (rule tp_inv_ctor)
  with assms z m' show ?thesis
    by (auto simp: tp_configure_def TradeProcessor_ctor_def tp_at_def tp_inv_def Let_def split: option.splits)
qed

lemma click_from_sources:
  assumes "tp_configure interval [sy, [48]] (TradeProcessor_ctor 1) = Inr (rc, tp)" and "list_all event_ok evs"
    and "\<forall>tsc dg. Trade tsc dg \<in> set evs \<longrightarrow> parses (click_packet dg)"
    and "sources (aw_assign_str sy) (TimeStats_ctor, False) evs = x0 # xs"
    and "router_run conns (sm_tsc x0) net [(entry, 0, source_packet x0)] = Some (Inr net1)"
    and "feed conns entry net1 xs = Some (Inr net')"
  shows "\<exists>tp'. click_run conns entry (tp, net) evs = Some (Inr (tp', net'))"
  using click_run_feed [OF click_start [OF assms(1)] assms(2,3), of conns entry net net'] assms(4-) by simp

lemma engine_started:
  assumes "engine_start pars = Inr e" and "pr_symbols pars = [sy]"
  shows "\<exists>im. IndicatorManager_ctor pars (aw_assign_str sy) = Inr im \<and> gSymbols e = [(aw_assign_str sy, TimeStats_ctor, im)] \<and> \<not> gTimer_active e"
proof -
  have "take (length (cstr sy)) sy = cstr sy"
    unfolding cstr_def by (rule takeWhile_eq_take [symmetric])
  then have "length (cstr sy) < ORDER_SYMBOL_LEN \<Longrightarrow> aw_assign_str sy = cstr sy @ replicate (ORDER_SYMBOL_LEN - length (cstr sy)) 0"
    by (simp add: aw_assign_str_def Let_def)
  then show ?thesis
    using assms by (auto simp: engine_start_def insert_symbol_def Let_def bnd_eq_Inr umap_insert_def split: if_splits)
qed

lemma log_ok_ctor: "im_all_values im = replicate s_all_values_size FixedPt_ctor \<Longrightarrow> im_all_values_counter im = 0 \<Longrightarrow> log_ok n [] im"
  by (simp add: log_ok_def)

lemma dtor_log: "log_ok n vs im \<Longrightarrow> n \<le> s_all_values_size \<Longrightarrow>
  IndicatorManager_dtor im = Inr (take n vs, get_running_stats (im_running_stats im))"
  using dtor_reads [of "im_all_values_counter im" "im_all_values im"] by (auto simp: log_ok_def IndicatorManager_dtor_def)

text \<open>
  Property C5. The two programs compute the same directional movement index. The Click program, a TradeProcessor routing one
  symbol to the graph of dmi_opt.click, and the hand-coded program, started for that symbol and that indicator with 13 periods,
  get the same datagrams, with fewer than 198 bytes of text each, and the same timer events. If the hand-coded
  program gets through and has a direction to report at every step, and the time stamps of the source messages increase,
  then the Click program gets through, with one value for every message after the first, and the
  values that the hand-coded program prints at its end are the values of the updates that
  arrived at the end of the graph, in their order, up to the 9999 its log has room for.
\<close>

theorem programs_agree_on_dmi:
  assumes "tp_configure interval [sy, [48]] (TradeProcessor_ctor 1) = Inr (rc, tp)" and "dmi_opt = Inr net"
    and "engine_start (Params_ctor\<lparr>pr_is_dmi := True, pr_ewma_periods := 13, pr_symbols := [sy]\<rparr>) = Inr e"
    and "list_all event_ok evs" and "iter_res hc_event e evs = Inr e'"
    and "sources (aw_assign_str sy) (TimeStats_ctor, False) evs = x0 # xs" and "sorted_wrt (<) (0 # map stamp_of (x0 # xs))"
    and "HcDmi_ctor 13 = Inr d" and "directed_run (dmi_begin d (hc_bar x0)) (hc_inputs xs)"
  shows "\<exists>tp' net' log t im stats. click_run dmi_wiring D_tstamp (tp, net) evs = Some (Inr (tp', net')) \<and>
    net' D_stats = Sink log \<and> length log = length xs \<and> gSymbols e' = [(aw_assign_str sy, t, im)] \<and>
    IndicatorManager_dtor im = Inr (take 9999 (update_values log), stats)"
proof -
  let ?s = "aw_assign_str sy"
  have can: "canonical ?s" by (rule canonical_assign_str)
  obtain im where im: "IndicatorManager_ctor (Params_ctor\<lparr>pr_is_dmi := True, pr_ewma_periods := 13, pr_symbols := [sy]\<rparr>) ?s = Inr im"
    "gSymbols e = [(?s, TimeStats_ctor, im)]" "\<not> gTimer_active e"
    using engine_started [OF assms(3)] by auto
  then have "dmi_manages d [] False im"
    using assms(8) by (auto simp: IndicatorManager_ctor_def configure_indicators_def Params_ctor_def dmi_manages_def bnd_eq_Inr
        log_ok_ctor)
  then have at: "dmi_only.hc_at ?s (TimeStats_ctor, False) d [] e"
    unfolding dmi_only.hc_at_def using im(2,3) by simp
  from dmi_only.hc_run_start [OF at can assms(4-6)] obtain outs d' st' where
    hc: "\<forall>tsc dg. Trade tsc dg \<in> set evs \<longrightarrow> parses (click_packet dg)"
      "run_ops dmi_step (dmi_begin d (hc_bar x0)) (hc_inputs xs) = Inr (outs, d')"
      "dmi_only.hc_at ?s st' d' (dmi_only.all_vals xs outs) e'" by blast
  note shape = sources_shape [OF assms(6,4,7)]
  obtain net1 where net1: "router_run dmi_wiring (sm_tsc x0) net [(D_tstamp, 0, source_packet x0)] = Some (Inr net1)"
    "dmi_follows (stamp_of x0) (dmi_begin d (hc_bar x0)) [] net1"
    by (rule dmi_follows_init [OF assms(2,8) shape(1)])
  obtain net' where net': "feed dmi_wiring D_tstamp net1 xs = Some (Inr net')" "net' D_stats = Sink (map2 carry xs outs)"
    using dmi_follows_run [OF net1(2) shape(2) assms(9)] hc(2) by auto
  obtain tp' where "click_run dmi_wiring D_tstamp (tp, net) evs = Some (Inr (tp', net'))"
    using click_from_sources [OF assms(1,4) hc(1) assms(6) net1(1) net'(1)] by blast
  moreover obtain t im' where im': "gSymbols e' = [(?s, t, im')]" "log_ok 9999 (dmi_only.all_vals xs outs) im'"
    using hc(3) by (auto simp: dmi_only.hc_at_def dmi_manages_def)
  moreover have "update_values (map2 carry xs outs) = dmi_only.all_vals xs outs"
    using update_values_carry [OF shape(3)] by (simp add: dmi_only.all_vals_def)
  moreover have "length (map2 carry xs outs) = length xs" using run_ops_length [OF hc(2)] by simp
  ultimately show ?thesis
    using net'(2) dtor_log [OF im'(2)] by (fastforce simp: s_all_values_size_def)
qed


lemma paired_values:
  assumes "length outs = length xs"
  shows "\<exists>ups. length ups = length (concat (map2 (\<lambda>x v. if provisional x then [v] else []) xs (map snd outs))) \<and>
    concat (map2 (\<lambda>x r. if provisional x then (case r of (u, d) \<Rightarrow> [u, d]) else []) xs outs) =
    concat (map2 (\<lambda>up down. [up, down]) ups (concat (map2 (\<lambda>x v. if provisional x then [v] else []) xs (map snd outs))))"
  using assms
proof (induction outs xs rule: list_induct2)
  case (Cons out outs x xs)
  then obtain ups where ups: "length ups = length (concat (map2 (\<lambda>x v. if provisional x then [v] else []) xs (map snd outs)))"
    "concat (map2 (\<lambda>x r. if provisional x then (case r of (u, d) \<Rightarrow> [u, d]) else []) xs outs) =
     concat (map2 (\<lambda>up down. [up, down]) ups (concat (map2 (\<lambda>x v. if provisional x then [v] else []) xs (map snd outs))))"
    by blast
  show ?case
  proof (cases "provisional x")
    case True
    with ups show ?thesis by (intro exI [of _ "fst out # ups"]) (simp add: case_prod_unfold)
  next
    case False
    with ups show ?thesis by (intro exI [of _ ups]) simp
  qed
qed simp


text \<open>
  Property C6. The two programs compute the same vortex indicator. With the graph of vortex_opt.click, under the same
  conditions as for the directional movement index, the hand-coded program logs two values per update, an upper and a lower one; its lower
  values are the values of the updates that arrived at the end of the graph, in their order, up to the
  5000 pairs its log has room for. The movement of the first update must not be so large that its double overflows.
\<close>

theorem programs_agree_on_vortex:
  assumes "tp_configure interval [sy, [48]] (TradeProcessor_ctor 1) = Inr (rc, tp)"
    and "engine_start (Params_ctor\<lparr>pr_is_vortex := True, pr_ewma_periods := 13, pr_symbols := [sy]\<rparr>) = Inr e"
    and "list_all event_ok evs" and "iter_res hc_event e evs = Inr e'"
    and "sources (aw_assign_str sy) (TimeStats_ctor, False) evs = x0 # xs" and "sorted_wrt (<) (0 # map stamp_of (x0 # xs))"
    and "first_doubles (hc_bar x0, []) xs"
  shows "\<exists>tp' net' log t im ups stats. click_run vortex_wiring V_tstamp (tp, vortex_opt) evs = Some (Inr (tp', net')) \<and>
    net' V_stats = Sink log \<and> length log = length xs \<and> gSymbols e' = [(aw_assign_str sy, t, im)] \<and>
    length ups = length (update_values log) \<and>
    IndicatorManager_dtor im = Inr (take 10000 (concat (map2 (\<lambda>up down. [up, down]) ups (update_values log))), stats)"
proof -
  let ?s = "aw_assign_str sy"
  have can: "canonical ?s" by (rule canonical_assign_str)
  obtain im where im: "IndicatorManager_ctor (Params_ctor\<lparr>pr_is_vortex := True, pr_ewma_periods := 13, pr_symbols := [sy]\<rparr>) ?s = Inr im"
    "gSymbols e = [(?s, TimeStats_ctor, im)]" "\<not> gTimer_active e"
    using engine_started [OF assms(2)] by auto
  then have "vortex_manages (HcVortex_ctor 13) [] False im"
    by (auto simp: IndicatorManager_ctor_def configure_indicators_def Params_ctor_def vortex_manages_def log_ok_ctor)
  then have at: "vortex_only.hc_at ?s (TimeStats_ctor, False) (HcVortex_ctor 13) [] e"
    unfolding vortex_only.hc_at_def using im(2,3) by simp
  from vortex_only.hc_run_start [OF at can assms(3-5)] obtain outs v' st' where
    hc: "\<forall>tsc dg. Trade tsc dg \<in> set evs \<longrightarrow> parses (click_packet dg)"
      "run_ops vortex_step (vortex_begin (HcVortex_ctor 13) (hc_bar x0)) (hc_inputs xs) = Inr (outs, v')"
      "vortex_only.hc_at ?s st' v' (vortex_only.all_vals xs outs) e'" by blast
  note shape = sources_shape [OF assms(5,3,6)]
  obtain net1 where net1: "router_run vortex_wiring (sm_tsc x0) vortex_opt [(V_tstamp, 0, source_packet x0)] = Some (Inr net1)"
    "vortex_follows (stamp_of x0) (hc_bar x0, []) [] net1"
    by (rule vortex_follows_init [OF shape(1)])
  let ?log = "map2 carry xs (map snd outs)"
  obtain net' where net': "feed vortex_wiring V_tstamp net1 xs = Some (Inr net')" "net' V_stats = Sink ?log"
    using vortex_follows_run [OF net1(2) shape(2) assms(7) vortex_begin_ok hc(2)] by auto
  obtain tp' where run: "click_run vortex_wiring V_tstamp (tp, vortex_opt) evs = Some (Inr (tp', net'))"
    using click_from_sources [OF assms(1,3) hc(1) assms(5) net1(1) net'(1)] by blast
  obtain t im' where im': "gSymbols e' = [(?s, t, im')]" "log_ok 10000 (vortex_only.all_vals xs outs) im'"
    using hc(3) by (auto simp: vortex_only.hc_at_def vortex_manages_def)
  have len: "length outs = length xs" using run_ops_length [OF hc(2)] by simp
  obtain ups where "length ups = length (update_values ?log)"
    "vortex_only.all_vals xs outs = concat (map2 (\<lambda>up down. [up, down]) ups (update_values ?log))"
    using paired_values [OF len] update_values_carry [OF shape(3), of "map snd outs"]
    by (auto simp: vortex_only.all_vals_def)
  with run net'(2) im' len dtor_log [OF im'(2)] show ?thesis
    by (fastforce simp: s_all_values_size_def)
qed


lemma early_values:
  assumes "length outs = length us + 1" and "list_all provisional us" and "\<not> provisional a"
  shows "concat (map2 (\<lambda>x r. if provisional x then [r] else []) (us @ a # xs) (outs @ outs')) =
    take (length us) outs @ concat (map2 (\<lambda>x r. if provisional x then [r] else []) xs outs')"
  using assms(1,2)
proof (induction us arbitrary: outs)
  case Nil
  then show ?case using assms(3) by (cases outs) auto
next
  case (Cons u us)
  then show ?case by (cases outs) auto
qed

lemma run_trix_steps: "run_ops hc_trix_step t (hc_inputs xs) = run_ops trix_step t xs"
proof (induction xs arbitrary: t)
  case (Cons x xs)
  have "hc_trix_step t (hc_type x, hc_bar x) = trix_step t x" by (simp add: hc_trix_step_def trix_step_def hc_bar_def)
  with Cons show ?case by simp
qed simp

text \<open>
  Property C7. The two programs compute the same TRIX from the first full interval on. With the graph of trix_opt.click, under the same
  conditions as for the directional movement index, the values that the hand-coded program prints at its end are,
  after one per update of the first interval, the values of the updates that arrived at the end of the graph after
  the first addition, in their order, up to the 9999 its log has room for. In the first interval
  the element and the hand-coded object use different formulas.
\<close>

theorem programs_agree_on_trix:
  assumes "tp_configure interval [sy, [48]] (TradeProcessor_ctor 1) = Inr (rc, tp)" and "trix_opt = Inr net"
    and "engine_start (Params_ctor\<lparr>pr_is_trix := True, pr_ewma_periods := 13, pr_symbols := [sy]\<rparr>) = Inr e"
    and "list_all event_ok evs" and "iter_res hc_event e evs = Inr e'"
    and "sources (aw_assign_str sy) (TimeStats_ctor, False) evs = x0 # us @ a # xs"
    and "sorted_wrt (<) (0 # map stamp_of (x0 # us @ a # xs))" and "list_all provisional us" and "\<not> provisional a"
  shows "\<exists>tp' net' log t im early stats. click_run trix_wiring T_tstamp (tp, net) evs = Some (Inr (tp', net')) \<and>
    net' T_stats = Sink log \<and> length log = length us + 2 + length xs \<and> gSymbols e' = [(aw_assign_str sy, t, im)] \<and>
    length early = length us \<and>
    IndicatorManager_dtor im = Inr (take 9999 (early @ update_values (drop (length us + 2) log)), stats)"
proof -
  let ?s = "aw_assign_str sy"
  have can: "canonical ?s" by (rule canonical_assign_str)
  obtain im d where im: "HcTrix_ctor 13 = Inr d" "gSymbols e = [(?s, TimeStats_ctor, im)]" "trix_manages d [] False im" "\<not> gTimer_active e"
    using engine_started [OF assms(3)]
    by (auto simp: IndicatorManager_ctor_def configure_indicators_def Params_ctor_def trix_manages_def bnd_eq_Inr log_ok_ctor)
  then have at: "trix_only.hc_at ?s (TimeStats_ctor, False) d [] e"
    unfolding trix_only.hc_at_def by simp
  from trix_only.hc_run_start [OF at can assms(4-6)] obtain outs d' st' where
    hc: "\<forall>tsc dg. Trade tsc dg \<in> set evs \<longrightarrow> parses (click_packet dg)"
      "run_ops trix_step (trix_begin d (hc_bar x0)) ((us @ [a]) @ xs) = Inr (outs, d')"
      "trix_only.hc_at ?s st' d' (trix_only.all_vals ((us @ [a]) @ xs) outs) e'"
    unfolding run_trix_steps by auto
  obtain outs0 d1 outs1 where run: "run_ops trix_step (trix_begin d (hc_bar x0)) (us @ [a]) = Inr (outs0, d1)"
    "run_ops trix_step d1 xs = Inr (outs1, d')" "outs = outs0 @ outs1"
    using hc(2) unfolding run_ops_append by (auto simp: bnd_eq_Inr)
  note shape = sources_shape [OF assms(6,4,7)]
  obtain net1 y where net1: "router_run trix_wiring (sm_tsc x0) net [(T_tstamp, 0, source_packet x0)] = Some (Inr net1)"
    "trix_follows False (stamp_of x0) (trix_begin d (hc_bar x0)) [carry x0 y] net1"
    using trix_follows_init [OF assms(2) im(1) shape(1)] by (auto simp: trix_begin_def hc_bar_def)
  obtain net2 log' where net2: "feed trix_wiring T_tstamp net1 (us @ a # xs) = feed trix_wiring T_tstamp net2 xs"
    "trix_follows True (stamp_of a) d1 ([carry x0 y] @ log') net2" "length log' = length us + 1" "later (stamp_of a) xs"
    using trix_follows_start [OF net1(2) shape(2) assms(8,9) run(1)] by blast
  let ?log = "([carry x0 y] @ log') @ map2 carry xs outs1"
  obtain net' where net': "feed trix_wiring T_tstamp net2 xs = Some (Inr net')" "net' T_stats = Sink ?log"
    using trix_follows_run [OF net2(2,4) run(2)] by blast
  obtain tp' where click: "click_run trix_wiring T_tstamp (tp, net) evs = Some (Inr (tp', net'))"
    using click_from_sources [OF assms(1,4) hc(1) assms(6) net1(1)] net2(1) net'(1) by auto
  have len: "length outs0 = length us + 1" "length outs1 = length xs"
    using run_ops_length [OF run(1)] run_ops_length [OF run(2)] by simp_all
  have all: "trix_only.all_vals ((us @ [a]) @ xs) outs = take (length us) outs0 @ update_values (drop (length us + 2) ?log)"
    using len early_values [OF len(1) assms(8,9)] update_values_carry [of xs outs1] shape(3) net2(3)
    by (simp add: trix_only.all_vals_def run(3))
  obtain t im' where im': "gSymbols e' = [(?s, t, im')]" "log_ok 9999 (trix_only.all_vals ((us @ [a]) @ xs) outs) im'"
    using hc(3) by (auto simp: trix_only.hc_at_def trix_manages_def)
  have "IndicatorManager_dtor im' = Inr (take 9999 (take (length us) outs0 @ update_values (drop (length us + 2) ?log)),
      get_running_stats (im_running_stats im'))"
    using dtor_log [OF im'(2)] unfolding all by (simp add: s_all_values_size_def)
  moreover have "length ?log = length us + 2 + length xs" "length (take (length us) outs0) = length us" using len net2(3) by simp_all
  ultimately show ?thesis using click net'(2) im'(1) by blast
qed



section \<open>A run of each\<close>

text \<open>Two trades of symbol A.\<close>

abbreviation price_77 :: fixedpt where "price_77 \<equiv> word_of_int (77 * 2 ^ 40)"
abbreviation price_99 :: fixedpt where "price_99 \<equiv> word_of_int (99 * 2 ^ 40)"

definition quote_77 :: datagram where "quote_77 = quote 1 55 55"
definition quote_99 :: datagram where "quote_99 = quote 3 57 57"

lemma quotes_parsed:
  "populate_msg_trade MsgTrade_ctor (pdata (click_packet quote_77)) = Inr (Some (deal 1 price_77))"
  "populate_msg_trade MsgTrade_ctor (pdata (click_packet quote_99)) = Inr (Some (deal 3 price_99))"
  using quote_parsed [of 55 55 1] quote_parsed [of 57 57 3]
  by (simp_all add: quote_77_def quote_99_def is_digit_def digits_val_def fixedpt_fromint_int)

lemma quotes_ok: "event_ok (Trade tsc quote_77)" "event_ok (Trade tsc quote_99)"
  using quote_ok by (simp_all add: quote_77_def quote_99_def) (simp_all add: quote_def trade_text_def)

text \<open>Two trades: the first starts the indicator, the second updates it.\<close>

lemma two_trades_sources:
  "\<exists>x0 x1. sources (aw_assign_str [65]) (TimeStats_ctor, False) [Trade 2 quote_77, Trade 5 quote_99] = [x0, x1] \<and>
     stamp_of x0 = 1 \<and> stamp_of x1 = 5 \<and> provisional x1 \<and> hc_bar x0 = (fromC price_77, fromC price_77, fromC price_77) \<and>
     hc_bar x1 = (fromC price_99, fromC price_99, fromC price_77)"
  using quotes_parsed
  by (simp add: trade_of_def deal_def update_stats_def TimeStats_ctor_def Let_def stamp_of_def provisional_def hc_bar_def
      source_of_def word_sless_alt)

lemma two_trades_engine:
  assumes "gSymbols e = [(aw_assign_str [65], TimeStats_ctor, im)]" and "\<not> im_initialized im"
    and "emit_update 5 (initialize_indicators im (fromC price_77) (fromC price_77) (fromInt 0) (fromC price_77)) (gADLine e)
      (fromC price_99) (fromC price_77) (fromInt 0) (fromC price_99) 3 = Inr (im', a')"
  shows "\<exists>e'. iter_res hc_event e [Trade 2 quote_77, Trade 5 quote_99] = Inr e'"
proof -
  have ok: "datagram_ok quote_77" "datagram_ok quote_99" using quotes_ok by auto
  have eq: "aw_eq (aw_assign_str [65]) (aw_assign_str [65])" by (simp add: aw_eq_def)
  show ?thesis
    using assms eq quotes_parsed
    by (simp add: receive_def udp_read_cb_def received [OF ok(1)] received [OF ok(2)] trade_of_received [OF ok(1)] trade_of_received [OF ok(2)] umap_find_def umap_store_def
        deal_def update_hloc_def TimeStats_ctor_def Let_def word_sless_alt)
qed

lemma tp_configured: "\<exists>tp. tp_configure None [[65], [48]] (TradeProcessor_ctor 1) = Inr (0, tp)"
proof -
  have z: "strtol [48, 0] = Inr 0" using strtol_digits [of "[48]" "[]"] by (simp add: is_digit_def digits_val_def)
  have m: "sym_inv (HashMap_ctor (0 :: int))" by (rule hm_inv_ctor)
  obtain m' where m': "hm_insert aw_hashcode aw_eq (HashMap_ctor (0 :: int)) (aw_assign_str [65]) 0 = Inr (True, m')"
    using symbol_key.hm_insert_abs [OF m canonical_assign_str, of "[65]" 0] by auto
  with z show ?thesis by (auto simp: tp_configure_def TradeProcessor_ctor_def Let_def)
qed


lemma engine_starts:
  assumes "IndicatorManager_ctor pars (aw_assign_str [65]) = Inr im" and "pr_symbols pars = [[65]]"
  shows "engine_start pars = Inr \<lparr>gSymbols = [(aw_assign_str [65], TimeStats_ctor, im)], gTimer_active = False, gADLine = ADLine_ctor\<rparr>"
  using assms
  by (simp add: engine_start_def insert_symbol_def umap_insert_def aw_assign_str_def cstr_def ORDER_SYMBOL_LEN_def Let_def)

text \<open>The first value a manager logs.\<close>

lemma log_at_ok: "i < length xs \<Longrightarrow> \<exists>ys. log_at xs i r = Inr ys \<and> length ys = length xs"
  by (cases r) (auto simp: log_at_def arr_set_def)

lemma first_log:
  assumes "length (im_all_values im) = s_all_values_size" and "im_all_values_counter im = 0"
  shows "\<exists>im'. log_results im rt rd rv ra = Inr im'"
proof -
  define n' where "n' = (if rv = None then 0 else 1 :: nat)"
  have n: "0 < s_all_values_size" "n' < s_all_values_size" by (simp_all add: s_all_values_size_def n'_def)
  obtain v1 where v1: "log_at (im_all_values im) 0 rt = Inr v1" "length v1 = s_all_values_size" using log_at_ok n assms(1) by metis
  obtain v2 where v2: "log_at v1 0 rd = Inr v2" "length v2 = s_all_values_size" using log_at_ok n v1(2) by metis
  obtain v3 where v3: "log_at v2 0 (map_option fst rv) = Inr v3" "length v3 = s_all_values_size" using log_at_ok n v2(2) by metis
  obtain v4 where v4: "log_at v3 n' (map_option snd rv) = Inr v4" "length v4 = s_all_values_size" using log_at_ok n v3(2) by metis
  obtain v5 where "log_at v4 n' ra = Inr v5" using log_at_ok n v4(2) by metis
  with v1 v2 v3 v4 assms(2) show ?thesis
    by (cases rv) (simp_all add: log_results_def Let_def n'_def s_all_values_size_def)
qed

lemma first_log_then:
  assumes "length (im_all_values im) = s_all_values_size" and "im_all_values_counter im = 0"
  shows "\<exists>im' a'. bnd (log_results im rt rd rv ra) (\<lambda>im5. Inr (f im5, a)) = Inr (im', a')"
  using first_log [OF assms, of rt rd rv ra] by auto

text \<open>A directional movement: both ratios at the second trade.\<close>

lemma dmi_two_trades:
  "\<exists>d. HcDmi_ctor 13 = Inr d \<and>
     directed_run (dmi_begin d (fromC price_77, fromC price_77, fromC price_77)) [(UPDATE, fromC price_99, fromC price_99, fromC price_77)]"
proof -
  have "case HcDmi_ctor 13 of Inl _ \<Rightarrow> False | Inr d \<Rightarrow>
      directed_run (dmi_begin d (fromC price_77, fromC price_77, fromC price_77)) [(UPDATE, fromC price_99, fromC price_99, fromC price_77)]"
    by (simp add: HcDmi_ctor_def dmi_begin_def dmi_initialize_def directed_def
        dmi_indices_def dmi_step_def dmi_calculate_value_def hc_calculate_pdm_def hc_calculate_ndm_def hc_calculate_tr_def hc_max_def
        Let_def ewma_eval fixed_eval fp_lt_def fp_gt_def fpt_abs_def getC_def word_sless_alt)
  then show ?thesis by (simp split: sum.splits del: directed_run.simps)
qed

theorem programs_agree_on_dmi_witness:
  "\<exists>tp net e e' tp' net' log t im stats. tp_configure None [[65], [48]] (TradeProcessor_ctor 1) = Inr (0, tp) \<and> dmi_opt = Inr net \<and>
     engine_start (Params_ctor\<lparr>pr_is_dmi := True, pr_ewma_periods := 13, pr_symbols := [[65]]\<rparr>) = Inr e \<and>
     iter_res hc_event e [Trade 2 quote_77, Trade 5 quote_99] = Inr e' \<and>
     click_run dmi_wiring D_tstamp (tp, net) [Trade 2 quote_77, Trade 5 quote_99] = Some (Inr (tp', net')) \<and>
     net' D_stats = Sink log \<and> length log = 1 \<and> gSymbols e' = [(aw_assign_str [65], t, im)] \<and>
     IndicatorManager_dtor im = Inr (take 9999 (update_values log), stats)"
proof -
  let ?evs = "[Trade 2 quote_77, Trade 5 quote_99]" and ?s = "aw_assign_str [65]"
  let ?p = "Params_ctor\<lparr>pr_is_dmi := True, pr_ewma_periods := 13, pr_symbols := [[65]]\<rparr>"
  obtain tp where tp: "tp_configure None [[65], [48]] (TradeProcessor_ctor 1) = Inr (0, tp)" using tp_configured by blast
  obtain d where d: "HcDmi_ctor 13 = Inr d"
    "directed_run (dmi_begin d (fromC price_77, fromC price_77, fromC price_77)) [(UPDATE, fromC price_99, fromC price_99, fromC price_77)]"
    using dmi_two_trades by blast
  then obtain net where net: "dmi_opt = Inr net"
    by (auto simp: dmi_opt_def HcDmi_ctor_def Ewma_alpha_def Let_def bnd_eq_Inr)
  obtain im where im: "IndicatorManager_ctor ?p ?s = Inr im" "dmi_manages d [] False im"
    "length (im_all_values im) = s_all_values_size" "im_all_values_counter im = 0"
    using d(1) by (auto simp: IndicatorManager_ctor_def configure_indicators_def Params_ctor_def dmi_manages_def log_ok_ctor)
  obtain e where e: "engine_start ?p = Inr e" "gSymbols e = [(?s, TimeStats_ctor, im)]" using engine_starts [OF im(1)] by simp
  have "\<exists>im' a'. emit_update 5 (initialize_indicators im (fromC price_77) (fromC price_77) (fromInt 0) (fromC price_77)) (gADLine e)
      (fromC price_99) (fromC price_77) (fromInt 0) (fromC price_99) 3 = Inr (im', a')"
    using d(2) im(2-)
    by (auto simp: dmi_manages_def manager_simps dmi_begin_def dmi_step_def first_log_then split: sum.splits)
  then obtain e' where e': "iter_res hc_event e ?evs = Inr e'"
    using two_trades_engine [OF e(2)] im(2) by (auto simp: dmi_manages_def simp del: iter_res.simps)
  obtain x0 x1 where x: "sources ?s (TimeStats_ctor, False) ?evs = [x0, x1]" "stamp_of x0 = 1" "stamp_of x1 = 5" "provisional x1"
    "hc_bar x0 = (fromC price_77, fromC price_77, fromC price_77)" "hc_bar x1 = (fromC price_99, fromC price_99, fromC price_77)"
    using two_trades_sources by blast
  have "list_all event_ok ?evs" using quotes_ok by simp
  moreover have "directed_run (dmi_begin d (hc_bar x0)) (hc_inputs [x1])" using d(2) x by (simp add: hc_type_def)
  moreover have "sorted_wrt (<) (0 # map stamp_of [x0, x1])" using x by simp
  ultimately show ?thesis
    using programs_agree_on_dmi [OF tp net e(1) _ e' x(1) _ d(1)] tp net e(1) e' by (simp del: iter_res.simps click_run.simps) blast
qed


lemma vortex_movement:
  "movement (fromC price_77, fromC price_77, fromC price_77) (fromC price_99, fromC price_99, fromC price_77) =
   (fromC (word_of_int (22 * 2 ^ 40)), fromC 0, fromC (word_of_int (22 * 2 ^ 40)))"
  by (simp add: hc_max_def FixedPt_defs word_sless_alt)

lemma vortex_two_trades:
  "\<exists>out v'. vortex_step (vortex_begin (HcVortex_ctor 13) (fromC price_77, fromC price_77, fromC price_77)) (UPDATE, fromC price_99, fromC price_99, fromC price_77) =
     Inr (out, v')"
proof -
  define v where "v = vortex_begin (HcVortex_ctor 13) (fromC price_77, fromC price_77, fromC price_77)"
  have ok: "vx_ok 12 v ((fromC price_77, fromC price_77, fromC price_77), [])" unfolding v_def by (rule vortex_begin_ok)
  have twelve: "0 < (12 :: nat)" by simp
  let ?m = "fromC (word_of_int (22 * 2 ^ 40))"
  obtain v1 where v1: "vortex_push v ?m (fromC 0) ?m = Inr v1" "vx_ok 12 v1 ((fromC price_77, fromC price_77, fromC price_77), [(?m, fromC 0, ?m)])"
    by (rule vx_push [OF ok twelve]) simp
  have tot: "fp_plus (get_total_sum (vx_tr_sum v1)) ?m = fp_plus (fp_sum [?m]) ?m"
    using v1(2) sums_total [of _ 12 "[?m]" ?m] by (simp add: vx_ok_def window_def fp_sum_def)
  have nz: "fp_value (fp_plus (fp_sum [?m]) ?m) \<noteq> 0" by (simp add: fp_sum_def FixedPt_defs)
  have q: "\<exists>q. fp_divide x (fp_plus (get_total_sum (vx_tr_sum v1)) ?m) = Inr q" for x
    unfolding tot using fp_divide_ok [OF nz, of x] by blast
  have prev: "vx_prev_close v = fromC price_77" "vx_prev_high v = fromC price_77" "vx_prev_low v = fromC price_77"
    by (simp_all add: v_def vortex_begin_def vortex_initialize_def)
  have i: "\<not> sr_initialized (vx_vmu_sum v)" using ok by (simp add: vx_ok_def sums_def)
  obtain p q where "fp_divide (fp_plus (get_total_sum (vx_vmu_sum v1)) ?m) (fp_plus (get_total_sum (vx_tr_sum v1)) ?m) = Inr p"
    "fp_divide (fp_plus (get_total_sum (vx_vmd_sum v1)) (fromC 0)) (fp_plus (get_total_sum (vx_tr_sum v1)) ?m) = Inr q"
    using q by metis
  with v1(1) i vortex_movement show ?thesis
    unfolding v_def [symmetric] by (simp add: vortex_step_def vortex_calculate_value_def Let_def prev)
qed

theorem programs_agree_on_vortex_witness:
  "\<exists>tp e e' tp' net' log t im ups stats. tp_configure None [[65], [48]] (TradeProcessor_ctor 1) = Inr (0, tp) \<and>
     engine_start (Params_ctor\<lparr>pr_is_vortex := True, pr_ewma_periods := 13, pr_symbols := [[65]]\<rparr>) = Inr e \<and>
     iter_res hc_event e [Trade 2 quote_77, Trade 5 quote_99] = Inr e' \<and>
     click_run vortex_wiring V_tstamp (tp, vortex_opt) [Trade 2 quote_77, Trade 5 quote_99] = Some (Inr (tp', net')) \<and>
     net' V_stats = Sink log \<and> length log = 1 \<and> gSymbols e' = [(aw_assign_str [65], t, im)] \<and>
     length ups = length (update_values log) \<and>
     IndicatorManager_dtor im = Inr (take 10000 (concat (map2 (\<lambda>up down. [up, down]) ups (update_values log))), stats)"
proof -
  let ?evs = "[Trade 2 quote_77, Trade 5 quote_99]" and ?s = "aw_assign_str [65]"
  let ?p = "Params_ctor\<lparr>pr_is_vortex := True, pr_ewma_periods := 13, pr_symbols := [[65]]\<rparr>"
  obtain tp where tp: "tp_configure None [[65], [48]] (TradeProcessor_ctor 1) = Inr (0, tp)" using tp_configured by blast
  obtain im where im: "IndicatorManager_ctor ?p ?s = Inr im" "vortex_manages (HcVortex_ctor 13) [] False im"
    "length (im_all_values im) = s_all_values_size" "im_all_values_counter im = 0"
    by (auto simp: IndicatorManager_ctor_def configure_indicators_def Params_ctor_def vortex_manages_def log_ok_ctor)
  obtain e where e: "engine_start ?p = Inr e" "gSymbols e = [(?s, TimeStats_ctor, im)]" using engine_starts [OF im(1)] by simp
  obtain out v' where "vortex_step (vortex_begin (HcVortex_ctor 13) (fromC price_77, fromC price_77, fromC price_77))
      (UPDATE, fromC price_99, fromC price_99, fromC price_77) = Inr (out, v')" using vortex_two_trades by blast
  then have "\<exists>im' a'. emit_update 5 (initialize_indicators im (fromC price_77) (fromC price_77) (fromInt 0) (fromC price_77)) (gADLine e)
      (fromC price_99) (fromC price_77) (fromInt 0) (fromC price_99) 3 = Inr (im', a')"
    using im(2-) by (auto simp: vortex_manages_def manager_simps vortex_begin_def vortex_step_def first_log_then)
  then obtain e' where e': "iter_res hc_event e ?evs = Inr e'"
    using two_trades_engine [OF e(2)] im(2) by (auto simp: vortex_manages_def simp del: iter_res.simps)
  obtain x0 x1 where x: "sources ?s (TimeStats_ctor, False) ?evs = [x0, x1]" "stamp_of x0 = 1" "stamp_of x1 = 5" "provisional x1"
    "hc_bar x0 = (fromC price_77, fromC price_77, fromC price_77)" "hc_bar x1 = (fromC price_99, fromC price_99, fromC price_77)"
    using two_trades_sources by blast
  have "list_all event_ok ?evs" using quotes_ok by simp
  moreover have "first_doubles (hc_bar x0, []) [x1]"
    unfolding first_doubles_def fst_conv snd_conv list.case x(5,6) vortex_movement
    by (simp add: doubles_def fromC_def)
  moreover have "sorted_wrt (<) (0 # map stamp_of [x0, x1])" using x by simp
  ultimately show ?thesis
    using programs_agree_on_vortex [OF tp e(1) _ e' x(1)] tp e(1) e' by (simp del: iter_res.simps click_run.simps)
qed


text \<open>A trade, the end of the interval, a trade in the next one.\<close>

lemma two_intervals_sources:
  "\<exists>x0 a x1. sources (aw_assign_str [65]) (TimeStats_ctor, False) [Trade 2 quote_77, Timer 4 0, Trade 6 quote_99] = [x0, a, x1] \<and>
     stamp_of x0 = 1 \<and> stamp_of a = 4 \<and> stamp_of x1 = 6 \<and> \<not> provisional a"
  using quotes_parsed
  by (simp add: trade_of_def deal_def update_stats_def TimeStats_ctor_def rollover_def Let_def stamp_of_def provisional_def)

lemma two_intervals_engine:
  assumes "gSymbols e = [(aw_assign_str [65], TimeStats_ctor, im)]" and "\<not> im_initialized im"
    and "emit_add (initialize_indicators im (fromC price_77) (fromC price_77) (fromInt 0) (fromC price_77)) (gADLine e)
      (fromC price_77) (fromC price_77) (fromInt 0) (fromC price_77) = Inr (im1, a1)" and "im_initialized im1"
    and "emit_update 6 im1 a1 (fromC price_99) (fromC price_99) (fromInt 0) (fromC price_99) 3 = Inr (im', a')"
  shows "\<exists>e'. iter_res hc_event e [Trade 2 quote_77, Timer 4 0, Trade 6 quote_99] = Inr e'"
proof -
  have ok: "datagram_ok quote_77" "datagram_ok quote_99" using quotes_ok by auto
  have eq: "aw_eq (aw_assign_str [65]) (aw_assign_str [65])" by (simp add: aw_eq_def)
  show ?thesis
    using assms eq quotes_parsed
    by (simp add: receive_def udp_read_cb_def received [OF ok(1)] received [OF ok(2)] trade_of_received [OF ok(1)] trade_of_received [OF ok(2)]
        umap_find_def umap_store_def deal_def update_hloc_def TimeStats_ctor_def Let_def on_timer_cb_def timer_symbol_def rollover_def)
qed

lemma trix_two_intervals:
  "\<exists>t r t1 r' t2. HcTrix_ctor 13 = Inr t \<and> trix_calculate_value (trix_initialize t (fromC price_77)) (fromC price_77) ADD = Inr (r, t1) \<and>
     trix_calculate_value t1 (fromC price_99) UPDATE = Inr (r', t2)"
proof -
  have "case HcTrix_ctor 13 of Inl _ \<Rightarrow> False | Inr t \<Rightarrow>
      (case trix_calculate_value (trix_initialize t (fromC price_77)) (fromC price_77) ADD of Inl _ \<Rightarrow> False
       | Inr r \<Rightarrow> (case trix_calculate_value (snd r) (fromC price_99) UPDATE of Inl _ \<Rightarrow> False | Inr _ \<Rightarrow> True))"
    by (simp add: HcTrix_ctor_def trix_initialize_def trix_calculate_value_def Let_def ewma_eval fixed_eval)
  then show ?thesis by (auto split: sum.splits)
qed

theorem programs_agree_on_trix_witness:
  "\<exists>tp net e e' tp' net' log t im stats. tp_configure None [[65], [48]] (TradeProcessor_ctor 1) = Inr (0, tp) \<and> trix_opt = Inr net \<and>
     engine_start (Params_ctor\<lparr>pr_is_trix := True, pr_ewma_periods := 13, pr_symbols := [[65]]\<rparr>) = Inr e \<and>
     iter_res hc_event e [Trade 2 quote_77, Timer 4 0, Trade 6 quote_99] = Inr e' \<and>
     click_run trix_wiring T_tstamp (tp, net) [Trade 2 quote_77, Timer 4 0, Trade 6 quote_99] = Some (Inr (tp', net')) \<and>
     net' T_stats = Sink log \<and> length log = 3 \<and> gSymbols e' = [(aw_assign_str [65], t, im)] \<and>
     IndicatorManager_dtor im = Inr (take 9999 (update_values (drop 2 log)), stats)"
proof -
  let ?evs = "[Trade 2 quote_77, Timer 4 0, Trade 6 quote_99]" and ?s = "aw_assign_str [65]"
  let ?p = "Params_ctor\<lparr>pr_is_trix := True, pr_ewma_periods := 13, pr_symbols := [[65]]\<rparr>"
  obtain tp where tp: "tp_configure None [[65], [48]] (TradeProcessor_ctor 1) = Inr (0, tp)" using tp_configured by blast
  obtain t r t1 r' t2 where t: "HcTrix_ctor 13 = Inr t" "trix_calculate_value (trix_initialize t (fromC price_77)) (fromC price_77) ADD = Inr (r, t1)"
    "trix_calculate_value t1 (fromC price_99) UPDATE = Inr (r', t2)" using trix_two_intervals by blast
  obtain net where net: "trix_opt = Inr net"
    using t(1) by (auto simp: trix_opt_def HcTrix_ctor_def Ewma_alpha_def Let_def bnd_eq_Inr)
  obtain im where im: "IndicatorManager_ctor ?p ?s = Inr im" "trix_manages t [] False im"
    "length (im_all_values im) = s_all_values_size" "im_all_values_counter im = 0"
    using t(1) by (auto simp: IndicatorManager_ctor_def configure_indicators_def Params_ctor_def trix_manages_def log_ok_ctor)
  obtain e where e: "engine_start ?p = Inr e" "gSymbols e = [(?s, TimeStats_ctor, im)]" using engine_starts [OF im(1)] by simp
  let ?im1 = "(initialize_indicators im (fromC price_77) (fromC price_77) (fromInt 0) (fromC price_77))\<lparr>im_trix := Some t1\<rparr>"
  have add: "emit_add (initialize_indicators im (fromC price_77) (fromC price_77) (fromInt 0) (fromC price_77)) (gADLine e)
      (fromC price_77) (fromC price_77) (fromInt 0) (fromC price_77) = Inr (?im1, gADLine e)" "im_initialized ?im1"
    using t(2) im(2) by (simp_all add: trix_manages_def manager_simps)
  have "\<exists>im' a'. emit_update 6 ?im1 (gADLine e) (fromC price_99) (fromC price_99) (fromInt 0) (fromC price_99) 3 = Inr (im', a')"
    using t(3) im(2-) by (auto simp: trix_manages_def manager_simps first_log_then)
  then obtain e' where e': "iter_res hc_event e ?evs = Inr e'"
    using two_intervals_engine [OF e(2) _ add] im(2) by (auto simp: trix_manages_def simp del: iter_res.simps)
  obtain x0 a x1 where x: "sources ?s (TimeStats_ctor, False) ?evs = x0 # [] @ a # [x1]" "stamp_of x0 = 1" "stamp_of a = 4" "stamp_of x1 = 6"
    "\<not> provisional a"
    using two_intervals_sources by auto
  have "list_all event_ok ?evs" using quotes_ok by simp
  moreover have "sorted_wrt (<) (0 # map stamp_of (x0 # [] @ a # [x1]))" using x by simp
  ultimately show ?thesis
    using programs_agree_on_trix [OF tp net e(1) _ e' x(1)] x(5) tp net e(1) e'
    by (simp del: iter_res.simps click_run.simps add: numeral_2_eq_2 numeral_3_eq_3) blast
qed

end
