(* ===== verification/Router_Safety.thy ===== *)
theory Router_Safety
  imports Click_Graph "HOL-Library.Multiset"
begin

text \<open>
  What holds of the three graphs for packets in any order and elements in any state: the router always
  comes to the end of its work, and no element is handed a packet of the wrong kind. Both rest on two laws of
  the connections, that they lead forward and that they join outputs and inputs of the same kind.
\<close>

section \<open>Kinds of packets\<close>

datatype kind = SourceKind | ValueKind

primrec of_kind :: "kind \<Rightarrow> Packet \<Rightarrow> bool" where
  "of_kind SourceKind p \<longleftrightarrow>
     packet_app_type p \<in> {MSG_ADD_SOURCE, MSG_UPDATE_SOURCE, MSG_INIT_SOURCE} \<and> sizeof_MsgSource \<le> length (pdata p)"
| "of_kind ValueKind p \<longleftrightarrow>
     packet_app_type p \<in> {MSG_ADD, MSG_UPDATE, MSG_INIT} \<and> sizeof_MsgValue \<le> length (pdata p)"

primrec accepts :: "element \<Rightarrow> kind" where
  "accepts (Indicator ops ib) = ValueKind"
| "accepts (Split n ss) = SourceKind"
| "accepts (Tee n) = ValueKind"
| "accepts (Stamp t) = SourceKind"
| "accepts (Sink log) = ValueKind"

primrec emits :: "element \<Rightarrow> kind" where
  "emits (Indicator ops ib) = ValueKind"
| "emits (Split n ss) = ValueKind"
| "emits (Tee n) = ValueKind"
| "emits (Stamp t) = SourceKind"
| "emits (Sink log) = ValueKind"

definition sends_kind :: "kind \<Rightarrow> action list \<Rightarrow> bool" where
  "sends_kind k acts \<longleftrightarrow> (\<forall>i q. PushOut i q \<in> set acts \<longrightarrow> of_kind k q)"

lemma sends_kind_simps [simp]:
  "sends_kind k []" "sends_kind k (KillPkt p # acts) \<longleftrightarrow> sends_kind k acts"
  "sends_kind k (PushOut i p # acts) \<longleftrightarrow> of_kind k p \<and> sends_kind k acts"
  "sends_kind k (acts @ acts') \<longleftrightarrow> sends_kind k acts \<and> sends_kind k acts'"
  by (auto simp: sends_kind_def)

lemma checked_output_push_kind: "of_kind k p \<Longrightarrow> sends_kind k [checked_output_push n i p]"
  by (simp add: checked_output_push_def)

lemma send_msg_value_kind: "of_kind ValueKind p \<Longrightarrow> t = packet_app_type p \<Longrightarrow> sends_kind ValueKind [send_msg_value n p v ts t]"
  by (auto simp: send_msg_value_def checked_output_push_def discard_packet_def set_packet_app_type_def overwrite_def)

lemma sendMsg_kind:
  "of_kind SourceKind p \<Longrightarrow> t = packet_app_type p \<Longrightarrow> sends_kind ValueKind [sendMsg n p i v ts t]"
  by (auto simp: sendMsg_def checked_output_push_def discard_packet_def set_packet_app_type_def overwrite_def split_type_def)

lemma push_answers:
  assumes "push_init ops ib m i p = Inr (a, ib') \<or> push_naive ops ib m i p = Inr (a, ib') \<or>
    push_startup ops ib m i p = Inr (a, ib') \<or> push_normal ops ib m i p = Inr (a, ib')"
  shows "a = KillPkt p \<or> (\<exists>v. a = send_msg_value (noutputs ib) p v (mv_timestamp m) (packet_app_type p))"
  using assms
proof (elim disjE)
  assume "push_init ops ib m i p = Inr (a, ib')"
  then show ?thesis
    by (auto simp: push_init_def bnd_eq_Inr Let_def get_packet_app_type_def discard_packet_def split: if_splits)
next
  assume "push_naive ops ib m i p = Inr (a, ib')"
  then show ?thesis
    by (auto simp: push_naive_def bnd_eq_Inr Let_def get_packet_app_type_def discard_packet_def split: if_splits)
next
  assume "push_startup ops ib m i p = Inr (a, ib')"
  then show ?thesis
    by (auto simp: push_startup_def bnd_eq_Inr Let_def get_packet_app_type_def discard_packet_def split: if_splits)
next
  assume "push_normal ops ib m i p = Inr (a, ib')"
  then show ?thesis
    by (auto simp: push_normal_def bnd_eq_Inr Let_def get_packet_app_type_def discard_packet_def split: if_splits)
qed

lemma ib_push_kind:
  assumes "of_kind ValueKind p" and "ib_push ops ib (i, p) = Inr (a, ib')"
  shows "sends_kind ValueKind [a]"
proof -
  have "a = KillPkt p \<or> a = checked_output_push (noutputs ib) 0 p \<or>
      (\<exists>v ts. a = send_msg_value (noutputs ib) p v ts (packet_app_type p))"
    using assms(2) push_answers [of ops ib _ i p a ib'] unfolding ib_push_def
    by (auto simp: bnd_eq_Inr split: if_splits OpMode.splits)
  with checked_output_push_kind [OF assms(1)] send_msg_value_kind [OF assms(1) refl] show ?thesis
    by (elim disjE exE) simp_all
qed

lemma ss_push_kind:
  assumes "of_kind SourceKind p" and "ss_push n ss p = Inr acts"
  shows "sends_kind ValueKind acts"
proof -
  have send: "sends_kind ValueKind (if - 1 < i then [sendMsg n p i v ts (packet_app_type p)] else [])" for i v ts
    using sendMsg_kind [OF assms(1) refl] by simp
  have ty: "packet_app_type p \<in> {MSG_ADD_SOURCE, MSG_UPDATE_SOURCE, MSG_INIT_SOURCE}" using assms(1) by simp
  show ?thesis
  proof (cases "get_MsgSource (pdata p)")
    case (Inl e)
    with assms(2) ty show ?thesis by (auto simp: ss_push_def get_packet_app_type_def)
  next
    case (Inr m)
    let ?send = "\<lambda>port value. if - 1 < port then [sendMsg n p port value (ms_timestamp m) (packet_app_type p)] else []"
    have "ss_push n ss p = Inr (?send (open_port ss) (ms_open m) @ ?send (high_port ss) (ms_high m) @
        ?send (close_port ss) (ms_close m) @ ?send (low_port ss) (ms_low m) @
        ?send (volume_port ss) (fixedpt_fromint (sint (ms_volume m))) @ [KillPkt p])"
      using Inr ty by (simp add: ss_push_def get_packet_app_type_def Let_def discard_packet_def)
    note acts = trans [OF sym [OF assms(2)] this, unfolded sum.inject]
    show ?thesis unfolding acts by (simp only: sends_kind_simps send)
  qed
qed

lemma tee_push_kind:
  assumes "of_kind k p" and "ReuseTee_push n p = Inr acts"
  shows "sends_kind k acts"
proof (cases n)
  case 0
  with assms(2) show ?thesis by (auto simp: ReuseTee_push_def Let_def bnd_eq_Inr output_push_def split: if_splits)
next
  case (Suc j)
  then have "acts = map (\<lambda>i. PushOut i p) [0..<n]"
    using assms(2) tees_push [of n p] by (auto split: if_splits)
  with assms(1) show ?thesis by (auto simp: sends_kind_def)
qed

lemma stamp_kind:
  assumes "of_kind k p" and "tst_simple_action tsc tsc' t p = Inr (q, t')"
  shows "of_kind k q"
  using assms
  by (cases k) (auto simp: tst_simple_action_def stamp_at_def put64_at_def bnd_eq_Inr get_packet_app_type_def split: if_splits)

lemma element_push_kind:
  assumes "of_kind (accepts el) (snd x)" and "element_push tsc el x = Inr (acts, el')"
  shows "sends_kind (emits el) acts" and "accepts el' = accepts el" and "emits el' = emits el"
proof -
  show "sends_kind (emits el) acts"
    using assms by (cases el; cases x) (auto simp: bnd_eq_Inr simp del: of_kind.simps
        intro: ib_push_kind ss_push_kind tee_push_kind stamp_kind)
  show "accepts el' = accepts el" "emits el' = emits el"
    using assms(2) by (cases el; auto simp: bnd_eq_Inr)+
qed

section \<open>The router as a transition system\<close>

type_synonym 'n router = "('n \<Rightarrow> element) \<times> ('n \<times> int \<times> Packet) list"

text \<open>Either the next packet is delivered, or, with nothing left to deliver, a source packet comes in.\<close>

inductive click_step :: "'n wiring \<Rightarrow> 'n \<Rightarrow> 'n router \<Rightarrow> 'n router \<Rightarrow> bool"
  for conns entry where
  deliver_step: "element_push tsc (net e) x = Inr (acts, el) \<Longrightarrow>
     click_step conns entry (net, (e, x) # ws) (net(e := el), targets conns e acts @ ws)"
| arrive_step: "of_kind SourceKind p \<Longrightarrow> click_step conns entry (net, []) (net, [(entry, 0, p)])"

lemma targets_from:
  assumes "(e', j, p) \<in> set (targets conns e acts)"
  obtains i k where "PushOut i p \<in> set acts" and "((e, i), (e', k)) \<in> set conns"
  using assms by (auto simp: targets_def split: action.splits option.splits dest!: sym [of "Some _"] map_of_SomeD)

text \<open>What the router computes is a sequence of deliveries.\<close>

lemma router_run_steps:
  fixes net' :: "'n \<Rightarrow> element"
  assumes "router_run conns tsc net work = Some (Inr net')"
  shows "(click_step conns entry)\<^sup>*\<^sup>* (net, work) (net', [])"
proof -
  let ?P = "\<lambda>conns (tsc :: 64 word) net work (r :: fault + ('n \<Rightarrow> element)). \<forall>net'. r = Inr net' \<longrightarrow> (click_step conns entry)\<^sup>*\<^sup>* (net, work) (net', [])"
  have "?P conns tsc net work (Inr net')"
  proof (rule router_run.raw_induct [of ?P, OF _ assms], goal_cases)
    case (1 run conns tsc net work r)
    show ?case
    proof (cases work)
      case Nil
      with 1 show ?thesis by auto
    next
      case (Cons w ws)
      obtain e x where w: "w = (e, x)" by (cases w)
      show ?thesis
      proof (cases "element_push tsc (net e) x")
        case (Inl f)
        with 1 Cons w show ?thesis by auto
      next
        case (Inr a)
        then have s: "click_step conns entry (net, work) (net(e := snd a), targets conns e (fst a) @ ws)"
          unfolding Cons w by (intro deliver_step [of tsc]) simp
        from Inr 1(2) Cons w have "run conns tsc (net(e := snd a)) (targets conns e (fst a) @ ws) = Some r" by simp
        from 1(1) [OF this] s show ?thesis by (auto intro: converse_rtranclp_into_rtranclp)
      qed
    qed
  qed
  then show ?thesis by simp
qed

section \<open>Forward graphs\<close>

locale forward_graph =
  fixes conns :: "'n wiring" and order :: "'n \<Rightarrow> nat"
  assumes forward: "((e, i), (e', j)) \<in> set conns \<Longrightarrow> order e' < order e"
begin

lemma targets_decrease:
  "(mset (map (order \<circ> fst) (targets conns e acts @ ws)), mset (map (order \<circ> fst) ((e, x) # ws))) \<in> mult less_than"
proof -
  have "\<forall>k \<in># mset (map (order \<circ> fst) (targets conns e acts)). \<exists>j \<in># {#order e#}. (k, j) \<in> less_than"
    by (auto elim!: targets_from dest: forward)
  from one_step_implies_mult [OF _ this, of "mset (map (order \<circ> fst) ws)"] show ?thesis by (simp add: add.commute)
qed

lemma delivers_all: "\<exists>r. router_run conns tsc net work = Some r"
proof (induction "mset (map (order \<circ> fst) work)" arbitrary: net work rule: wf_induct_rule [OF wf_mult [OF wf_less_than]])
  case (1 work net)
  show ?case
  proof (cases work)
    case (Cons w ws)
    obtain e x where w: "w = (e, x)" by (cases w)
    show ?thesis
    proof (cases "element_push tsc (net e) x")
      case (Inr a)
      have "\<exists>r. router_run conns tsc (net(e := snd a)) (targets conns e (fst a) @ ws) = Some r"
        by (rule 1) (use targets_decrease [of e "fst a" ws x] Cons w in simp_all)
      with Inr show ?thesis by (simp add: Cons w router_Cons)
    qed (simp add: Cons w router_Cons)
  qed simp
qed

end

section \<open>Graphs with kinds\<close>

locale typed_graph = forward_graph conns order
  for conns :: "'n wiring" and order :: "'n \<Rightarrow> nat" +
  fixes entry :: 'n and ins :: "'n \<Rightarrow> kind" and outs :: "'n \<Rightarrow> kind"
  assumes same_kind: "((e, i), (e', j)) \<in> set conns \<Longrightarrow> outs e = ins e'"
    and entry_kind: "ins entry = SourceKind"
begin

definition well_typed :: "'n router \<Rightarrow> bool" where
  "well_typed r \<longleftrightarrow> (\<forall>e. accepts (fst r e) = ins e \<and> emits (fst r e) = outs e) \<and> (\<forall>(e, i, p) \<in> set (snd r). of_kind (ins e) p)"

lemma step_well_typed:
  assumes "click_step conns entry r r'" and "well_typed r"
  shows "well_typed r'"
  using assms
proof cases
  case (deliver_step tsc net e x acts el ws)
  have k: "of_kind (accepts (net e)) (snd x)" "accepts (net e) = ins e" "emits (net e) = outs e"
    using assms(2) deliver_step(1) by (auto simp: well_typed_def)
  note el = element_push_kind [OF k(1) deliver_step(3)]
  have "of_kind (ins e') p" if "(e', j, p) \<in> set (targets conns e acts)" for e' j p
    using that el(1) by (auto elim!: targets_from dest!: same_kind simp: sends_kind_def k(3))
  with el(2,3) k(2,3) assms(2) deliver_step(1,2) show ?thesis by (auto simp: well_typed_def)
next
  case (arrive_step p net)
  with assms(2) show ?thesis by (simp add: well_typed_def entry_kind)
qed

lemma reachable_well_typed: "(click_step conns entry)\<^sup>*\<^sup>* r r' \<Longrightarrow> well_typed r \<Longrightarrow> well_typed r'"
  by (induction rule: rtranclp_induct) (auto intro: step_well_typed)

lemma handed_kind:
  assumes "(click_step conns entry)\<^sup>*\<^sup>* (net, []) (net', (e, i, p) # ws)" and "\<And>e. accepts (net e) = ins e" and "\<And>e. emits (net e) = outs e"
  shows "of_kind (accepts (net' e)) p"
proof -
  have "well_typed (net', (e, i, p) # ws)"
    by (rule reachable_well_typed [OF assms(1)]) (simp add: well_typed_def assms(2,3))
  then show ?thesis by (simp add: well_typed_def)
qed

end

section \<open>The three configurations\<close>

text \<open>The distance from the end of a list of all elements, and the kinds at the two elements in front of the split.\<close>

definition place :: "'n list \<Rightarrow> 'n \<Rightarrow> nat" where
  "place es e = length (dropWhile (\<lambda>e'. e' \<noteq> e) es)"

definition front_ins :: "'n \<Rightarrow> 'n \<Rightarrow> 'n \<Rightarrow> kind" where
  "front_ins stamp split e = (if e = stamp \<or> e = split then SourceKind else ValueKind)"

definition front_outs :: "'n \<Rightarrow> 'n \<Rightarrow> kind" where
  "front_outs stamp e = (if e = stamp then SourceKind else ValueKind)"

interpretation trix_graph: typed_graph trix_wiring
  "place [T_tstamp, T_split_1, T_ewma_1, T_ewma_2, T_ewma_3, T_trix, T_stats]"
  T_tstamp "front_ins T_tstamp T_split_1" "front_outs T_tstamp"
  by unfold_locales (auto simp: trix_wiring_def place_def front_ins_def front_outs_def)

interpretation dmi_graph: typed_graph dmi_wiring
  "place [D_tstamp, D_split_1, D_tee_high, D_tee_low, D_pdm, D_ndm, D_tr, D_ewma_pdm, D_ewma_ndm, D_ewma_tr, D_tee_ewma_tr,
     D_pdi, D_ndi, D_dx, D_ewma_dx, D_stats]"
  D_tstamp "front_ins D_tstamp D_split_1" "front_outs D_tstamp"
  by unfold_locales (auto simp: dmi_wiring_def place_def front_ins_def front_outs_def)

interpretation vortex_graph: typed_graph vortex_wiring
  "place [V_tstamp, V_split_1, V_tee_high, V_tee_low, V_vmu, V_vmd, V_tr, V_sum_vmu, V_sum_vmd, V_sum_tr, V_tee_sum_tr,
     V_viu, V_vid, V_stats]"
  V_tstamp "front_ins V_tstamp V_split_1" "front_outs V_tstamp"
  by unfold_locales (auto simp: vortex_wiring_def place_def front_ins_def front_outs_def)

text \<open>
  Property C12. The router comes to an end. In each of the three graphs, from elements in any state and
  with any packets waiting at any inputs, the recursive pushing of packets through the graph
  finishes: there is no way to go round.
\<close>

theorem graphs_always_deliver:
  "(\<exists>r. router_run trix_wiring tsc net_t work_t = Some r) \<and> (\<exists>r. router_run dmi_wiring tsc net_d work_d = Some r) \<and>
   (\<exists>r. router_run vortex_wiring tsc net_v work_v = Some r)"
  by (intro conjI trix_graph.delivers_all dmi_graph.delivers_all vortex_graph.delivers_all)

text \<open>
  Property C11. Packets have the right kind. Whatever source messages have come in, with whatever prices,
  time stamps and trailing bytes, every packet handed to an element of one of the three graphs is of the
  kind that the element casts it to, and long enough for the message: the splitter gets sources,
  tees, indicators and the statistics get values.
\<close>

theorem graphs_are_well_typed:
  "(trix_opt = Inr net_t \<and> (click_step trix_wiring T_tstamp)\<^sup>*\<^sup>* (net_t, []) (net_t', (e_t, i_t, p_t) # ws_t) \<longrightarrow>
      of_kind (accepts (net_t' e_t)) p_t) \<and>
   (dmi_opt = Inr net_d \<and> (click_step dmi_wiring D_tstamp)\<^sup>*\<^sup>* (net_d, []) (net_d', (e_d, i_d, p_d) # ws_d) \<longrightarrow>
      of_kind (accepts (net_d' e_d)) p_d) \<and>
   ((click_step vortex_wiring V_tstamp)\<^sup>*\<^sup>* (vortex_opt, []) (net_v', (e_v, i_v, p_v) # ws_v) \<longrightarrow>
      of_kind (accepts (net_v' e_v)) p_v)"
proof (intro conjI impI; (elim conjE)?)
  assume t: "trix_opt = Inr net_t" "(click_step trix_wiring T_tstamp)\<^sup>*\<^sup>* (net_t, []) (net_t', (e_t, i_t, p_t) # ws_t)"
  have "accepts (net_t e) = front_ins T_tstamp T_split_1 e" "emits (net_t e) = front_outs T_tstamp e" for e
    using t(1) by (cases e; auto simp: trix_opt_def bnd_eq_Inr Let_def front_ins_def front_outs_def)+
  then show "of_kind (accepts (net_t' e_t)) p_t" by (rule trix_graph.handed_kind [OF t(2)])
next
  assume d: "dmi_opt = Inr net_d" "(click_step dmi_wiring D_tstamp)\<^sup>*\<^sup>* (net_d, []) (net_d', (e_d, i_d, p_d) # ws_d)"
  have "accepts (net_d e) = front_ins D_tstamp D_split_1 e" "emits (net_d e) = front_outs D_tstamp e" for e
    using d(1) by (cases e; auto simp: dmi_opt_def bnd_eq_Inr Let_def front_ins_def front_outs_def)+
  then show "of_kind (accepts (net_d' e_d)) p_d" by (rule dmi_graph.handed_kind [OF d(2)])
next
  assume v: "(click_step vortex_wiring V_tstamp)\<^sup>*\<^sup>* (vortex_opt, []) (net_v', (e_v, i_v, p_v) # ws_v)"
  have "accepts (vortex_opt e) = front_ins V_tstamp V_split_1 e" "emits (vortex_opt e) = front_outs V_tstamp e" for e
    by (cases e; simp add: vortex_opt_def Let_def front_ins_def front_outs_def)+
  then show "of_kind (accepts (net_v' e_v)) p_v" by (rule vortex_graph.handed_kind [OF v])
qed

lemma first_two_steps:
  assumes "net st = Stamp Timestamper_ctor" and "map_of conns (st, 0) = Some (sp, 0)"
    and "of_kind SourceKind p" and "packet_app_type p = MSG_ADD_SOURCE"
  shows "(click_step conns st)\<^sup>*\<^sup>* (net, []) (net, [(sp, 0, p)])"
proof -
  have push: "element_push 0 (net st) (0, p) = Inr ([PushOut 0 p], Stamp Timestamper_ctor)"
    using assms(1,4) by (simp add: tst_simple_action_def get_packet_app_type_def)
  have "click_step conns st (net, []) (net, [(st, 0, p)])" using assms(3) by (rule arrive_step)
  moreover have "click_step conns st (net, [(st, 0, p)]) (net(st := Stamp Timestamper_ctor), targets conns st [PushOut 0 p] @ [])"
    using push by (rule deliver_step)
  then have "click_step conns st (net, [(st, 0, p)]) (net, [(sp, 0, p)])"
    using assms(1,2) by (simp add: targets_def fun_upd_idem)
  ultimately show ?thesis by (auto intro: converse_rtranclp_into_rtranclp)
qed

theorem graphs_are_well_typed_witness:
  "\<exists>net_t net_d.
     trix_opt = Inr net_t \<and> (click_step trix_wiring T_tstamp)\<^sup>*\<^sup>* (net_t, [])
       (net_t, [(T_split_1, 0, \<lparr>pdata = put_MsgSource MsgSource_ctor, packet_app_type = MSG_ADD_SOURCE\<rparr>)]) \<and>
     of_kind (accepts (net_t T_split_1)) \<lparr>pdata = put_MsgSource MsgSource_ctor, packet_app_type = MSG_ADD_SOURCE\<rparr> \<and>
     dmi_opt = Inr net_d \<and> (click_step dmi_wiring D_tstamp)\<^sup>*\<^sup>* (net_d, [])
       (net_d, [(D_split_1, 0, \<lparr>pdata = put_MsgSource MsgSource_ctor, packet_app_type = MSG_ADD_SOURCE\<rparr>)]) \<and>
     of_kind (accepts (net_d D_split_1)) \<lparr>pdata = put_MsgSource MsgSource_ctor, packet_app_type = MSG_ADD_SOURCE\<rparr> \<and>
     (click_step vortex_wiring V_tstamp)\<^sup>*\<^sup>* (vortex_opt, [])
       (vortex_opt, [(V_split_1, 0, \<lparr>pdata = put_MsgSource MsgSource_ctor, packet_app_type = MSG_ADD_SOURCE\<rparr>)]) \<and>
     of_kind (accepts (vortex_opt V_split_1)) \<lparr>pdata = put_MsgSource MsgSource_ctor, packet_app_type = MSG_ADD_SOURCE\<rparr>"
proof -
  let ?p = "\<lparr>pdata = put_MsgSource MsgSource_ctor, packet_app_type = MSG_ADD_SOURCE\<rparr>"
  have p: "of_kind SourceKind ?p" "packet_app_type ?p = MSG_ADD_SOURCE" by (simp_all add: sizeof_MsgSource_def)
  have "\<exists>alpha. Ewma_alpha (Some 13) = Inr alpha" by (simp add: Ewma_alpha_def fp_divide_def int_minus_def fromInt_def fixedpt_fromint_int fixedpt_div_int)
  then obtain net_t net_d where t: "trix_opt = Inr net_t" "net_t T_tstamp = Stamp Timestamper_ctor"
    and d: "dmi_opt = Inr net_d" "net_d D_tstamp = Stamp Timestamper_ctor"
    by (auto simp: trix_opt_def dmi_opt_def Let_def)
  have "(click_step trix_wiring T_tstamp)\<^sup>*\<^sup>* (net_t, []) (net_t, [(T_split_1, 0, ?p)])"
    using t(2) p by (intro first_two_steps) (simp_all add: trix_wiring_def)
  moreover have "(click_step dmi_wiring D_tstamp)\<^sup>*\<^sup>* (net_d, []) (net_d, [(D_split_1, 0, ?p)])"
    using d(2) p by (intro first_two_steps) (simp_all add: dmi_wiring_def)
  moreover have "(click_step vortex_wiring V_tstamp)\<^sup>*\<^sup>* (vortex_opt, []) (vortex_opt, [(V_split_1, 0, ?p)])"
    using p by (intro first_two_steps) (simp_all add: vortex_wiring_def vortex_opt_def Let_def)
  ultimately show ?thesis
    using t(1) d(1) graphs_are_well_typed [of net_t net_t T_split_1 0 ?p "[]" net_d net_d D_split_1 0 ?p "[]" vortex_opt V_split_1 0 ?p "[]"]
    by blast
qed

end
