(* ===== verification/Symbol_Elements.thy ===== *)
theory Symbol_Elements
  imports Hash_Map
begin

text \<open>
  The elements that compute directly on trades and keep their state per symbol (elements/standard):
  \<open>DirectionalMovement\<close>, \<open>TrueRange\<close> and \<open>EwmaElement\<close> sort what they receive into intervals by its time stamp, and
  \<open>DirectionalIndex\<close> and \<open>DxIndicator\<close> join two streams of indicator messages by their time stamps. The
  interval arithmetic traps where the processor's division does. Debug output is left out, and a packet is
  taken to be unshared at \<open>put(0)\<close>.
\<close>

section \<open>Intervals and answers\<close>

text \<open>
  \<open>int64_t(timestamp - start) / int64_t(interval_len)\<close>. The machine's division traps on zero and on the
  one quotient that does not fit.
\<close>

definition interval_num :: "64 word \<Rightarrow> 64 word \<Rightarrow> 64 word \<Rightarrow> 64 word res" where
  "interval_num start ts len =
     (let t = sint (ts - start)
      in if len = 0 \<or> t = - (2 ^ 63) \<and> len = - 1 then Inl DivByZero
         else Inr (word_of_int (t sdiv sint len)))"

text \<open>The last lines of every \<open>push\<close>: the packet becomes an indicator message and goes out, or is dropped.\<close>

definition publish :: "nat \<Rightarrow> int \<Rightarrow> Packet \<Rightarrow> symbol \<Rightarrow> fixedpt \<Rightarrow> 64 word \<Rightarrow> action" where
  "publish nout port p s v ts =
     (case populate_msg_indicator p s v ts of (ok, p') \<Rightarrow>
        if \<not> ok then discard_packet p else checked_output_push nout port p')"

section \<open>EwmaElement\<close>

record EwmaCalculator =
  ec_prev_ewma_value :: fixedpt
  ec_current_ewma_value :: fixedpt
  ec_prev_interval_num :: "64 word"
  ec_current_interval_num :: "64 word"

definition EwmaCalculator_ctor :: EwmaCalculator where
  "EwmaCalculator_ctor = \<lparr>ec_prev_ewma_value = 0, ec_current_ewma_value = 0, ec_prev_interval_num = 0,
     ec_current_interval_num = 0\<rparr>"

record EwmaElement =
  ew_ewma_map :: "(symbol, EwmaCalculator) HashMap"
  ew_ewma_alpha_value :: fixedpt
  ew_interval_len :: "64 word"
  ew_active :: bool

definition EwmaElement_ctor :: EwmaElement where
  "EwmaElement_ctor = \<lparr>ew_ewma_map = HashMap_ctor EwmaCalculator_ctor, ew_ewma_alpha_value = 0,
     ew_interval_len = 0, ew_active = True\<rparr>"

text \<open>\<open>configure\<close>: what \<open>Args\<close> read, None when it did not complete.\<close>

definition EwmaElement_configure :: "(bool option \<times> int \<times> 64 word) option \<Rightarrow> EwmaElement \<Rightarrow> (int \<times> EwmaElement) res" where
  "EwmaElement_configure args el =
     (case args of None \<Rightarrow> Inr (0, el)
      | Some (active, alpha, len) \<Rightarrow>
          bnd (fixedpt_div (fixedpt_fromint 1) (fixedpt_fromint alpha)) (\<lambda>a.
            Inr (0, el\<lparr>ew_active := (case active of None \<Rightarrow> ew_active el | Some x \<Rightarrow> x), ew_interval_len := len,
                      ew_ewma_alpha_value := a\<rparr>)))"

definition ewma_value :: "fixedpt \<Rightarrow> fixedpt \<Rightarrow> fixedpt \<Rightarrow> fixedpt" where
  "ewma_value alpha prev x =
     (if prev = 0 then x
      else fixedpt_add (fixedpt_mul (fixedpt_sub (fixedpt_fromint 1) alpha) x) (fixedpt_mul alpha prev))"

definition ewma_update :: "fixedpt \<Rightarrow> 64 word \<Rightarrow> fixedpt \<Rightarrow> EwmaCalculator \<Rightarrow> EwmaCalculator" where
  "ewma_update alpha i x c =
     (if i = ec_current_interval_num c
      then c\<lparr>ec_current_ewma_value := ewma_value alpha (ec_prev_ewma_value c) x\<rparr>
      else let c1 = c\<lparr>ec_prev_interval_num := ec_current_interval_num c, ec_prev_ewma_value := ec_current_ewma_value c\<rparr>
           in c1\<lparr>ec_current_ewma_value := ewma_value alpha (ec_prev_ewma_value c1) x, ec_current_interval_num := i\<rparr>)"

definition EwmaElement_push :: "64 word \<Rightarrow> EwmaElement \<Rightarrow> int \<times> Packet \<Rightarrow> (action list \<times> EwmaElement) res" where
  "EwmaElement_push start el x =
     (case x of (port, p) \<Rightarrow>
        if \<not> ew_active el then Inr ([checked_output_push 1 port p], el)
        else if get_packet_app_type p \<noteq> MSG_INDICATOR then Inr ([checked_output_push 1 0 p], el)
        else if length (pdata p) < sizeof_MsgIndicator then Inl AssertFailed
        else bnd (get_MsgIndicator (pdata p)) (\<lambda>msg.
             bnd (get_or_create (ew_ewma_map el) False (mi_symbol msg) EwmaCalculator_ctor) (\<lambda>(c, _, m1).
             bnd (interval_num start (mi_timestamp msg) (ew_interval_len el)) (\<lambda>i.
               case c of None \<Rightarrow> Inl NullDeref
               | Some calc \<Rightarrow>
                   let calc' = ewma_update (ew_ewma_alpha_value el) i (mi_indicator msg) calc
                   in bnd (store_value aw_hashcode aw_eq m1 (mi_symbol msg) calc') (\<lambda>m2.
                        Inr ([publish 1 0 p (mi_symbol msg) (ec_current_ewma_value calc') (mi_timestamp msg)],
                             el\<lparr>ew_ewma_map := m2\<rparr>))))))"

section \<open>DirectionalMovement\<close>

record HighLow =
  hl_prev_low :: fixedpt
  hl_current_low :: fixedpt
  hl_prev_high :: fixedpt
  hl_current_high :: fixedpt
  hl_current_interval_num :: "64 word"
  hl_prev_interval_num :: "64 word"

definition HighLow_ctor :: HighLow where
  "HighLow_ctor = \<lparr>hl_prev_low = 0, hl_current_low = 0, hl_prev_high = 0, hl_current_high = 0,
     hl_current_interval_num = - 1, hl_prev_interval_num = - 1\<rparr>"

record DirectionalMovement =
  dmv_high_low_map :: "(symbol, HighLow) HashMap"
  dmv_interval_len :: "64 word"
  dmv_active :: bool

definition DirectionalMovement_ctor :: DirectionalMovement where
  "DirectionalMovement_ctor = \<lparr>dmv_high_low_map = HashMap_ctor HighLow_ctor, dmv_interval_len = 0, dmv_active = True\<rparr>"

definition DirectionalMovement_configure :: "64 word option option \<Rightarrow> DirectionalMovement \<Rightarrow> int \<times> DirectionalMovement" where
  "DirectionalMovement_configure args el =
     (case args of Some (Some len) \<Rightarrow> (0, el\<lparr>dmv_interval_len := len\<rparr>) | _ \<Rightarrow> (0, el))"

definition hl_update :: "64 word \<Rightarrow> fixedpt \<Rightarrow> HighLow \<Rightarrow> HighLow" where
  "hl_update i price hl =
     (if hl_current_interval_num hl = i
      then let hl1 = (if hl_current_high hl <s price then hl\<lparr>hl_current_high := price\<rparr> else hl)
           in if price <s hl_current_low hl1 then hl1\<lparr>hl_current_low := price\<rparr> else hl1
      else hl\<lparr>hl_prev_low := hl_current_low hl, hl_prev_high := hl_current_high hl,
              hl_prev_interval_num := hl_current_interval_num hl, hl_current_interval_num := i,
              hl_current_low := price, hl_current_high := price\<rparr>)"

text \<open>\<open>calculate_dm\<close>: the positive and the negative movement.\<close>

definition calculate_dm :: "fixedpt \<Rightarrow> fixedpt \<Rightarrow> fixedpt \<Rightarrow> fixedpt \<Rightarrow> fixedpt \<times> fixedpt" where
  "calculate_dm previous_high previous_low current_high current_low =
     (let up_move = fixedpt_sub current_high previous_high; down_move = fixedpt_sub previous_low current_low
      in (if down_move <s up_move \<and> 0 <s up_move then up_move else 0,
          if up_move <s down_move \<and> 0 <s down_move then down_move else 0))"

definition DirectionalMovement_push :: "64 word \<Rightarrow> DirectionalMovement \<Rightarrow> int \<times> Packet \<Rightarrow>
    (action list \<times> DirectionalMovement) res" where
  "DirectionalMovement_push start el x =
     (case x of (port, p) \<Rightarrow>
        if \<not> dmv_active el then Inr ([checked_output_push 2 0 p], el)
        else if get_packet_app_type p \<noteq> MSG_TRADE then Inr ([checked_output_push 2 0 p], el)
        else if length (pdata p) < sizeof_MsgTrade then Inl AssertFailed
        else bnd (get_MsgTrade (pdata p)) (\<lambda>msg.
             bnd (get_or_create (dmv_high_low_map el) False (mt_symbol msg) HighLow_ctor) (\<lambda>(hl, _, m1).
             bnd (interval_num start (mt_timestamp msg) (dmv_interval_len el)) (\<lambda>i.
               if i <s 0 then Inr ([discard_packet p], el\<lparr>dmv_high_low_map := m1\<rparr>)
               else case hl of None \<Rightarrow> Inl NullDeref
               | Some h \<Rightarrow>
                   let h' = hl_update i (mt_price msg) h
                   in bnd (store_value aw_hashcode aw_eq m1 (mt_symbol msg) h') (\<lambda>m2.
                        if hl_prev_low h' = 0 \<and> hl_prev_high h' = 0
                        then Inr ([discard_packet p], el\<lparr>dmv_high_low_map := m2\<rparr>)
                        else case calculate_dm (hl_prev_high h') (hl_prev_low h') (hl_current_high h') (hl_current_low h') of
                             (plus_dm, minus_dm) \<Rightarrow>
                               Inr ([publish 2 0 p (mt_symbol msg) minus_dm (mt_timestamp msg),
                                     publish 2 1 p (mt_symbol msg) plus_dm (mt_timestamp msg)],
                                    el\<lparr>dmv_high_low_map := m2\<rparr>))))))"

section \<open>TrueRange\<close>

record HighLowClose =
  hlc_current_high :: fixedpt
  hlc_current_low :: fixedpt
  hlc_prev_close :: fixedpt
  hlc_current_close :: fixedpt
  hlc_current_interval_num :: "64 word"
  hlc_prev_interval_num :: "64 word"

definition HighLowClose_ctor :: HighLowClose where
  "HighLowClose_ctor = \<lparr>hlc_current_high = 0, hlc_current_low = 0, hlc_prev_close = 0, hlc_current_close = 0,
     hlc_current_interval_num = - 1, hlc_prev_interval_num = - 1\<rparr>"

record TrueRange =
  tr_high_low_close_map :: "(symbol, HighLowClose) HashMap"
  tr_interval_len :: "64 word"
  tr_active :: bool

definition TrueRange_ctor :: TrueRange where
  "TrueRange_ctor = \<lparr>tr_high_low_close_map = HashMap_ctor HighLowClose_ctor, tr_interval_len = 0, tr_active = True\<rparr>"

definition TrueRange_configure :: "64 word option option \<Rightarrow> TrueRange \<Rightarrow> int \<times> TrueRange" where
  "TrueRange_configure args el =
     (case args of Some (Some len) \<Rightarrow> (0, el\<lparr>tr_interval_len := len\<rparr>) | _ \<Rightarrow> (0, el))"

definition hlc_update :: "64 word \<Rightarrow> fixedpt \<Rightarrow> HighLowClose \<Rightarrow> HighLowClose" where
  "hlc_update i price h =
     (if hlc_current_interval_num h = i
      then let h1 = (if hlc_current_high h <s price then h\<lparr>hlc_current_high := price\<rparr> else h);
               h2 = (if price <s hlc_current_low h1 then h1\<lparr>hlc_current_low := price\<rparr> else h1)
           in h2\<lparr>hlc_current_close := price\<rparr>
      else h\<lparr>hlc_prev_interval_num := hlc_current_interval_num h, hlc_prev_close := hlc_current_close h,
             hlc_current_close := price, hlc_current_high := price, hlc_current_low := price,
             hlc_current_interval_num := i\<rparr>)"

definition calculate_true_range :: "fixedpt \<Rightarrow> fixedpt \<Rightarrow> fixedpt \<Rightarrow> fixedpt" where
  "calculate_true_range high low previous_close =
     (let high_low = fixedpt_sub high low; high_close = fixedpt_sub high previous_close;
          close_low = fixedpt_sub previous_close low;
          max1 = (if high_close <s high_low then high_low else high_close)
      in if close_low <s max1 then max1 else close_low)"

definition TrueRange_push :: "64 word \<Rightarrow> TrueRange \<Rightarrow> int \<times> Packet \<Rightarrow> (action list \<times> TrueRange) res" where
  "TrueRange_push start el x =
     (case x of (port, p) \<Rightarrow>
        if \<not> tr_active el then Inr ([checked_output_push 1 0 p], el)
        else if get_packet_app_type p \<noteq> MSG_TRADE then Inr ([checked_output_push 1 0 p], el)
        else if length (pdata p) < sizeof_MsgTrade then Inl AssertFailed
        else bnd (get_MsgTrade (pdata p)) (\<lambda>msg.
             bnd (get_or_create (tr_high_low_close_map el) False (mt_symbol msg) HighLowClose_ctor) (\<lambda>(hl, _, m1).
             bnd (interval_num start (mt_timestamp msg) (tr_interval_len el)) (\<lambda>i.
               case hl of None \<Rightarrow> Inl NullDeref
               | Some h \<Rightarrow>
                   let h' = hlc_update i (mt_price msg) h
                   in bnd (store_value aw_hashcode aw_eq m1 (mt_symbol msg) h') (\<lambda>m2.
                        if hlc_prev_close h' = 0 then Inr ([discard_packet p], el\<lparr>tr_high_low_close_map := m2\<rparr>)
                        else Inr ([publish 1 0 p (mt_symbol msg)
                                     (calculate_true_range (hlc_current_high h') (hlc_current_low h') (hlc_prev_close h'))
                                     (mt_timestamp msg)],
                                  el\<lparr>tr_high_low_close_map := m2\<rparr>))))))"

section \<open>Joining two streams\<close>

datatype PacketPort = NO_PORT | TR_PORT | DM_PORT | PDI_PORT | MDI_PORT

record SavedPacket =
  sp_packet :: "Packet option"
  sp_port :: PacketPort

definition SavedPacket_ctor :: SavedPacket where
  "SavedPacket_ctor = \<lparr>sp_packet = None, sp_port = NO_PORT\<rparr>"

text \<open>
  Steps 2 and 3 of both \<open>push\<close> functions: the new packet is compared with the saved one. Either the call ends
  with a saved packet, a clone of what came in, or the saved packet has the same time stamp and comes from the other port. The
  packet that was cloned is neither sent on nor killed.
\<close>

datatype matching = Kept "action list" SavedPacket | Matched Packet

definition match_saved :: "PacketPort \<Rightarrow> Packet \<Rightarrow> SavedPacket \<Rightarrow> matching res" where
  "match_saved packet_port p sp =
     (if sp_port sp = packet_port \<and> sp_packet sp \<noteq> None
      then Inr (Kept [KillPkt (the (sp_packet sp))] (sp\<lparr>sp_packet := Some p\<rparr>))
      else if sp_port sp \<noteq> packet_port \<and> sp_port sp = NO_PORT
      then Inr (Kept [] \<lparr>sp_packet = Some p, sp_port = packet_port\<rparr>)
      else case sp_packet sp of None \<Rightarrow> Inl NullDeref
           | Some q \<Rightarrow>
               bnd (get_MsgIndicator (pdata q)) (\<lambda>saved. bnd (get_MsgIndicator (pdata p)) (\<lambda>new.
                 if mi_timestamp new < mi_timestamp saved then Inr (Kept [KillPkt p] sp)
                 else if mi_timestamp saved < mi_timestamp new
                 then Inr (Kept [KillPkt q] \<lparr>sp_packet = Some p, sp_port = packet_port\<rparr>)
                 else Inr (Matched q))))"

record DirectionalIndex =
  di_dm_port :: int
  di_tr_port :: int
  di_saved_packet :: SavedPacket
  di_active :: bool

definition DirectionalIndex_ctor :: DirectionalIndex where
  "DirectionalIndex_ctor = \<lparr>di_dm_port = - 1, di_tr_port = - 1, di_saved_packet = SavedPacket_ctor, di_active = True\<rparr>"

definition DirectionalIndex_configure :: "(bool option \<times> int \<times> int) option \<Rightarrow> DirectionalIndex \<Rightarrow> int \<times> DirectionalIndex" where
  "DirectionalIndex_configure args el =
     (case args of None \<Rightarrow> (0, el)
      | Some (active, tr_port, dm_port) \<Rightarrow>
          (0, el\<lparr>di_active := (case active of None \<Rightarrow> di_active el | Some x \<Rightarrow> x), di_tr_port := tr_port, di_dm_port := dm_port\<rparr>))"

definition di_detect_packet_port :: "DirectionalIndex \<Rightarrow> int \<Rightarrow> PacketPort" where
  "di_detect_packet_port el packet_port =
     (if di_tr_port el < 0 \<or> di_dm_port el < 0 then NO_PORT
      else if packet_port = di_tr_port el then TR_PORT
      else if packet_port = di_dm_port el then DM_PORT
      else NO_PORT)"

definition DirectionalIndex_push :: "DirectionalIndex \<Rightarrow> int \<times> Packet \<Rightarrow> (action list \<times> DirectionalIndex) res" where
  "DirectionalIndex_push el x =
     (case x of (port, p) \<Rightarrow>
        if \<not> di_active el then Inr ([checked_output_push 1 port p], el)
        else if get_packet_app_type p \<noteq> MSG_INDICATOR then Inr ([checked_output_push 1 0 p], el)
        else let packet_port = di_detect_packet_port el port
             in if packet_port = NO_PORT then Inr ([checked_output_push 1 port p], el)
                else bnd (match_saved packet_port p (di_saved_packet el)) (\<lambda>r. case r of
                    Kept acts sp \<Rightarrow> Inr (acts, el\<lparr>di_saved_packet := sp\<rparr>)
                  | Matched q \<Rightarrow>
                      bnd (get_MsgIndicator (pdata (if sp_port (di_saved_packet el) = TR_PORT then q else p))) (\<lambda>tr_msg.
                      bnd (get_MsgIndicator (pdata (if sp_port (di_saved_packet el) = DM_PORT then q else p))) (\<lambda>dm_msg.
                      bnd (if mi_indicator tr_msg \<noteq> 0 then fixedpt_div (mi_indicator dm_msg) (mi_indicator tr_msg) else Inr 0) (\<lambda>di.
                        Inr ([publish 1 0 p (mi_symbol tr_msg) di (mi_timestamp tr_msg), KillPkt q],
                             el\<lparr>di_saved_packet := SavedPacket_ctor\<rparr>))))))"

record DxIndicator =
  dxi_pdi_port :: int
  dxi_mdi_port :: int
  dxi_saved_packet :: SavedPacket
  dxi_active :: bool

text \<open>The constructor sets the ports to \<open>Synapse::NO_PORT\<close>, which is 0.\<close>

definition DxIndicator_ctor :: DxIndicator where
  "DxIndicator_ctor = \<lparr>dxi_pdi_port = 0, dxi_mdi_port = 0, dxi_saved_packet = SavedPacket_ctor, dxi_active = True\<rparr>"

definition DxIndicator_configure :: "(bool option \<times> int \<times> int) option \<Rightarrow> DxIndicator \<Rightarrow> int \<times> DxIndicator" where
  "DxIndicator_configure args el =
     (case args of None \<Rightarrow> (0, el)
      | Some (active, pdi_port, mdi_port) \<Rightarrow>
          (0, el\<lparr>dxi_active := (case active of None \<Rightarrow> dxi_active el | Some x \<Rightarrow> x), dxi_pdi_port := pdi_port, dxi_mdi_port := mdi_port\<rparr>))"

definition dxi_detect_packet_port :: "DxIndicator \<Rightarrow> int \<Rightarrow> PacketPort" where
  "dxi_detect_packet_port el packet_port =
     (if dxi_mdi_port el < 0 \<or> dxi_pdi_port el < 0 then NO_PORT
      else if packet_port = dxi_mdi_port el then MDI_PORT
      else if packet_port = dxi_pdi_port el then PDI_PORT
      else NO_PORT)"

definition dx_of :: "fixedpt \<Rightarrow> fixedpt \<Rightarrow> fixedpt res" where
  "dx_of pdi mdi =
     (let part_two = fixedpt_add pdi mdi
      in if part_two \<noteq> 0
         then bnd (fixedpt_div (fixedpt_abs (fixedpt_sub pdi mdi)) part_two) (\<lambda>part_three.
                Inr (fixedpt_mul (fixedpt_fromint 100) part_three))
         else Inr 0)"

definition DxIndicator_push :: "DxIndicator \<Rightarrow> int \<times> Packet \<Rightarrow> (action list \<times> DxIndicator) res" where
  "DxIndicator_push el x =
     (case x of (port, p) \<Rightarrow>
        if \<not> dxi_active el then Inr ([checked_output_push 1 port p], el)
        else if get_packet_app_type p \<noteq> MSG_INDICATOR then Inr ([checked_output_push 1 0 p], el)
        else let packet_port = dxi_detect_packet_port el port
             in if packet_port = NO_PORT then Inr ([checked_output_push 1 port p], el)
                else bnd (match_saved packet_port p (dxi_saved_packet el)) (\<lambda>r. case r of
                    Kept acts sp \<Rightarrow> Inr (acts, el\<lparr>dxi_saved_packet := sp\<rparr>)
                  | Matched q \<Rightarrow>
                      bnd (get_MsgIndicator (pdata (if sp_port (dxi_saved_packet el) = PDI_PORT then q else p))) (\<lambda>pdi_msg.
                      bnd (get_MsgIndicator (pdata (if sp_port (dxi_saved_packet el) = MDI_PORT then q else p))) (\<lambda>mdi_msg.
                      bnd (dx_of (mi_indicator pdi_msg) (mi_indicator mdi_msg)) (\<lambda>dx.
                        Inr ([publish 1 0 p (mi_symbol mdi_msg) dx (mi_timestamp mdi_msg), KillPkt q],
                             el\<lparr>dxi_saved_packet := SavedPacket_ctor\<rparr>))))))"

section \<open>One entry per symbol\<close>

text \<open>The entry of a symbol, a new one when it has none.\<close>

definition entry :: "'v \<Rightarrow> (symbol \<rightharpoonup> 'v) \<Rightarrow> symbol \<Rightarrow> 'v" where
  "entry d m s = (case m s of None \<Rightarrow> d | Some v \<Rightarrow> v)"

lemma entry_upd: "entry d (m(s \<mapsto> v)) s' = (if s' = s then v else entry d m s')"
  by (simp add: entry_def)

lemma entry_stored:
  assumes "sym_inv m" and "canonical s"
  obtains m1 where "get_or_create m c s d = Inr (Some (entry d (hm_abs m) s), hm_abs m s = None, m1)"
    and "sym_inv m1" and "hm_abs m1 = (hm_abs m)(s \<mapsto> entry d (hm_abs m) s)"
    and "\<forall>v. \<exists>m2. store_value aw_hashcode aw_eq m1 s v = Inr m2 \<and> sym_inv m2 \<and> hm_abs m2 = (hm_abs m)(s \<mapsto> v)"
proof -
  obtain m1 where m1: "get_or_create m c s d = Inr (Some (entry d (hm_abs m) s), hm_abs m s = None, m1)"
    "sym_inv m1" "hm_abs m1 = (hm_abs m)(s \<mapsto> entry d (hm_abs m) s)"
    using get_or_create_abs [OF assms, of c d] by (auto simp: entry_def fun_upd_idem split: option.splits)
  have "\<exists>m2. store_value aw_hashcode aw_eq m1 s v = Inr m2 \<and> sym_inv m2 \<and> hm_abs m2 = (hm_abs m)(s \<mapsto> v)" for v
    using symbol_key.store_value_abs [OF m1(2) assms(2), of "entry d (hm_abs m) s" v] m1(3) by auto
  with m1 show thesis by (intro that) auto
qed

text \<open>The entry of a symbol after some messages, of which only its own count.\<close>

definition state_after :: "('m \<Rightarrow> symbol) \<Rightarrow> ('m \<Rightarrow> 'v \<Rightarrow> 'v) \<Rightarrow> 'v \<Rightarrow> symbol \<Rightarrow> 'm list \<Rightarrow> 'v" where
  "state_after symbol_of upd v s ms = foldl (\<lambda>v m. upd m v) v (filter (\<lambda>m. symbol_of m = s) ms)"

text \<open>
  What the elements with a table promise: a message changes the entry of its symbol and no other, and
  the answer depends on that entry alone.
\<close>

locale per_symbol =
  fixes push :: "'el \<Rightarrow> 'm \<Rightarrow> ('out \<times> 'el) res" and inv :: "'el \<Rightarrow> bool" and entries :: "'el \<Rightarrow> symbol \<rightharpoonup> 'v"
    and good :: "'m \<Rightarrow> bool" and symbol_of :: "'m \<Rightarrow> symbol" and fresh :: 'v
    and upd :: "'m \<Rightarrow> 'v \<Rightarrow> 'v" and answer :: "'m \<Rightarrow> 'v \<Rightarrow> 'out"
  assumes push_law: "inv el \<Longrightarrow> good m \<Longrightarrow> v = upd m (entry fresh (entries el) (symbol_of m)) \<Longrightarrow>
      \<exists>el'. push el m = Inr (answer m v, el') \<and> inv el' \<and> entries el' = (entries el)(symbol_of m \<mapsto> v)"
begin

abbreviation entry_after :: "'el \<Rightarrow> symbol \<Rightarrow> 'm list \<Rightarrow> 'v" where
  "entry_after el s ms \<equiv> state_after symbol_of upd (entry fresh (entries el) s) s ms"

lemma independent:
  assumes "inv el" and "list_all good ms"
  shows "\<exists>el'. run_ops push el ms =
      Inr (map (\<lambda>k. answer (ms ! k) (entry_after el (symbol_of (ms ! k)) (take (Suc k) ms))) [0..<length ms], el') \<and>
    inv el' \<and> (\<forall>s. entry fresh (entries el') s = entry_after el s ms)"
  using assms
proof (induction ms arbitrary: el)
  case Nil
  then show ?case by (simp add: state_after_def)
next
  case (Cons m ms)
  let ?v = "upd m (entry fresh (entries el) (symbol_of m))"
  obtain el1 where el1: "push el m = Inr (answer m ?v, el1)" "inv el1" "entries el1 = (entries el)(symbol_of m \<mapsto> ?v)"
    using push_law [OF Cons.prems(1) _ refl] Cons.prems(2) by auto
  have st: "entry_after el1 s xs = entry_after el s (m # xs)" for s xs
    by (simp add: state_after_def el1(3) entry_upd)
  obtain el' where el': "run_ops push el1 ms =
      Inr (map (\<lambda>k. answer (ms ! k) (entry_after el1 (symbol_of (ms ! k)) (take (Suc k) ms))) [0..<length ms], el')"
    "inv el'" "\<forall>s. entry fresh (entries el') s = entry_after el1 s ms"
    using Cons.IH [OF el1(2)] Cons.prems(2) by auto
  have now: "entry_after el (symbol_of m) [m] = ?v" by (simp add: state_after_def)
  show ?case
    using el1(1) el' by (simp add: st now upt_conv_Cons map_Suc_upt [symmetric] comp_def del: upt_Suc)
qed

lemma answers:
  assumes "inv el" and "list_all good ms" and "entries el = Map.empty"
  shows "\<exists>el'. run_ops push el ms =
    Inr (map (\<lambda>k. answer (ms ! k) (state_after symbol_of upd fresh (symbol_of (ms ! k)) (take (Suc k) ms))) [0..<length ms], el')"
  using independent [OF assms(1,2)] by (auto simp: entry_def assms(3))

end

section \<open>Intervals of a history\<close>

text \<open>
  What a history of values with their interval numbers amounts to: the number of the interval that is open, the
  values of the intervals before it, and the values of the open one.
\<close>

type_synonym intervals = "64 word \<times> fixedpt list list \<times> fixedpt list"

fun roll :: "intervals \<Rightarrow> 64 word \<times> fixedpt \<Rightarrow> intervals" where
  "roll (i, old, now) (j, x) = (if i = j then (i, old, now @ [x]) else (j, old @ [now], [x]))"

text \<open>All three elements begin with zero as the value of an interval that has already begun.\<close>

definition history_of :: "64 word \<Rightarrow> (64 word \<times> fixedpt) list \<Rightarrow> intervals" where
  "history_of i xs = foldl roll (i, [], [0]) xs"

lemma history_snoc: "history_of i (xs @ [x]) = roll (history_of i xs) x"
  by (simp add: history_of_def)

definition highest :: "fixedpt list \<Rightarrow> fixedpt" where
  "highest xs = word_of_int (Max (sint ` set xs))"

definition lowest :: "fixedpt list \<Rightarrow> fixedpt" where
  "lowest xs = word_of_int (Min (sint ` set xs))"

lemma sint_highest:
  assumes "xs \<noteq> []"
  shows "sint (highest xs) = Max (sint ` set xs)" and "sint (lowest xs) = Min (sint ` set xs)"
proof -
  have "Max (sint ` set xs) \<in> sint ` set xs" "Min (sint ` set xs) \<in> sint ` set xs"
    using assms by (auto intro!: Max_in Min_in)
  then obtain x y :: fixedpt where "Max (sint ` set xs) = sint x" "Min (sint ` set xs) = sint y" by blast
  then show "sint (highest xs) = Max (sint ` set xs)" "sint (lowest xs) = Min (sint ` set xs)"
    by (simp_all add: highest_def lowest_def)
qed

lemma highest_single [simp]: "highest [x] = x" "lowest [x] = x"
  by (simp_all add: highest_def lowest_def)

lemma highest_snoc:
  assumes "xs \<noteq> []"
  shows "highest (xs @ [x]) = (if highest xs <s x then x else highest xs)"
    and "lowest (xs @ [x]) = (if x <s lowest xs then x else lowest xs)"
proof -
  note ext = sint_highest [OF assms]
  have "sint ` set (xs @ [x]) = insert (sint x) (sint ` set xs)" by simp
  then have "Max (sint ` set (xs @ [x])) = max (sint x) (sint (highest xs))"
    "Min (sint ` set (xs @ [x])) = min (sint x) (sint (lowest xs))"
    using assms by (simp_all add: ext)
  then show "highest (xs @ [x]) = (if highest xs <s x then x else highest xs)"
    "lowest (xs @ [x]) = (if x <s lowest xs then x else lowest xs)"
    unfolding highest_def [of "xs @ [x]"] lowest_def [of "xs @ [x]"]
    by (simp_all add: word_sless_alt max_def min_def)
qed

text \<open>The averages: one value per closed interval, its last one.\<close>

definition ewma_of :: "fixedpt \<Rightarrow> intervals \<Rightarrow> EwmaCalculator \<Rightarrow> bool" where
  "ewma_of alpha h c \<longleftrightarrow> (case h of (i, old, now) \<Rightarrow> ec_current_interval_num c = i \<and>
     ec_prev_ewma_value c = foldl (ewma_value alpha) 0 (map last old) \<and>
     ec_current_ewma_value c = ewma_value alpha (ec_prev_ewma_value c) (last now))"

lemma ewma_of_start: "ewma_of alpha (history_of 0 []) EwmaCalculator_ctor"
  by (simp add: ewma_of_def history_of_def EwmaCalculator_ctor_def ewma_value_def)

lemma ewma_of_update: "ewma_of alpha h c \<Longrightarrow> ewma_of alpha (roll h x) (ewma_update alpha (fst x) (snd x) c)"
  by (cases h; cases x) (auto simp: ewma_of_def ewma_update_def Let_def)

definition hl_of :: "intervals \<Rightarrow> HighLow \<Rightarrow> bool" where
  "hl_of h v \<longleftrightarrow> (case h of (i, old, now) \<Rightarrow> hl_current_interval_num v = i \<and> now \<noteq> [] \<and>
     hl_current_high v = highest now \<and> hl_current_low v = lowest now \<and>
     hl_prev_high v = (if old = [] then 0 else highest (last old)) \<and>
     hl_prev_low v = (if old = [] then 0 else lowest (last old)))"

lemma hl_of_start: "hl_of (history_of (- 1) []) HighLow_ctor"
  by (simp add: hl_of_def history_of_def HighLow_ctor_def)

lemma hl_of_update: "hl_of h v \<Longrightarrow> hl_of (roll h x) (hl_update (fst x) (snd x) v)"
  by (cases h; cases x) (auto simp: hl_of_def hl_update_def Let_def highest_snoc)

definition hlc_of :: "intervals \<Rightarrow> HighLowClose \<Rightarrow> bool" where
  "hlc_of h v \<longleftrightarrow> (case h of (i, old, now) \<Rightarrow> hlc_current_interval_num v = i \<and> now \<noteq> [] \<and>
     hlc_current_high v = highest now \<and> hlc_current_low v = lowest now \<and> hlc_current_close v = last now \<and>
     hlc_prev_close v = (if old = [] then 0 else last (last old)))"

lemma hlc_of_start: "hlc_of (history_of (- 1) []) HighLowClose_ctor"
  by (simp add: hlc_of_def history_of_def HighLowClose_ctor_def)

lemma hlc_of_update: "hlc_of h v \<Longrightarrow> hlc_of (roll h x) (hlc_update (fst x) (snd x) v)"
  by (cases h; cases x) (auto simp: hlc_of_def hlc_update_def Let_def highest_snoc)

text \<open>A property of the entry that every update carries along holds after all of them.\<close>

lemma foldl_related:
  assumes "R a c" and "\<And>a c x. R a c \<Longrightarrow> R (f a x) (g c x)"
  shows "R (foldl f a xs) (foldl g c xs)"
  using assms(1) by (induction xs arbitrary: a c) (auto intro: assms(2))

section \<open>The elements keep one history per symbol\<close>

definition ind_msg :: "Packet \<Rightarrow> MsgIndicator" where
  "ind_msg p = projr (get_MsgIndicator (pdata p))"

definition trade_msg :: "Packet \<Rightarrow> MsgTrade" where
  "trade_msg p = projr (get_MsgTrade (pdata p))"

definition interval_at :: "64 word \<Rightarrow> 64 word \<Rightarrow> 64 word \<Rightarrow> 64 word" where
  "interval_at start len ts = word_of_int (sint (ts - start) sdiv sint len)"

lemma interval_num_pos: "0 <s len \<Longrightarrow> interval_num start ts len = Inr (interval_at start len ts)"
  by (auto simp: interval_num_def interval_at_def word_sless_alt Let_def)

definition indicator_packet :: "Packet \<Rightarrow> bool" where
  "indicator_packet p \<longleftrightarrow> packet_app_type p = MSG_INDICATOR \<and> sizeof_MsgIndicator \<le> length (pdata p) \<and>
     canonical (mi_symbol (ind_msg p))"

definition trade_packet :: "Packet \<Rightarrow> bool" where
  "trade_packet p \<longleftrightarrow> packet_app_type p = MSG_TRADE \<and> sizeof_MsgTrade \<le> length (pdata p) \<and>
     canonical (mt_symbol (trade_msg p))"

lemma get_ind_msg: "sizeof_MsgIndicator \<le> length (pdata p) \<Longrightarrow> get_MsgIndicator (pdata p) = Inr (ind_msg p)"
  by (simp add: ind_msg_def get_MsgIndicator_def sizeof_MsgIndicator_def get64_def ORDER_SYMBOL_LEN_def)

lemma get_trade_msg: "sizeof_MsgTrade \<le> length (pdata p) \<Longrightarrow> get_MsgTrade (pdata p) = Inr (trade_msg p)"
  by (simp add: trade_msg_def get_MsgTrade_def sizeof_MsgTrade_def get64_def ORDER_SYMBOL_LEN_def)

interpretation ewma_table: per_symbol "EwmaElement_push start"
  "\<lambda>el. sym_inv (ew_ewma_map el) \<and> ew_active el \<and> ew_ewma_alpha_value el = alpha \<and> ew_interval_len el = len \<and> 0 <s len"
  "\<lambda>el. hm_abs (ew_ewma_map el)" "\<lambda>x. indicator_packet (snd x)" "\<lambda>x. mi_symbol (ind_msg (snd x))" EwmaCalculator_ctor
  "\<lambda>x. ewma_update alpha (interval_at start len (mi_timestamp (ind_msg (snd x)))) (mi_indicator (ind_msg (snd x)))"
  "\<lambda>x c. [publish 1 0 (snd x) (mi_symbol (ind_msg (snd x))) (ec_current_ewma_value c) (mi_timestamp (ind_msg (snd x)))]"
  for start alpha len
proof (unfold_locales, goal_cases)
  case (1 el x c)
  let ?m = "ind_msg (snd x)"
  from 1(2) have len: "sizeof_MsgIndicator \<le> length (pdata (snd x))" and can: "canonical (mi_symbol ?m)"
    and ty: "packet_app_type (snd x) = MSG_INDICATOR" by (simp_all add: indicator_packet_def)
  from 1(1) have inv: "sym_inv (ew_ewma_map el)" by simp
  show ?case
  proof (rule entry_stored [OF inv can, of False EwmaCalculator_ctor], goal_cases)
    case m1: (1 m1)
    obtain m2 where m2: "store_value aw_hashcode aw_eq m1 (mi_symbol ?m) c = Inr m2" "sym_inv m2"
      "hm_abs m2 = (hm_abs (ew_ewma_map el))(mi_symbol ?m \<mapsto> c)"
      using m1(4) by blast
    with 1 len ty m1(1) show ?case
      by (cases x) (simp add: EwmaElement_push_def get_packet_app_type_def get_ind_msg interval_num_pos not_less)
  qed
qed

interpretation movement_table: per_symbol "DirectionalMovement_push start"
  "\<lambda>el. sym_inv (dmv_high_low_map el) \<and> dmv_active el \<and> dmv_interval_len el = len \<and> 0 <s len"
  "\<lambda>el. hm_abs (dmv_high_low_map el)" "\<lambda>x. trade_packet (snd x)" "\<lambda>x. mt_symbol (trade_msg (snd x))" HighLow_ctor
  "\<lambda>x h. let i = interval_at start len (mt_timestamp (trade_msg (snd x)))
         in if i <s 0 then h else hl_update i (mt_price (trade_msg (snd x))) h"
  "\<lambda>x h. if interval_at start len (mt_timestamp (trade_msg (snd x))) <s 0 \<or> hl_prev_low h = 0 \<and> hl_prev_high h = 0
         then [discard_packet (snd x)]
         else let dm = calculate_dm (hl_prev_high h) (hl_prev_low h) (hl_current_high h) (hl_current_low h)
              in [publish 2 0 (snd x) (mt_symbol (trade_msg (snd x))) (snd dm) (mt_timestamp (trade_msg (snd x))),
                  publish 2 1 (snd x) (mt_symbol (trade_msg (snd x))) (fst dm) (mt_timestamp (trade_msg (snd x)))]"
  for start len
proof (unfold_locales, goal_cases)
  case (1 el x h)
  let ?m = "trade_msg (snd x)"
  from 1(2) have len: "sizeof_MsgTrade \<le> length (pdata (snd x))" and can: "canonical (mt_symbol ?m)"
    and ty: "packet_app_type (snd x) = MSG_TRADE" by (simp_all add: trade_packet_def)
  from 1(1) have inv: "sym_inv (dmv_high_low_map el)" by simp
  show ?case
  proof (rule entry_stored [OF inv can, of False HighLow_ctor], goal_cases)
    case m1: (1 m1)
    obtain m2 where m2: "store_value aw_hashcode aw_eq m1 (mt_symbol ?m) h = Inr m2" "sym_inv m2"
      "hm_abs m2 = (hm_abs (dmv_high_low_map el))(mt_symbol ?m \<mapsto> h)"
      using m1(4) by blast
    let ?i = "interval_at start (dmv_interval_len el) (mt_timestamp ?m)"
    let ?e = "entry HighLow_ctor (hm_abs (dmv_high_low_map el)) (mt_symbol ?m)"
    note defs = DirectionalMovement_push_def get_packet_app_type_def get_trade_msg interval_num_pos not_less Let_def
    show ?case
    proof (cases "?i <s 0")
      case True
      with 1 len ty m1(1-3) show ?thesis by (cases x) (simp add: defs)
    next
      case False
      then have h: "hl_update ?i (mt_price ?m) ?e = h" using 1 by (simp add: Let_def)
      have "DirectionalMovement_push start el x =
          Inr (if hl_prev_low h = 0 \<and> hl_prev_high h = 0 then [discard_packet (snd x)]
               else let dm = calculate_dm (hl_prev_high h) (hl_prev_low h) (hl_current_high h) (hl_current_low h)
                    in [publish 2 0 (snd x) (mt_symbol ?m) (snd dm) (mt_timestamp ?m),
                        publish 2 1 (snd x) (mt_symbol ?m) (fst dm) (mt_timestamp ?m)], el\<lparr>dmv_high_low_map := m2\<rparr>)"
        using 1(1) False len ty m1(1) m2(1) h by (cases x) (simp add: defs case_prod_unfold)
      with 1 False m2 show ?thesis by (simp add: Let_def)
    qed
  qed
qed

interpretation range_table: per_symbol "TrueRange_push start"
  "\<lambda>el. sym_inv (tr_high_low_close_map el) \<and> tr_active el \<and> tr_interval_len el = len \<and> 0 <s len"
  "\<lambda>el. hm_abs (tr_high_low_close_map el)" "\<lambda>x. trade_packet (snd x)" "\<lambda>x. mt_symbol (trade_msg (snd x))" HighLowClose_ctor
  "\<lambda>x. hlc_update (interval_at start len (mt_timestamp (trade_msg (snd x)))) (mt_price (trade_msg (snd x)))"
  "\<lambda>x h. if hlc_prev_close h = 0 then [discard_packet (snd x)]
         else [publish 1 0 (snd x) (mt_symbol (trade_msg (snd x)))
                 (calculate_true_range (hlc_current_high h) (hlc_current_low h) (hlc_prev_close h)) (mt_timestamp (trade_msg (snd x)))]"
  for start len
proof (unfold_locales, goal_cases)
  case (1 el x h)
  let ?m = "trade_msg (snd x)"
  from 1(2) have len: "sizeof_MsgTrade \<le> length (pdata (snd x))" and can: "canonical (mt_symbol ?m)"
    and ty: "packet_app_type (snd x) = MSG_TRADE" by (simp_all add: trade_packet_def)
  from 1(1) have inv: "sym_inv (tr_high_low_close_map el)" by simp
  show ?case
  proof (rule entry_stored [OF inv can, of False HighLowClose_ctor], goal_cases)
    case m1: (1 m1)
    obtain m2 where m2: "store_value aw_hashcode aw_eq m1 (mt_symbol ?m) h = Inr m2" "sym_inv m2"
      "hm_abs m2 = (hm_abs (tr_high_low_close_map el))(mt_symbol ?m \<mapsto> h)"
      using m1(4) by blast
    with 1 len ty m1(1) show ?case
      by (cases x) (simp add: TrueRange_push_def get_packet_app_type_def get_trade_msg interval_num_pos not_less Let_def)
  qed
qed

lemma foldl_filter: "foldl g a (filter P xs) = foldl (\<lambda>a x. if P x then g a x else a) a xs"
  by (induction xs arbitrary: a) simp_all

text \<open>The values and the prices of a symbol, with the intervals they belong to.\<close>

definition values_of :: "64 word \<Rightarrow> 64 word \<Rightarrow> symbol \<Rightarrow> (int \<times> Packet) list \<Rightarrow> (64 word \<times> fixedpt) list" where
  "values_of start len s xs =
     map (\<lambda>x. (interval_at start len (mi_timestamp (ind_msg (snd x))), mi_indicator (ind_msg (snd x))))
       (filter (\<lambda>x. mi_symbol (ind_msg (snd x)) = s) xs)"

definition prices_of :: "64 word \<Rightarrow> 64 word \<Rightarrow> symbol \<Rightarrow> (int \<times> Packet) list \<Rightarrow> (64 word \<times> fixedpt) list" where
  "prices_of start len s xs =
     map (\<lambda>x. (interval_at start len (mt_timestamp (trade_msg (snd x))), mt_price (trade_msg (snd x))))
       (filter (\<lambda>x. mt_symbol (trade_msg (snd x)) = s) xs)"

lemma ewma_state:
  "ewma_of alpha (history_of 0 (values_of start len s xs))
     (state_after (\<lambda>x. mi_symbol (ind_msg (snd x)))
       (\<lambda>x. ewma_update alpha (interval_at start len (mi_timestamp (ind_msg (snd x)))) (mi_indicator (ind_msg (snd x))))
       EwmaCalculator_ctor s xs)"
  unfolding history_of_def values_of_def state_after_def foldl_map
  by (rule foldl_related)
    (use ewma_of_update [where x = "(_, _)"] in \<open>simp_all add: ewma_of_start [unfolded history_of_def foldl.simps] del: roll.simps\<close>)

lemma range_state:
  "hlc_of (history_of (- 1) (prices_of start len s xs))
     (state_after (\<lambda>x. mt_symbol (trade_msg (snd x)))
       (\<lambda>x. hlc_update (interval_at start len (mt_timestamp (trade_msg (snd x)))) (mt_price (trade_msg (snd x))))
       HighLowClose_ctor s xs)"
  unfolding history_of_def prices_of_def state_after_def foldl_map
  by (rule foldl_related)
    (use hlc_of_update [where x = "(_, _)"] in \<open>simp_all add: hlc_of_start [unfolded history_of_def foldl.simps] del: roll.simps\<close>)

lemma movement_state:
  "hl_of (history_of (- 1) (filter (\<lambda>x. \<not> fst x <s 0) (prices_of start len s xs)))
     (state_after (\<lambda>x. mt_symbol (trade_msg (snd x)))
       (\<lambda>x h. let i = interval_at start len (mt_timestamp (trade_msg (snd x)))
              in if i <s 0 then h else hl_update i (mt_price (trade_msg (snd x))) h)
       HighLow_ctor s xs)"
  unfolding history_of_def prices_of_def state_after_def foldl_filter foldl_map
  by (rule foldl_related)
    (use hl_of_update [where x = "(_, _)"] in \<open>simp_all add: hl_of_start [unfolded history_of_def foldl.simps] Let_def del: roll.simps\<close>)

text \<open>
  Property C18. The averaging element smooths the last value of every interval. For any sequence of
  indicator messages of any symbols, the answer to each is the exponentially weighted average
  over the last values of the symbol's earlier intervals and the value
  of the message itself: earlier messages of the same interval and messages of other symbols leave no trace.
  The average starts with the first value, and it starts anew with the next value whenever it has come to exactly 0, which
  the code takes for no value yet.
\<close>

theorem ewma_element_averages:
  assumes "EwmaElement_configure (Some (None, periods, len)) EwmaElement_ctor = Inr (rc, el)" and "0 <s len"
    and "list_all (\<lambda>x. indicator_packet (snd x)) xs"
  shows "\<exists>el'. run_ops (EwmaElement_push start) el xs =
    Inr (map (\<lambda>k. let msg = ind_msg (snd (xs ! k)); alpha = ew_ewma_alpha_value el in
        case history_of 0 (values_of start len (mi_symbol msg) (take (Suc k) xs)) of (i, old, now) \<Rightarrow>
          [publish 1 0 (snd (xs ! k)) (mi_symbol msg)
             (ewma_value alpha (foldl (ewma_value alpha) 0 (map last old)) (last now)) (mi_timestamp msg)]) [0..<length xs], el')"
proof -
  let ?alpha = "ew_ewma_alpha_value el"
  have el: "ew_ewma_map el = HashMap_ctor EwmaCalculator_ctor" "ew_active el" "ew_interval_len el = len"
    using assms(1) by (auto simp: EwmaElement_configure_def EwmaElement_ctor_def bnd_eq_Inr)
  note st = ewma_state [of ?alpha start len]
  have cur: "ec_current_ewma_value (state_after (\<lambda>x. mi_symbol (ind_msg (snd x)))
       (\<lambda>x. ewma_update ?alpha (interval_at start len (mi_timestamp (ind_msg (snd x)))) (mi_indicator (ind_msg (snd x))))
       EwmaCalculator_ctor s ys) =
     (case history_of 0 (values_of start len s ys) of (i, old, now) \<Rightarrow>
       ewma_value ?alpha (foldl (ewma_value ?alpha) 0 (map last old)) (last now))" for s ys
    using st [of s ys] by (auto simp: ewma_of_def split: prod.splits)
  have inv: "sym_inv (ew_ewma_map el) \<and> ew_active el \<and> ew_ewma_alpha_value el = ?alpha \<and> ew_interval_len el = len \<and> 0 <s len"
    using el assms(2) by (simp add: hm_inv_ctor)
  show ?thesis
    using ewma_table.answers [OF inv assms(3), of start] by (auto simp: el(1) cur Let_def case_prod_unfold)
qed

text \<open>Packets with a given message.\<close>

definition indicator_sample :: "symbol \<Rightarrow> fixedpt \<Rightarrow> 64 word \<Rightarrow> Packet" where
  "indicator_sample s v ts =
     \<lparr>pdata = put_MsgIndicator \<lparr>mi_symbol = s, mi_indicator = v, mi_timestamp = ts\<rparr>, packet_app_type = MSG_INDICATOR\<rparr>"

definition trade_sample :: "symbol \<Rightarrow> fixedpt \<Rightarrow> 64 word \<Rightarrow> Packet" where
  "trade_sample s v ts =
     \<lparr>pdata = put_MsgTrade (MsgTrade_ctor\<lparr>mt_symbol := s, mt_price := v, mt_timestamp := ts\<rparr>), packet_app_type = MSG_TRADE\<rparr>"

lemma length_canonical: "canonical s \<Longrightarrow> length s = ORDER_SYMBOL_LEN"
  unfolding canonical_def by (metis add_diff_inverse_nat length_append length_replicate less_imp_le_nat not_less)

lemma indicator_sample:
  assumes "canonical s"
  shows "indicator_packet (indicator_sample s v ts)"
    and "ind_msg (indicator_sample s v ts) = \<lparr>mi_symbol = s, mi_indicator = v, mi_timestamp = ts\<rparr>"
  using length_canonical [OF assms] assms
  by (simp_all add: indicator_packet_def indicator_sample_def ind_msg_def get_MsgIndicator_def put_MsgIndicator_def get64_def
      sizeof_MsgIndicator_def ORDER_SYMBOL_LEN_def)

lemma trade_sample:
  assumes "canonical s"
  shows "trade_packet (trade_sample s v ts)"
    and "trade_msg (trade_sample s v ts) = MsgTrade_ctor\<lparr>mt_symbol := s, mt_price := v, mt_timestamp := ts\<rparr>"
  using length_canonical [OF assms] assms get_put_MsgTrade [of "MsgTrade_ctor\<lparr>mt_symbol := s, mt_price := v, mt_timestamp := ts\<rparr>" "[]"]
  by (simp_all add: trade_packet_def trade_sample_def trade_msg_def)
    (simp add: put_MsgTrade_def sizeof_MsgTrade_def ORDER_SYMBOL_LEN_def)

definition sample_symbol :: symbol where
  "sample_symbol = 66 # 80 # replicate 8 0"

lemma canonical_sample: "canonical sample_symbol"
  using canonical_padded [of "[66, 80]"] by (simp add: sample_symbol_def ORDER_SYMBOL_LEN_def)

lemmas samples [simp] = indicator_sample [OF canonical_sample] trade_sample [OF canonical_sample]

theorem ewma_element_averages_witness:
  "\<exists>el el'. EwmaElement_configure (Some (None, 2, 10)) EwmaElement_ctor = Inr (0, el) \<and>
     run_ops (EwmaElement_push 5) el [(0, indicator_sample sample_symbol 100 6), (0, indicator_sample sample_symbol 300 20)] =
     Inr ([[publish 1 0 (indicator_sample sample_symbol 100 6) sample_symbol 100 6],
           [publish 1 0 (indicator_sample sample_symbol 300 20) sample_symbol 200 20]], el')"
proof -
  let ?xs = "[(0 :: int, indicator_sample sample_symbol 100 6), (0, indicator_sample sample_symbol 300 20)]"
  obtain el where el: "EwmaElement_configure (Some (None, 2, 10)) EwmaElement_ctor = Inr (0, el)" "ew_ewma_alpha_value el = 2 ^ 39"
    by (simp add: EwmaElement_configure_def fixedpt_div_int fixedpt_fromint_int signed_divide_int_def)
  have "0 <s (10 :: 64 word)" "list_all (\<lambda>x. indicator_packet (snd x)) ?xs" by (simp_all add: word_sless_alt)
  from ewma_element_averages [OF el(1) this, of 5] el show ?thesis
    by (simp add: values_of_def interval_at_def history_of_def ewma_value_def fixedpt_mul_int fixedpt_fromint_int
        fixedpt_add_def fixedpt_sub_def signed_divide_int_def Let_def upt_rec)
qed

text \<open>
  Property C19. The movement element compares intervals. For any sequence of trades of any symbols, the
  answer to each is the pair of directional movements between the highest and lowest price of the
  symbol's last closed interval and those of the open one so far, published as the negative movement on output 0 and the
  positive one on output 1. A trade with a negative interval number, which is one at least a whole interval older than the start,
  is dropped and leaves no trace; a trade with no earlier interval to compare with, or one whose highest and
  lowest price are both 0, is counted and dropped.
\<close>

theorem movement_element_compares_intervals:
  assumes "DirectionalMovement_configure (Some (Some len)) DirectionalMovement_ctor = (rc, el)" and "0 <s len"
    and "list_all (\<lambda>x. trade_packet (snd x)) xs"
  shows "\<exists>el'. run_ops (DirectionalMovement_push start) el xs =
    Inr (map (\<lambda>k. let p = snd (xs ! k); msg = trade_msg p in
        case history_of (- 1) (filter (\<lambda>x. \<not> fst x <s 0) (prices_of start len (mt_symbol msg) (take (Suc k) xs))) of (i, old, now) \<Rightarrow>
          if interval_at start len (mt_timestamp msg) <s 0 \<or> old = [] \<or> lowest (last old) = 0 \<and> highest (last old) = 0
          then [discard_packet p]
          else let dm = calculate_dm (highest (last old)) (lowest (last old)) (highest now) (lowest now)
               in [publish 2 0 p (mt_symbol msg) (snd dm) (mt_timestamp msg),
                   publish 2 1 p (mt_symbol msg) (fst dm) (mt_timestamp msg)]) [0..<length xs], el')"
proof -
  have el: "dmv_high_low_map el = HashMap_ctor HighLow_ctor" "dmv_active el" "dmv_interval_len el = len"
    using assms(1) by (auto simp: DirectionalMovement_configure_def DirectionalMovement_ctor_def)
  let ?st = "state_after (\<lambda>x. mt_symbol (trade_msg (snd x)))
       (\<lambda>x h. let i = interval_at start len (mt_timestamp (trade_msg (snd x)))
              in if i <s 0 then h else hl_update i (mt_price (trade_msg (snd x))) h) HighLow_ctor"
  have cur: "hl_current_high (?st s ys) = highest (snd (snd h)) \<and> hl_current_low (?st s ys) = lowest (snd (snd h)) \<and>
      hl_prev_high (?st s ys) = (if fst (snd h) = [] then 0 else highest (last (fst (snd h)))) \<and>
      hl_prev_low (?st s ys) = (if fst (snd h) = [] then 0 else lowest (last (fst (snd h))))"
    if "h = history_of (- 1) (filter (\<lambda>x. \<not> fst x <s 0) (prices_of start len s ys))" for s ys h
    using movement_state [of start len s ys] unfolding that [symmetric] by (simp add: hl_of_def split: prod.splits)
  have inv: "sym_inv (dmv_high_low_map el) \<and> dmv_active el \<and> dmv_interval_len el = len \<and> 0 <s len"
    using el assms(2) by (simp add: hm_inv_ctor)
  show ?thesis
    using movement_table.answers [OF inv assms(3), of start] by (auto simp: el(1) cur [OF refl, unfolded Let_def] Let_def case_prod_unfold)
qed

theorem movement_element_compares_intervals_witness:
  "\<exists>el el'. DirectionalMovement_configure (Some (Some 10)) DirectionalMovement_ctor = (0, el) \<and>
     run_ops (DirectionalMovement_push 5) el
       [(0, trade_sample sample_symbol 100 6), (0, trade_sample sample_symbol 90 7), (0, trade_sample sample_symbol 103 20)] =
     Inr ([[discard_packet (trade_sample sample_symbol 100 6)], [discard_packet (trade_sample sample_symbol 90 7)],
           [publish 2 0 (trade_sample sample_symbol 103 20) sample_symbol 0 20,
            publish 2 1 (trade_sample sample_symbol 103 20) sample_symbol 3 20]], el')"
proof -
  let ?xs = "[(0 :: int, trade_sample sample_symbol 100 6), (0, trade_sample sample_symbol 90 7), (0, trade_sample sample_symbol 103 20)]"
  obtain el where el: "DirectionalMovement_configure (Some (Some 10)) DirectionalMovement_ctor = (0, el)"
    by (simp add: DirectionalMovement_configure_def)
  have "0 <s (10 :: 64 word)" "list_all (\<lambda>x. trade_packet (snd x)) ?xs" by (simp_all add: word_sless_alt)
  from movement_element_compares_intervals [OF el this, of 5] el show ?thesis
    by (simp add: prices_of_def interval_at_def history_of_def word_sless_alt signed_divide_int_def Let_def upt_rec
        highest_def lowest_def calculate_dm_def fixedpt_sub_def)
qed

text \<open>
  Property C20. The true range element measures against the last price of the interval before. For any
  sequence of trades of any symbols, the answer to each is the true range of the highest and lowest price of the
  open interval so far and the last price of the interval before, and a trade with no earlier interval, or with a last price of 0
  there, is dropped.
\<close>

theorem true_range_element_measures:
  assumes "TrueRange_configure (Some (Some len)) TrueRange_ctor = (rc, el)" and "0 <s len"
    and "list_all (\<lambda>x. trade_packet (snd x)) xs"
  shows "\<exists>el'. run_ops (TrueRange_push start) el xs =
    Inr (map (\<lambda>k. let p = snd (xs ! k); msg = trade_msg p in
        case history_of (- 1) (prices_of start len (mt_symbol msg) (take (Suc k) xs)) of (i, old, now) \<Rightarrow>
          if old = [] \<or> last (last old) = 0 then [discard_packet p]
          else [publish 1 0 p (mt_symbol msg) (calculate_true_range (highest now) (lowest now) (last (last old)))
                  (mt_timestamp msg)]) [0..<length xs], el')"
proof -
  have el: "tr_high_low_close_map el = HashMap_ctor HighLowClose_ctor" "tr_active el" "tr_interval_len el = len"
    using assms(1) by (auto simp: TrueRange_configure_def TrueRange_ctor_def)
  let ?st = "state_after (\<lambda>x. mt_symbol (trade_msg (snd x)))
       (\<lambda>x. hlc_update (interval_at start len (mt_timestamp (trade_msg (snd x)))) (mt_price (trade_msg (snd x)))) HighLowClose_ctor"
  have cur: "hlc_current_high (?st s ys) = highest (snd (snd h)) \<and> hlc_current_low (?st s ys) = lowest (snd (snd h)) \<and>
      hlc_prev_close (?st s ys) = (if fst (snd h) = [] then 0 else last (last (fst (snd h))))"
    if "h = history_of (- 1) (prices_of start len s ys)" for s ys h
    using range_state [of start len s ys] unfolding that [symmetric] by (simp add: hlc_of_def split: prod.splits)
  have inv: "sym_inv (tr_high_low_close_map el) \<and> tr_active el \<and> tr_interval_len el = len \<and> 0 <s len"
    using el assms(2) by (simp add: hm_inv_ctor)
  show ?thesis
    using range_table.answers [OF inv assms(3), of start] by (auto simp: el(1) cur [OF refl] Let_def case_prod_unfold)
qed

theorem true_range_element_measures_witness:
  "\<exists>el el'. TrueRange_configure (Some (Some 10)) TrueRange_ctor = (0, el) \<and>
     run_ops (TrueRange_push 5) el [(0, trade_sample sample_symbol 100 6), (0, trade_sample sample_symbol 90 20)] =
     Inr ([[discard_packet (trade_sample sample_symbol 100 6)],
           [publish 1 0 (trade_sample sample_symbol 90 20) sample_symbol 10 20]], el')"
proof -
  let ?xs = "[(0 :: int, trade_sample sample_symbol 100 6), (0, trade_sample sample_symbol 90 20)]"
  obtain el where el: "TrueRange_configure (Some (Some 10)) TrueRange_ctor = (0, el)"
    by (simp add: TrueRange_configure_def)
  have "0 <s (10 :: 64 word)" "list_all (\<lambda>x. trade_packet (snd x)) ?xs" by (simp_all add: word_sless_alt)
  from true_range_element_measures [OF el this, of 5] el show ?thesis
    by (simp add: prices_of_def interval_at_def history_of_def word_sless_alt signed_divide_int_def Let_def upt_rec
        calculate_true_range_def fixedpt_sub_def)
qed

text \<open>
  Property C38. Trades from before the start are counted. The division rounds towards zero, so a trade up to one
  interval older than the start of the system gets interval 0, passes the check for a negative number and is
  taken for a price of the first interval.
\<close>

theorem early_trade_counts:
  assumes "DirectionalMovement_configure (Some (Some len)) DirectionalMovement_ctor = (rc, el)"
    and "trade_packet p" and "0 <s len"
    and "sint (mt_timestamp (trade_msg p) - start) < 0" and "- sint len < sint (mt_timestamp (trade_msg p) - start)"
  shows "\<exists>el' h. DirectionalMovement_push start el (port, p) = Inr ([discard_packet p], el') \<and>
    hm_abs (dmv_high_low_map el') (mt_symbol (trade_msg p)) = Some h \<and> hl_current_interval_num h = 0 \<and>
    hl_current_high h = mt_price (trade_msg p) \<and> hl_current_low h = mt_price (trade_msg p)"
proof -
  let ?m = "trade_msg p"
  have el: "dmv_high_low_map el = HashMap_ctor HighLow_ctor" "dmv_active el" "dmv_interval_len el = len"
    using assms(1) by (auto simp: DirectionalMovement_configure_def DirectionalMovement_ctor_def)
  have "sint (mt_timestamp ?m - start) sdiv sint len = 0"
    using assms(3-5) by (simp add: signed_divide_int_def word_sless_alt)
  then have i: "interval_at start len (mt_timestamp ?m) = 0" by (simp add: interval_at_def)
  have inv: "sym_inv (dmv_high_low_map el) \<and> dmv_active el \<and> dmv_interval_len el = len \<and> 0 <s len"
    using el assms(3) by (simp add: hm_inv_ctor)
  from movement_table.push_law [OF inv, of "(port, p)" _ start] assms(2) i show ?thesis
    by (auto simp: el(1) entry_def hl_update_def HighLow_ctor_def)
qed

theorem early_trade_counts_witness:
  "\<exists>el el' h. DirectionalMovement_configure (Some (Some 10)) DirectionalMovement_ctor = (0, el) \<and>
     DirectionalMovement_push 20 el (0, trade_sample sample_symbol 100 15) = Inr ([discard_packet (trade_sample sample_symbol 100 15)], el') \<and>
     hm_abs (dmv_high_low_map el') sample_symbol = Some h \<and> hl_current_interval_num h = 0 \<and> hl_current_high h = 100"
proof -
  obtain el where el: "DirectionalMovement_configure (Some (Some 10)) DirectionalMovement_ctor = (0, el)"
    by (simp add: DirectionalMovement_configure_def)
  have "0 <s (10 :: 64 word)" "sint (mt_timestamp (trade_msg (trade_sample sample_symbol 100 15)) - 20) < 0"
    "- sint (10 :: 64 word) < sint (mt_timestamp (trade_msg (trade_sample sample_symbol 100 15)) - 20)"
    by (simp_all add: word_sless_alt)
  from early_trade_counts [OF el _ this, of 0] el show ?thesis by auto
qed

section \<open>Joining by time stamp\<close>

text \<open>A packet for one of the two ports, and what was saved before when it came.\<close>

definition joinable :: "Packet \<Rightarrow> bool" where
  "joinable p \<longleftrightarrow> packet_app_type p = MSG_INDICATOR \<and> sizeof_MsgIndicator \<le> length (pdata p)"

lemma match_first: "port \<noteq> NO_PORT \<Longrightarrow> match_saved port p SavedPacket_ctor = Inr (Kept [] \<lparr>sp_packet = Some p, sp_port = port\<rparr>)"
  by (simp add: match_saved_def SavedPacket_ctor_def)

lemma match_second:
  assumes "joinable p" and "joinable q" and "mi_timestamp (ind_msg p) = mi_timestamp (ind_msg q)" and "port \<noteq> port'" and "port' \<noteq> NO_PORT"
  shows "match_saved port p \<lparr>sp_packet = Some q, sp_port = port'\<rparr> = Inr (Matched q)"
  using assms by (simp add: match_saved_def joinable_def get_ind_msg)

text \<open>
  A round: the packets for the two ports, which have the same time stamp, and whether the one for the
  first port comes first.
\<close>

type_synonym join_round = "bool \<times> Packet \<times> Packet"

definition join_ok :: "join_round \<Rightarrow> bool" where
  "join_ok r = (case r of (fwd, a, b) \<Rightarrow> joinable a \<and> joinable b \<and> mi_timestamp (ind_msg a) = mi_timestamp (ind_msg b))"

definition join_msgs :: "int \<Rightarrow> int \<Rightarrow> join_round \<Rightarrow> (int \<times> Packet) list" where
  "join_msgs i j r = (case r of (fwd, a, b) \<Rightarrow> if fwd then [(i, a), (j, b)] else [(j, b), (i, a)])"

text \<open>The second packet of the round is sent with the result, the first one is killed.\<close>

definition join_answers :: "(Packet \<Rightarrow> Packet \<Rightarrow> fixedpt) \<Rightarrow> (Packet \<Rightarrow> Packet \<Rightarrow> Packet) \<Rightarrow> join_round \<Rightarrow> action list list" where
  "join_answers f named r = (case r of (fwd, a, b) \<Rightarrow>
     let first = (if fwd then a else b); second = (if fwd then b else a); msg = ind_msg (named a b)
     in [[], [publish 1 0 second (mi_symbol msg) (f a b) (mi_timestamp msg), KillPkt first]])"

locale join_element =
  fixes push :: "'el \<Rightarrow> int \<times> Packet \<Rightarrow> (action list \<times> 'el) res" and idle :: "'el \<Rightarrow> bool"
    and i j :: int and f :: "Packet \<Rightarrow> Packet \<Rightarrow> fixedpt" and named :: "Packet \<Rightarrow> Packet \<Rightarrow> Packet"
  assumes one_round: "idle el \<Longrightarrow> join_ok r \<Longrightarrow> run_ops push el (join_msgs i j r) = Inr (join_answers f named r, el)"
begin

lemma all_rounds:
  assumes "idle el" and "list_all join_ok rs"
  shows "run_ops push el (concat (map (join_msgs i j) rs)) = Inr (concat (map (join_answers f named) rs), el)"
  using assms(2)
proof (induction rs)
  case (Cons r rs)
  with one_round [OF assms(1), of r] show ?case by (simp add: run_ops_append)
qed simp

end

text \<open>The quotient that the index publishes, and the dx value.\<close>

definition index_value :: "Packet \<Rightarrow> Packet \<Rightarrow> fixedpt" where
  "index_value tr dm =
     (let x = mi_indicator (ind_msg dm); y = mi_indicator (ind_msg tr)
      in if y = 0 then 0 else word_of_int ((sint x * 2 ^ 40) sdiv sint y))"

definition dx_packets :: "Packet \<Rightarrow> Packet \<Rightarrow> fixedpt" where
  "dx_packets mdi pdi = projr (dx_of (mi_indicator (ind_msg pdi)) (mi_indicator (ind_msg mdi)))"

lemma dx_of_ok: "dx_of x y = Inr (projr (dx_of x y))"
  by (auto simp: dx_of_def Let_def fixedpt_div_int)

interpretation index_join: join_element DirectionalIndex_push
  "\<lambda>el. di_active el \<and> di_saved_packet el = SavedPacket_ctor \<and> di_tr_port el = i \<and> di_dm_port el = j \<and> 0 \<le> i \<and> 0 \<le> j \<and> i \<noteq> j"
  i j index_value "\<lambda>tr dm. tr" for i j
proof (unfold_locales, goal_cases)
  case (1 el r)
  obtain fwd tr dm where r: "r = (fwd, tr, dm)" by (cases r)
  have ports: "di_detect_packet_port el i = TR_PORT" "di_detect_packet_port el j = DM_PORT"
    "di_detect_packet_port (el\<lparr>di_saved_packet := sp\<rparr>) i = TR_PORT" "di_detect_packet_port (el\<lparr>di_saved_packet := sp\<rparr>) j = DM_PORT" for sp
    using 1(1) by (auto simp: di_detect_packet_port_def)
  from 1(2) have ok: "joinable tr" "joinable dm" "mi_timestamp (ind_msg tr) = mi_timestamp (ind_msg dm)"
    by (simp_all add: r join_ok_def)
  note m = match_second [OF ok(1,2,3)] match_second [OF ok(2,1) ok(3) [symmetric]]
  have ty: "packet_app_type tr = MSG_INDICATOR" "packet_app_type dm = MSG_INDICATOR"
    "get_MsgIndicator (pdata tr) = Inr (ind_msg tr)" "get_MsgIndicator (pdata dm) = Inr (ind_msg dm)"
    using ok(1,2) by (simp_all add: joinable_def get_ind_msg)
  have el: "el\<lparr>di_saved_packet := SavedPacket_ctor\<rparr> = el" "di_active el" "di_saved_packet el = SavedPacket_ctor"
    using 1(1) by simp_all
  note defs = DirectionalIndex_push_def get_packet_app_type_def ports ty match_first el index_value_def Let_def fixedpt_div_int
  show ?case
    by (cases fwd) (auto simp: r join_msgs_def join_answers_def defs m)
qed

interpretation dx_join: join_element DxIndicator_push
  "\<lambda>el. dxi_active el \<and> dxi_saved_packet el = SavedPacket_ctor \<and> dxi_mdi_port el = i \<and> dxi_pdi_port el = j \<and> 0 \<le> i \<and> 0 \<le> j \<and> i \<noteq> j"
  i j dx_packets "\<lambda>mdi pdi. mdi" for i j
proof (unfold_locales, goal_cases)
  case (1 el r)
  obtain fwd mdi pdi where r: "r = (fwd, mdi, pdi)" by (cases r)
  have ports: "dxi_detect_packet_port el i = MDI_PORT" "dxi_detect_packet_port el j = PDI_PORT"
    "dxi_detect_packet_port (el\<lparr>dxi_saved_packet := sp\<rparr>) i = MDI_PORT" "dxi_detect_packet_port (el\<lparr>dxi_saved_packet := sp\<rparr>) j = PDI_PORT" for sp
    using 1(1) by (auto simp: dxi_detect_packet_port_def)
  from 1(2) have ok: "joinable mdi" "joinable pdi" "mi_timestamp (ind_msg mdi) = mi_timestamp (ind_msg pdi)"
    by (simp_all add: r join_ok_def)
  note m = match_second [OF ok(1,2,3)] match_second [OF ok(2,1) ok(3) [symmetric]]
  have ty: "packet_app_type mdi = MSG_INDICATOR" "packet_app_type pdi = MSG_INDICATOR"
    "get_MsgIndicator (pdata mdi) = Inr (ind_msg mdi)" "get_MsgIndicator (pdata pdi) = Inr (ind_msg pdi)"
    using ok(1,2) by (simp_all add: joinable_def get_ind_msg)
  have el: "el\<lparr>dxi_saved_packet := SavedPacket_ctor\<rparr> = el" "dxi_active el" "dxi_saved_packet el = SavedPacket_ctor"
    using 1(1) by simp_all
  note dx = dx_of_ok [of "mi_indicator (ind_msg pdi)" "mi_indicator (ind_msg mdi)", folded dx_packets_def]
  show ?case
    by (cases fwd) (auto simp: r join_msgs_def join_answers_def DxIndicator_push_def get_packet_app_type_def ports ty match_first el dx Let_def m)
qed

text \<open>
  Property C22. The directional index divides what belongs together. Whichever of the two packets of a
  time stamp comes first, the second one goes out with the movement over the true range, 0 if that is zero,
  the time stamp and the symbol of the true range message; the element is then ready for the next pair. The symbols of
  the two packets are not compared.
\<close>

theorem index_element_joins:
  assumes "DirectionalIndex_configure (Some (None, tr_port, dm_port)) DirectionalIndex_ctor = (rc, el)"
    and "0 \<le> tr_port" and "0 \<le> dm_port" and "tr_port \<noteq> dm_port" and "list_all join_ok rs"
  shows "run_ops DirectionalIndex_push el (concat (map (join_msgs tr_port dm_port) rs)) =
    Inr (concat (map (join_answers index_value (\<lambda>tr dm. tr)) rs), el)"
  using assms
  by (intro index_join.all_rounds) (auto simp: DirectionalIndex_configure_def DirectionalIndex_ctor_def)

theorem index_element_joins_witness:
  "\<exists>el. DirectionalIndex_configure (Some (None, 0, 1)) DirectionalIndex_ctor = (0, el) \<and>
     run_ops DirectionalIndex_push el [(1, indicator_sample sample_symbol 3 7), (0, indicator_sample (replicate 10 0) 4 7)] =
     Inr ([[], [publish 1 0 (indicator_sample (replicate 10 0) 4 7) (replicate 10 0) (3 * 2 ^ 38) 7,
                KillPkt (indicator_sample sample_symbol 3 7)]], el)"
proof -
  let ?dm = "indicator_sample sample_symbol 3 7" and ?tr = "indicator_sample (replicate 10 0) 4 7"
  have z: "canonical (replicate 10 0)" using canonical_padded [of "[]"] by (simp add: ORDER_SYMBOL_LEN_def)
  note tr = indicator_sample [OF z]
  have "joinable ?dm" "joinable ?tr"
    using samples(1) [of 3 7] tr(1) [of 4 7] by (simp_all add: indicator_packet_def joinable_def)
  then have rs: "list_all join_ok [(False, ?tr, ?dm)]" by (simp add: join_ok_def tr(2))
  obtain el where el: "DirectionalIndex_configure (Some (None, 0, 1)) DirectionalIndex_ctor = (0, el)"
    by (simp add: DirectionalIndex_configure_def)
  from index_element_joins [OF el _ _ _ rs] el show ?thesis
    by (simp add: join_msgs_def join_answers_def index_value_def tr(2) signed_divide_int_def Let_def)
qed

lemma sint_in_range:
  fixes x y :: "64 word"
  shows "- (2 ^ 63) \<le> sint x + sint y \<Longrightarrow> sint x + sint y < 2 ^ 63 \<Longrightarrow> sint (x + y) = sint x + sint y"
    and "- (2 ^ 63) \<le> sint x - sint y \<Longrightarrow> sint x - sint y < 2 ^ 63 \<Longrightarrow> sint (x - y) = sint x - sint y"
  using sint_word_of_int_id [of "sint x + sint y", where 'a = 64] sint_word_of_int_id [of "sint x - sint y", where 'a = 64]
  by simp_all

lemma dx_percent:
  assumes "0 \<le> sint x" and "0 \<le> sint y" and "sint x + sint y < 2 ^ 63"
  shows "0 \<le> sint (projr (dx_of x y)) \<and> sint (projr (dx_of x y)) \<le> 100 * 2 ^ 40"
proof (cases "x + y = 0")
  case True
  then show ?thesis by (simp add: dx_of_def fixedpt_add_def)
next
  case False
  let ?n = "sint x + sint y"
  have s: "sint (x + y) = ?n" and d: "sint (x - y) = sint x - sint y"
    using assms by (intro sint_in_range; simp)+
  have n: "0 < ?n" using False s assms(1,2) by (metis add_nonneg_nonneg less_le signed_eq_0_iff)
  have a: "sint (fixedpt_abs (x - y)) = \<bar>sint x - sint y\<bar>"
    using d assms sint_in_range(2) [of 0 "x - y"] by (simp add: fixedpt_abs_def word_sless_alt)
  define q where "q = (\<bar>sint x - sint y\<bar> * 2 ^ 40) div ?n"
  have q: "0 \<le> q" "q \<le> 2 ^ 40"
  proof -
    have "\<bar>sint x - sint y\<bar> \<le> ?n" using assms by simp
    then have "\<bar>sint x - sint y\<bar> * 2 ^ 40 \<le> 2 ^ 40 * ?n" by simp
    then have "q \<le> (2 ^ 40 * ?n) div ?n" unfolding q_def using n by (intro zdiv_mono1) simp_all
    also have "(2 ^ 40 * ?n) div ?n = 2 ^ 40" using n by (intro nonzero_mult_div_cancel_right) simp
    finally show "q \<le> 2 ^ 40" .
  qed (use n in \<open>simp add: q_def pos_imp_zdiv_nonneg_iff\<close>)
  have "(\<bar>sint x - sint y\<bar> * 2 ^ 40) sdiv ?n = q"
    using n by (cases "sint x = sint y") (simp_all add: signed_divide_int_def q_def sgn_if)
  then have "fixedpt_div (fixedpt_abs (x - y)) (x + y) = Inr (word_of_int q)"
    using False by (simp add: fixedpt_div_int a s)
  then have "projr (dx_of x y) = fixedpt_mul (fixedpt_fromint 100) (word_of_int q)"
    using False by (simp add: dx_of_def fixedpt_add_def fixedpt_sub_def)
  also have "\<dots> = word_of_int (100 * q)"
    using q by (simp add: fixedpt_mul_int fixedpt_fromint_int sint_word_of_int_id)
  finally have "sint (projr (dx_of x y)) = 100 * q"
    using q sint_word_of_int_id [of "100 * q", where 'a = 64] by simp
  then show ?thesis using q by simp
qed

text \<open>
  Property C23. The dx element publishes a percentage. For pairs of indices that are not negative and whose sum does not
  overflow, in whatever order the two packets of each pair come, the second packet goes out with a value
  between 0 and 100, the symbol and the time stamp of the negative index.
\<close>

theorem dx_element_publishes_percentages:
  assumes "DxIndicator_configure (Some (None, pdi_port, mdi_port)) DxIndicator_ctor = (rc, el)"
    and "0 \<le> pdi_port" and "0 \<le> mdi_port" and "pdi_port \<noteq> mdi_port" and "list_all join_ok rs"
    and "\<forall>(fwd, mdi, pdi) \<in> set rs. 0 \<le> sint (mi_indicator (ind_msg mdi)) \<and> 0 \<le> sint (mi_indicator (ind_msg pdi)) \<and>
       sint (mi_indicator (ind_msg pdi)) + sint (mi_indicator (ind_msg mdi)) < 2 ^ 63"
  shows "run_ops DxIndicator_push el (concat (map (join_msgs mdi_port pdi_port) rs)) =
      Inr (concat (map (join_answers dx_packets (\<lambda>mdi pdi. mdi)) rs), el) \<and>
    (\<forall>(fwd, mdi, pdi) \<in> set rs. 0 \<le> sint (dx_packets mdi pdi) \<and> sint (dx_packets mdi pdi) \<le> 100 * 2 ^ 40)"
proof (rule conjI)
  show "run_ops DxIndicator_push el (concat (map (join_msgs mdi_port pdi_port) rs)) =
      Inr (concat (map (join_answers dx_packets (\<lambda>mdi pdi. mdi)) rs), el)"
    using assms(1-5)
    by (intro dx_join.all_rounds) (auto simp: DxIndicator_configure_def DxIndicator_ctor_def)
  show "\<forall>(fwd, mdi, pdi) \<in> set rs. 0 \<le> sint (dx_packets mdi pdi) \<and> sint (dx_packets mdi pdi) \<le> 100 * 2 ^ 40"
    using assms(6) dx_percent unfolding dx_packets_def by blast
qed

theorem dx_element_publishes_percentages_witness:
  "\<exists>el v. DxIndicator_configure (Some (None, 0, 1)) DxIndicator_ctor = (0, el) \<and>
     run_ops DxIndicator_push el [(0, indicator_sample sample_symbol 3 7), (1, indicator_sample sample_symbol 1 7)] =
     Inr ([[], [publish 1 0 (indicator_sample sample_symbol 1 7) sample_symbol v 7, KillPkt (indicator_sample sample_symbol 3 7)]], el) \<and>
     0 \<le> sint v \<and> sint v \<le> 100 * 2 ^ 40"
proof -
  let ?pdi = "indicator_sample sample_symbol 3 7" and ?mdi = "indicator_sample sample_symbol 1 7"
  have "joinable ?pdi" "joinable ?mdi"
    using samples(1) [of 3 7] samples(1) [of 1 7] by (simp_all add: indicator_packet_def joinable_def)
  then have rs: "list_all join_ok [(False, ?mdi, ?pdi)]" by (simp add: join_ok_def)
  obtain el where el: "DxIndicator_configure (Some (None, 0, 1)) DxIndicator_ctor = (0, el)"
    by (simp add: DxIndicator_configure_def)
  from dx_element_publishes_percentages [OF el _ _ _ rs] el show ?thesis
    by (intro exI [of _ el] exI [of _ "dx_packets ?mdi ?pdi"]) (simp add: join_msgs_def join_answers_def)
qed

text \<open>What is saved has a port and is long enough to be read.\<close>

definition saved_ok :: "SavedPacket \<Rightarrow> bool" where
  "saved_ok sp \<longleftrightarrow> (sp_port sp = NO_PORT \<longleftrightarrow> sp_packet sp = None) \<and>
     (\<forall>q. sp_packet sp = Some q \<longrightarrow> sizeof_MsgIndicator \<le> length (pdata q))"

lemma match_saved_ok:
  assumes "saved_ok sp" and "port \<noteq> NO_PORT" and "sizeof_MsgIndicator \<le> length (pdata p)"
  shows "(\<exists>acts sp'. match_saved port p sp = Inr (Kept acts sp') \<and> saved_ok sp') \<or>
    (\<exists>q. match_saved port p sp = Inr (Matched q) \<and> sizeof_MsgIndicator \<le> length (pdata q))"
proof (cases "sp_packet sp")
  case None
  with assms show ?thesis by (auto simp: match_saved_def saved_ok_def)
next
  case (Some q)
  then have q: "get_MsgIndicator (pdata q) = Inr (ind_msg q)" "sizeof_MsgIndicator \<le> length (pdata q)" "sp_port sp \<noteq> NO_PORT"
    using assms(1) by (auto simp: saved_ok_def get_ind_msg)
  with Some assms show ?thesis by (auto simp: match_saved_def saved_ok_def get_ind_msg)
qed

definition readable :: "int \<times> Packet \<Rightarrow> bool" where
  "readable x \<longleftrightarrow> (packet_app_type (snd x) = MSG_INDICATOR \<longrightarrow> sizeof_MsgIndicator \<le> length (pdata (snd x)))"

lemma index_push_ok:
  assumes "saved_ok (di_saved_packet el)" and "readable x"
  shows "\<exists>acts el'. DirectionalIndex_push el x = Inr (acts, el') \<and> saved_ok (di_saved_packet el')"
proof -
  obtain port p where x: "x = (port, p)" by (cases x)
  let ?port = "di_detect_packet_port el port"
  show ?thesis
  proof (cases "di_active el \<and> packet_app_type p = MSG_INDICATOR \<and> ?port \<noteq> NO_PORT")
    case True
    then have p: "sizeof_MsgIndicator \<le> length (pdata p)" "?port \<noteq> NO_PORT" using assms(2) by (auto simp: x readable_def)
    from match_saved_ok [OF assms(1) p(2,1)] True p(1) show ?thesis
      by (auto simp: x DirectionalIndex_push_def get_packet_app_type_def get_ind_msg fixedpt_div_int Let_def
          saved_ok_def SavedPacket_ctor_def)
  qed (use assms(1) in \<open>auto simp: x DirectionalIndex_push_def get_packet_app_type_def Let_def\<close>)
qed

lemma dx_push_ok:
  assumes "saved_ok (dxi_saved_packet el)" and "readable x"
  shows "\<exists>acts el'. DxIndicator_push el x = Inr (acts, el') \<and> saved_ok (dxi_saved_packet el')"
proof -
  obtain port p where x: "x = (port, p)" by (cases x)
  let ?port = "dxi_detect_packet_port el port"
  show ?thesis
  proof (cases "dxi_active el \<and> packet_app_type p = MSG_INDICATOR \<and> ?port \<noteq> NO_PORT")
    case True
    then have p: "sizeof_MsgIndicator \<le> length (pdata p)" "?port \<noteq> NO_PORT" using assms(2) by (auto simp: x readable_def)
    define dx where "dx a b = projr (dx_of a b)" for a b
    have "dx_of a b = Inr (dx a b)" for a b unfolding dx_def by (rule dx_of_ok)
    with match_saved_ok [OF assms(1) p(2,1)] True p(1) show ?thesis
      by (auto simp: x DxIndicator_push_def get_packet_app_type_def get_ind_msg Let_def saved_ok_def SavedPacket_ctor_def)
  qed (use assms(1) in \<open>auto simp: x DxIndicator_push_def get_packet_app_type_def Let_def\<close>)
qed

lemma runs_ok:
  assumes "\<And>s x. I s \<Longrightarrow> P x \<Longrightarrow> \<exists>r s'. f s x = Inr (r, s') \<and> I s'" and "I s" and "list_all P xs"
  shows "\<exists>rs s'. run_ops f s xs = Inr (rs, s')"
  using assms(2,3)
proof (induction xs arbitrary: s)
  case (Cons x xs)
  obtain r s1 where "f s x = Inr (r, s1)" "I s1" using assms(1) Cons.prems by fastforce
  with Cons show ?case by fastforce
qed simp

text \<open>
  Property C21. The joining elements never fail. Whatever indicator messages come in on whatever ports, in
  any order and with any time stamps and values, and whatever other packets in between, neither element
  divides by zero or reaches for a saved packet that is not there.
\<close>

theorem joins_never_fail:
  assumes "DirectionalIndex_configure args DirectionalIndex_ctor = (rc, el)"
    and "DxIndicator_configure args' DxIndicator_ctor = (rc', dx)"
    and "list_all readable xs"
  shows "(\<exists>outs el'. run_ops DirectionalIndex_push el xs = Inr (outs, el')) \<and>
    (\<exists>outs dx'. run_ops DxIndicator_push dx xs = Inr (outs, dx'))"
proof -
  have "saved_ok (di_saved_packet el)" "saved_ok (dxi_saved_packet dx)"
    using assms(1,2)
    by (auto simp: DirectionalIndex_configure_def DirectionalIndex_ctor_def DxIndicator_configure_def DxIndicator_ctor_def
        saved_ok_def SavedPacket_ctor_def split: option.splits)
  with assms(3) show ?thesis
    using runs_ok [of "\<lambda>el. saved_ok (di_saved_packet el)" readable DirectionalIndex_push, OF index_push_ok]
      runs_ok [of "\<lambda>dx. saved_ok (dxi_saved_packet dx)" readable DxIndicator_push, OF dx_push_ok]
    by blast
qed

theorem joins_never_fail_witness:
  "(\<exists>outs el'. run_ops DirectionalIndex_push (snd (DirectionalIndex_configure (Some (None, 0, 1)) DirectionalIndex_ctor))
      [(0, indicator_sample sample_symbol 0 7), (0, trade_sample sample_symbol 5 6), (1, indicator_sample sample_symbol 1 7)] = Inr (outs, el')) \<and>
   (\<exists>outs dx'. run_ops DxIndicator_push (snd (DxIndicator_configure (Some (None, 0, 1)) DxIndicator_ctor))
      [(0, indicator_sample sample_symbol 0 7), (0, trade_sample sample_symbol 5 6), (1, indicator_sample sample_symbol 1 7)] = Inr (outs, dx'))"
proof -
  have "list_all readable [(0, indicator_sample sample_symbol 0 7), (0, trade_sample sample_symbol 5 6), (1, indicator_sample sample_symbol 1 7)]"
    using samples(1) [of 0 7] samples(1) [of 1 7] samples(3) [of 5 6]
    by (simp add: readable_def indicator_packet_def trade_packet_def)
  from joins_never_fail [OF surjective_pairing surjective_pairing this] show ?thesis .
qed

section \<open>Unset parameters\<close>

text \<open>
  INTERVAL_LEN is optional for \<open>DirectionalMovement\<close> and \<open>TrueRange\<close>, and its default is zero: without it the first trade
  ends the program.
\<close>

theorem unset_interval_traps:
  assumes "trade_packet p"
  shows "DirectionalMovement_push start DirectionalMovement_ctor (port, p) = Inl DivByZero \<and>
    TrueRange_push start TrueRange_ctor (port, p) = Inl DivByZero"
proof -
  have len: "sizeof_MsgTrade \<le> length (pdata p)" and ty: "packet_app_type p = MSG_TRADE" and can: "canonical (mt_symbol (trade_msg p))"
    using assms by (simp_all add: trade_packet_def)
  obtain m1 where m1: "get_or_create (HashMap_ctor HighLow_ctor) False (mt_symbol (trade_msg p)) HighLow_ctor = Inr (Some HighLow_ctor, True, m1)"
    using entry_stored [OF hm_inv_ctor can, of HighLow_ctor False HighLow_ctor] by (auto simp: entry_def)
  obtain m2 where m2: "get_or_create (HashMap_ctor HighLowClose_ctor) False (mt_symbol (trade_msg p)) HighLowClose_ctor =
      Inr (Some HighLowClose_ctor, True, m2)"
    using entry_stored [OF hm_inv_ctor can, of HighLowClose_ctor False HighLowClose_ctor] by (auto simp: entry_def)
  show ?thesis
    using len ty m1 m2
    by (simp add: DirectionalMovement_push_def DirectionalMovement_ctor_def TrueRange_push_def TrueRange_ctor_def
        get_packet_app_type_def get_trade_msg interval_num_def Let_def not_less)
qed

text \<open>
  The ports of \<open>DxIndicator\<close> are 0 before they are configured, so the test for unset ports, which looks for
  negative ones, does not see it: packets on port 0 are taken for the negative index, and no pair ever completes.
\<close>

theorem unset_dx_ports_are_taken:
  "dxi_detect_packet_port DxIndicator_ctor 0 = MDI_PORT \<and> (\<forall>port. dxi_detect_packet_port DxIndicator_ctor port \<noteq> PDI_PORT)"
  by (simp add: dxi_detect_packet_port_def DxIndicator_ctor_def)

end
