(* ===== verification/Chix_Handler.thy ===== *)
theory Chix_Handler
  imports Trade_Parsing
begin

text \<open>
  The handler of the Chi-X feed (elements/standard/chix_trade_handler.cc, .hh and chix_trade_handler_utils.hh). It keeps the
  open orders of the exchange in a hash map under their reference numbers: add messages enter an order,
  cancel messages and executions reduce it, and an execution goes out as a trade at the price of its order. The template
  parameters, offsets and lengths of the fields, are arguments of the definitions. Reading outside the
  packet is the fault \<open>OutOfBounds\<close>. Debug output and the report of the latency, which returns at once, are left out, and a packet is
  taken to be unshared at \<open>put(0)\<close>.
\<close>

section \<open>Fields\<close>

text \<open>\<open>memcpy(dst, src + ptr, n)\<close>.\<close>

definition memcpy :: "byte list \<Rightarrow> byte list \<Rightarrow> nat \<Rightarrow> nat \<Rightarrow> byte list res" where
  "memcpy dst src ptr n =
     (if n \<le> length dst \<and> ptr + n \<le> length src then Inr (take n (drop ptr src) @ drop n dst) else Inl OutOfBounds)"

text \<open>The byte is read before the remaining length is tested.\<close>

function eliminate_leading_whitespaces :: "byte list \<Rightarrow> nat \<Rightarrow> nat \<Rightarrow> (nat \<times> nat) res" where
  "eliminate_leading_whitespaces msg field_ptr remaining_len =
     bnd (arr_get msg field_ptr) (\<lambda>c.
       if c = 32 \<and> 0 < remaining_len then eliminate_leading_whitespaces msg (field_ptr + 1) (remaining_len - 1)
       else Inr (field_ptr, remaining_len))"
  by pat_completeness auto
termination
  by (relation "measure (\<lambda>(msg, field_ptr, remaining_len). remaining_len)") auto

declare eliminate_leading_whitespaces.simps [simp del]

text \<open>The whole and the decimal part, which the code keeps in variables of type \<open>int\<close>.\<close>

definition parse_add_order_price :: "nat \<Rightarrow> nat \<Rightarrow> nat \<Rightarrow> byte list \<Rightarrow> (32 word \<times> 32 word) res" where
  "parse_add_order_price PriceOffset PriceLen PriceWholeLen msg =
     (let PriceDecimalLen = PriceLen - PriceWholeLen
      in bnd (eliminate_leading_whitespaces msg PriceOffset PriceWholeLen) (\<lambda>(price_whole_ptr, remaining_len).
         bnd (memcpy (replicate PriceLen 0) msg price_whole_ptr remaining_len) (\<lambda>whole_part.
         bnd (strtol whole_part) (\<lambda>whole_part_int.
         bnd (memcpy (replicate PriceLen 0) msg (PriceOffset + PriceWholeLen) PriceDecimalLen) (\<lambda>decimal_part.
         bnd (strtol decimal_part) (\<lambda>decimal_part_int.
           Inr (word_of_int whole_part_int, word_of_int decimal_part_int)))))))"

definition parse_add_order_price_as_fixedpt :: "nat \<Rightarrow> nat \<Rightarrow> nat \<Rightarrow> byte list \<Rightarrow> fixedpt res" where
  "parse_add_order_price_as_fixedpt PriceOffset PriceLen PriceWholeLen msg =
     bnd (parse_add_order_price PriceOffset PriceLen PriceWholeLen msg) (\<lambda>(whole_part_int, decimal_part_int).
     bnd (fixedpt_div (fixedpt_fromint (sint decimal_part_int)) (fixedpt_fromint 10000)) (\<lambda>decimal_part_float.
       Inr (fixedpt_add (fixedpt_fromint (sint whole_part_int)) decimal_part_float)))"

text \<open>The \<open>long\<close> of \<open>strtol\<close>; its conversion to \<open>NumericType\<close> is written where the result is used.\<close>

definition parse_numeric :: "nat \<Rightarrow> nat \<Rightarrow> byte list \<Rightarrow> int res" where
  "parse_numeric Offset FieldLength msg =
     bnd (eliminate_leading_whitespaces msg Offset FieldLength) (\<lambda>(field_ptr, remaining_len).
     bnd (memcpy (replicate (FieldLength + 1) 0) msg field_ptr remaining_len) strtol)"

definition trim_alphanumeric_spaces :: "byte list \<Rightarrow> byte list" where
  "trim_alphanumeric_spaces field = map (\<lambda>i. if field ! i = 32 \<and> i \<noteq> 0 then 0 else field ! i) [0..<length field]"

section \<open>Orders\<close>

record OrderInfo =
  oi_price :: fixedpt
  oi_shares :: "64 word"
  oi_symbol :: "byte list"

definition OrderInfo_ctor :: OrderInfo where
  "OrderInfo_ctor = \<lparr>oi_price = 0, oi_shares = 0, oi_symbol = replicate ORDER_SYMBOL_LEN 0\<rparr>"

text \<open>The constructor takes the number of shares as an \<open>int\<close>.\<close>

definition OrderInfo_of :: "fixedpt \<Rightarrow> 32 word \<Rightarrow> byte list \<Rightarrow> OrderInfo" where
  "OrderInfo_of price shares symbol = \<lparr>oi_price = price, oi_shares = scast shares, oi_symbol = symbol\<rparr>"

datatype OrderMsgType = SHORT | LONG

text \<open>\<open>hashcode(int)\<close>, a conversion to \<open>size_t\<close>.\<close>

definition int_hashcode :: "32 word \<Rightarrow> 64 word" where
  "int_hashcode x = scast x"

record ChixTradeHandler =
  cx_orderMap :: "(32 word, OrderInfo) HashMap"
  cx_debug :: bool
  cx_active :: bool
  cx_mac_ip_udp_len :: nat

definition ChixTradeHandler_ctor :: ChixTradeHandler where
  "ChixTradeHandler_ctor = \<lparr>cx_orderMap = HashMap_ctor OrderInfo_ctor, cx_debug = False, cx_active = True,
     cx_mac_ip_udp_len = 42\<rparr>"

text \<open>\<open>configure\<close>: the argument is the value of \<open>DEBUG\<close> if there is one.\<close>

definition ChixTradeHandler_configure :: "bool option \<Rightarrow> ChixTradeHandler \<Rightarrow> int \<times> ChixTradeHandler" where
  "ChixTradeHandler_configure debug el = (0, case debug of None \<Rightarrow> el | Some d \<Rightarrow> el\<lparr>cx_debug := d\<rparr>)"

definition is_long_enough :: "byte \<Rightarrow> nat \<Rightarrow> bool" where
  "is_long_enough msg_type msg_len =
     (if msg_type = 65 then msg_len = 42
      else if msg_type = 97 then msg_len = 55
      else if msg_type = 88 then msg_len = 24
      else if msg_type = 120 then msg_len = 28
      else if msg_type = 69 then msg_len = 33
      else if msg_type = 101 then msg_len = 37
      else False)"

definition do_parse_add_order :: "nat \<Rightarrow> nat \<Rightarrow> nat \<Rightarrow> nat \<Rightarrow> nat \<Rightarrow> nat \<Rightarrow> nat \<Rightarrow> nat \<Rightarrow> nat \<Rightarrow>
    byte list \<Rightarrow> ChixTradeHandler \<Rightarrow> ChixTradeHandler res" where
  "do_parse_add_order SymbolOffset SymbolLen SharesOffset SharesLen RefNumOffset RefNumLen PriceOffset PriceLen
     PriceWholeLen md_msg el =
     bnd (memcpy (replicate ORDER_SYMBOL_LEN 0) md_msg SymbolOffset SymbolLen) (\<lambda>symbol.
     bnd (parse_add_order_price_as_fixedpt PriceOffset PriceLen PriceWholeLen md_msg) (\<lambda>price.
     bnd (parse_numeric SharesOffset SharesLen md_msg) (\<lambda>shares.
     bnd (parse_numeric RefNumOffset RefNumLen md_msg) (\<lambda>ref_num.
     bnd (hm_insert int_hashcode (=) (cx_orderMap el) (word_of_int ref_num)
            (OrderInfo_of price (word_of_int shares) (trim_alphanumeric_spaces symbol))) (\<lambda>(_, m).
       Inr (el\<lparr>cx_orderMap := m\<rparr>))))))"

text \<open>The end of \<open>do_parse_cancel_order\<close> and of \<open>do_parse_execute_order\<close>, \<open>info\<close> being the value of \<open>pair\<close>.\<close>

definition reduce_order :: "32 word \<Rightarrow> OrderInfo \<Rightarrow> 64 word \<Rightarrow> ChixTradeHandler \<Rightarrow> ChixTradeHandler res" where
  "reduce_order ref_num info shares el =
     (if oi_shares info - shares <s 1
      then bnd (hm_erase int_hashcode (=) (cx_orderMap el) ref_num) (\<lambda>(_, m). Inr (el\<lparr>cx_orderMap := m\<rparr>))
      else bnd (store_value int_hashcode (=) (cx_orderMap el) ref_num (info\<lparr>oi_shares := oi_shares info - shares\<rparr>)) (\<lambda>m.
             Inr (el\<lparr>cx_orderMap := m\<rparr>)))"

definition do_parse_cancel_order :: "nat \<Rightarrow> nat \<Rightarrow> nat \<Rightarrow> nat \<Rightarrow> byte list \<Rightarrow> ChixTradeHandler \<Rightarrow> ChixTradeHandler res" where
  "do_parse_cancel_order RefNumOffset RefNumLen CancelSharesOffset CancelSharesLen md_msg el =
     bnd (parse_numeric RefNumOffset RefNumLen md_msg) (\<lambda>n. let ref_num = word_of_int n in
     bnd (find_pair int_hashcode (=) (cx_orderMap el) ref_num) (\<lambda>pair. case pair of
         None \<Rightarrow> Inr el
       | Some (_, info) \<Rightarrow>
           bnd (parse_numeric CancelSharesOffset CancelSharesLen md_msg) (\<lambda>shares_to_cancel.
             reduce_order ref_num info (word_of_int shares_to_cancel) el)))"

definition send_msg_trade :: "nat \<Rightarrow> Packet \<Rightarrow> byte list \<Rightarrow> fixedpt \<Rightarrow> 64 word \<Rightarrow> 64 word \<Rightarrow> action" where
  "send_msg_trade noutputs packet symbol price shares timestamp =
     (let msg = MsgTrade_ctor\<lparr>mt_price := price, mt_size := shares, mt_timestamp := timestamp, mt_symbol := symbol\<rparr>
      in if sizeof_MsgTrade > length (pdata packet) then discard_packet packet
         else checked_output_push noutputs 0
                (set_packet_app_type MSG_TRADE (packet\<lparr>pdata := overwrite (pdata packet) (put_MsgTrade msg)\<rparr>)))"

text \<open>The flag is \<open>is_packet_reused\<close>.\<close>

definition do_parse_execute_order :: "nat \<Rightarrow> nat \<Rightarrow> nat \<Rightarrow> nat \<Rightarrow> nat \<Rightarrow> Packet \<Rightarrow> byte list \<Rightarrow> ChixTradeHandler \<Rightarrow>
    (bool \<times> action list \<times> ChixTradeHandler) res" where
  "do_parse_execute_order RefNumOffset RefNumLen ExecutedSharesOffset ExecutedSharesLen noutputs packet md_msg el =
     bnd (parse_numeric RefNumOffset RefNumLen md_msg) (\<lambda>n. let ref_num = word_of_int n in
     bnd (find_pair int_hashcode (=) (cx_orderMap el) ref_num) (\<lambda>pair. case pair of
         None \<Rightarrow> Inr (False, [], el)
       | Some (_, info) \<Rightarrow>
           bnd (parse_numeric ExecutedSharesOffset ExecutedSharesLen md_msg) (\<lambda>s.
             let executed_shares = word_of_int s :: 32 word in
           bnd (memcpy (replicate 8 0) md_msg 0 8) (\<lambda>timestampBuffer.
           bnd (atoi timestampBuffer) (\<lambda>timestamp.
           bnd (reduce_order ref_num info (scast executed_shares) el) (\<lambda>el'.
             Inr (True, [send_msg_trade noutputs packet (oi_symbol info) (oi_price info) (scast executed_shares)
                           (word_of_int timestamp)], el')))))))"

definition parse_add_order :: "byte list \<Rightarrow> OrderMsgType \<Rightarrow> ChixTradeHandler \<Rightarrow> ChixTradeHandler res" where
  "parse_add_order md_msg order_msg_type el =
     (case order_msg_type of
        SHORT \<Rightarrow> do_parse_add_order 25 6 19 6 9 9 31 10 6 md_msg el
      | LONG \<Rightarrow> do_parse_add_order 29 6 19 10 9 9 35 19 12 md_msg el)"

definition parse_cancel_order :: "byte list \<Rightarrow> OrderMsgType \<Rightarrow> ChixTradeHandler \<Rightarrow> ChixTradeHandler res" where
  "parse_cancel_order md_msg order_msg_type el =
     (case order_msg_type of
        SHORT \<Rightarrow> do_parse_cancel_order 9 9 18 6 md_msg el
      | LONG \<Rightarrow> do_parse_cancel_order 9 9 18 10 md_msg el)"

definition parse_execute_order :: "nat \<Rightarrow> Packet \<Rightarrow> byte list \<Rightarrow> OrderMsgType \<Rightarrow> ChixTradeHandler \<Rightarrow>
    (bool \<times> action list \<times> ChixTradeHandler) res" where
  "parse_execute_order noutputs packet md_msg order_msg_type el =
     (case order_msg_type of
        SHORT \<Rightarrow> do_parse_execute_order 9 9 18 6 noutputs packet md_msg el
      | LONG \<Rightarrow> do_parse_execute_order 9 9 18 10 noutputs packet md_msg el)"

text \<open>\<open>push\<close> for a packet that is not NULL.\<close>

definition ChixTradeHandler_push :: "nat \<Rightarrow> ChixTradeHandler \<Rightarrow> int \<times> Packet \<Rightarrow> (action list \<times> ChixTradeHandler) res" where
  "ChixTradeHandler_push noutputs el x =
     (case x of (port, p) \<Rightarrow>
        let md_msg_type_offset = 8; packet_len = length (pdata p)
        in if \<not> cx_active el then Inr ([discard_packet p], el)
           else if packet_len < cx_mac_ip_udp_len el + md_msg_type_offset + 1 then Inr ([discard_packet p], el)
           else let md_msg = drop (cx_mac_ip_udp_len el) (pdata p)
                in bnd (arr_get md_msg md_msg_type_offset) (\<lambda>msg_type.
                     if \<not> is_long_enough msg_type (packet_len - cx_mac_ip_udp_len el) then Inr ([discard_packet p], el)
                     else bnd (if msg_type = 65 then bnd (parse_add_order md_msg SHORT el) (\<lambda>el'. Inr (False, [], el'))
                               else if msg_type = 97 then bnd (parse_add_order md_msg LONG el) (\<lambda>el'. Inr (False, [], el'))
                               else if msg_type = 88 then bnd (parse_cancel_order md_msg SHORT el) (\<lambda>el'. Inr (False, [], el'))
                               else if msg_type = 120 then bnd (parse_cancel_order md_msg LONG el) (\<lambda>el'. Inr (False, [], el'))
                               else if msg_type = 69 then parse_execute_order noutputs p md_msg SHORT el
                               else if msg_type = 101 then parse_execute_order noutputs p md_msg LONG el
                               else Inr (False, [], el))
                          (\<lambda>(is_packet_reused, acts, el').
                            Inr (acts @ (if is_packet_reused then [] else [discard_packet p]), el'))))"

section \<open>Reading fields\<close>

text \<open>A number in a field of fixed width, padded with spaces on the left.\<close>

definition numeric_field :: "nat \<Rightarrow> byte list \<Rightarrow> bool" where
  "numeric_field n f \<longleftrightarrow>
     length f = n \<and> dropWhile ((=) 32) f \<noteq> [] \<and> list_all is_digit (dropWhile ((=) 32) f)"

definition field_val :: "byte list \<Rightarrow> nat" where
  "field_val f = digits_val (dropWhile ((=) 32) f)"

lemma numeric_field_split:
  assumes "numeric_field n f"
  shows "\<exists>k d ds. f = replicate k 32 @ d # ds \<and> n = k + Suc (length ds) \<and> d \<noteq> 32 \<and>
    (\<forall>c\<in>set (d # ds). is_digit c) \<and> field_val f = digits_val (d # ds)"
proof -
  let ?s = "takeWhile ((=) 32) f"
  have "replicate (length ?s) 32 = ?s"
    by (rule replicate_length_same) (auto dest: set_takeWhileD)
  then have f: "f = replicate (length ?s) 32 @ dropWhile ((=) 32) f"
    by (metis takeWhile_dropWhile_id)
  obtain d ds where ds: "dropWhile ((=) 32) f = d # ds"
    using assms by (cases "dropWhile ((=) 32) f") (auto simp: numeric_field_def)
  then have "d \<noteq> 32" by (metis dropWhile_eq_Cons_conv)
  with f ds assms show ?thesis
    by (intro exI [of _ "length ?s"] exI [of _ d] exI [of _ ds])
      (auto simp: numeric_field_def field_val_def list_all_iff simp del: length_takeWhile_le
        dest: arg_cong [where f = length])
qed

lemma field_val_bound: "numeric_field n f \<Longrightarrow> field_val f < 10 ^ n"
proof -
  assume "numeric_field n f"
  then obtain k d ds where "n = k + Suc (length ds)" "\<forall>c\<in>set (d # ds). is_digit c" "field_val f = digits_val (d # ds)"
    using numeric_field_split by blast
  then show ?thesis
    using less_le_trans [OF digits_val_bound [of "d # ds"] power_increasing [of "length (d # ds)" n]] by simp
qed

lemma eliminate_spaces:
  assumes "d \<noteq> 32" and "k \<le> n"
  shows "eliminate_leading_whitespaces (pre @ replicate k 32 @ d # post) (length pre) n = Inr (length pre + k, n - k)"
  using assms(2)
proof (induction k arbitrary: pre n)
  case 0
  then show ?case using assms(1) by (subst eliminate_leading_whitespaces.simps) (simp add: nth_append)
next
  case (Suc k)
  with Suc.IH [of "n - 1" "pre @ [32]"] show ?case
    by (subst eliminate_leading_whitespaces.simps) (simp add: nth_append)
qed

lemma skip_spaces_replicate: "skip_spaces (replicate k 32 @ cs) = skip_spaces cs"
  by (induction k) (simp_all add: is_space_def)

lemma strtol_field:
  assumes "numeric_field n f" and "n \<le> 18"
  shows "strtol (f @ 0 # rest) = Inr (int (field_val f))"
proof -
  obtain k d ds where f: "f = replicate k 32 @ d # ds" "n = k + Suc (length ds)" "\<forall>c\<in>set (d # ds). is_digit c"
    "field_val f = digits_val (d # ds)"
    using numeric_field_split [OF assms(1)] by blast
  then have "strtol (f @ 0 # rest) = strtol ((d # ds) @ 0 # rest)"
    by (simp add: strtol_def skip_spaces_replicate)
  with strtol_digits [OF f(3), of rest] f(2,4) assms(2) show ?thesis by simp
qed

lemma strtol_stripped:
  assumes "numeric_field n f" and "n \<le> 18" and "f = replicate k 32 @ cs"
  shows "strtol (cs @ 0 # rest) = Inr (int (field_val f))"
  using strtol_field [OF assms(1,2), of rest] assms(3) by (simp add: strtol_def skip_spaces_replicate)

text \<open>What the loop leaves of a field and what a buffer of NULs holds after it is copied there.\<close>

lemma stripped_field:
  assumes "numeric_field n f" and "n \<le> 18" and "length pre = off" and "n < m"
  shows "\<exists>ptr len buf. eliminate_leading_whitespaces (pre @ f @ post) off n = Inr (ptr, len) \<and>
    memcpy (replicate m 0) (pre @ f @ post) ptr len = Inr buf \<and> strtol buf = Inr (int (field_val f))"
proof -
  obtain k d ds where f: "f = replicate k 32 @ d # ds" "n = k + Suc (length ds)" "d \<noteq> 32"
    using numeric_field_split [OF assms(1)] by blast
  obtain j where j: "m - Suc (length ds) = Suc j"
    using assms(4) f(2) by (cases "m - Suc (length ds)") simp_all
  have "eliminate_leading_whitespaces (pre @ f @ post) off n = Inr (off + k, Suc (length ds))"
    using eliminate_spaces [OF f(3), of k n pre "ds @ post"] f(1,2) assms(3) by simp
  moreover have "memcpy (replicate m 0) (pre @ f @ post) (off + k) (Suc (length ds)) = Inr ((d # ds) @ 0 # replicate j 0)"
    using assms(3,4) f(1,2) j by (auto simp: memcpy_def)
  ultimately show ?thesis
    using strtol_stripped [OF assms(1,2) f(1), of "replicate j 0"] by blast
qed

lemma parse_numeric_field:
  assumes "numeric_field n f" and "n \<le> 18" and "length pre = off" and "md = pre @ f @ post"
  shows "parse_numeric off n md = Inr (int (field_val f))"
  using stripped_field [OF assms(1-3), of "n + 1" post] assms(4) by (auto simp: parse_numeric_def)

text \<open>
  The price of an order as the code reads it: the decimals count as ten-thousandths, however many there are. Both parts
  wrap around at 32 bits, and at 64 bits when they are shifted to the fixed-point format.
\<close>

definition int32 :: "nat \<Rightarrow> int" where
  "int32 n = sint (word_of_nat n :: 32 word)"

definition int64 :: "int \<Rightarrow> int" where
  "int64 x = sint (word_of_int x :: 64 word)"

definition price_raw :: "byte list \<Rightarrow> byte list \<Rightarrow> int" where
  "price_raw whole frac =
     int64 (int32 (field_val whole) * 2 ^ 40 + int64 (int32 (field_val frac) * 2 ^ 40) sdiv 10000)"

lemma sint_of_small: "n < 2 ^ 31 \<Longrightarrow> sint (word_of_nat n :: 32 word) = int n"
  using sint_word_of_int_id [of "int n", where 'a = 32] by simp

lemma int32_small: "n < 2 ^ 31 \<Longrightarrow> int32 n = int n"
  by (simp add: int32_def sint_of_small)

lemma int64_small: "- (2 ^ 63) \<le> x \<Longrightarrow> x < 2 ^ 63 \<Longrightarrow> int64 x = x"
  unfolding int64_def by (rule sint_word_of_int_id) simp_all

lemma decimals_div:
  "fixedpt_div (fixedpt_fromint x) (fixedpt_fromint 10000) = Inr (word_of_int (int64 (x * 2 ^ 40) sdiv 10000))"
proof -
  have ten: "sint (fixedpt_fromint 10000) = 10000 * 2 ^ 40" "fixedpt_fromint 10000 \<noteq> 0"
    by (simp_all add: fixedpt_fromint_int)
  have "a * 2 ^ 40 sdiv (10000 * 2 ^ 40) = a sdiv 10000" for a :: int
    by (simp add: signed_divide_int_def sgn_mult abs_mult)
  with ten show ?thesis
    by (simp add: fixedpt_div_int fixedpt_fromint_int int64_def)
qed

lemma parse_price_fields:
  assumes w: "numeric_field nw whole" and f: "numeric_field nf frac"
    and n: "nw \<le> 18" "nf \<le> 18" "0 < nw" and md: "length pre = off" "md = pre @ whole @ frac @ post"
  shows "parse_add_order_price_as_fixedpt off (nw + nf) nw md = Inr (word_of_int (price_raw whole frac))"
proof -
  have "0 < nf" using f by (auto simp: numeric_field_def)
  with stripped_field [OF w n(1) md(1), of "nw + nf" "frac @ post"] obtain ptr len buf where
    wh: "eliminate_leading_whitespaces md off nw = Inr (ptr, len)"
      "memcpy (replicate (nw + nf) 0) md ptr len = Inr buf" "strtol buf = Inr (int (field_val whole))"
    using md(2) by auto
  obtain j where j: "nw = Suc j" using n(3) by (cases nw) auto
  have "memcpy (replicate (nw + nf) 0) md (off + nw) nf = Inr (frac @ replicate nw 0)"
    using w f md by (auto simp: memcpy_def numeric_field_def)
  then have "memcpy (replicate (nw + nf) 0) md (off + nw) nf = Inr (frac @ 0 # replicate j 0)"
    by (simp add: j)
  with wh strtol_field [OF f n(2), of "replicate j 0"]
  have parts: "parse_add_order_price off (nw + nf) nw md = Inr (word_of_nat (field_val whole), word_of_nat (field_val frac))"
    by (simp add: parse_add_order_price_def Let_def)
  show ?thesis
    unfolding parse_add_order_price_as_fixedpt_def parts bnd_Inr prod.case int32_def [symmetric] decimals_div
    by (simp add: fixedpt_add_def fixedpt_fromint_int price_raw_def int64_def [of "_ + _"])
qed

lemma sint_price_raw: "sint (word_of_int (price_raw whole frac) :: fixedpt) = price_raw whole frac"
  by (simp add: price_raw_def int64_def [of "_ + _"])

text \<open>Where nothing wraps around.\<close>

lemma price_raw_small:
  assumes "field_val whole < 2 ^ 22" and "field_val frac < 2 ^ 23"
  shows "price_raw whole frac = int (field_val whole) * 2 ^ 40 + int (field_val frac) * 2 ^ 40 div 10000"
proof -
  let ?w = "int (field_val whole)" and ?f = "int (field_val frac)"
  have b: "?f < 2 ^ 23" "0 \<le> ?f" "?w < 2 ^ 22" "0 \<le> ?w" using assms by simp_all
  have "int32 (field_val whole) = ?w" "int32 (field_val frac) = ?f" using assms by (simp_all add: int32_small)
  moreover have "int64 (?f * 2 ^ 40) = ?f * 2 ^ 40" using b by (intro int64_small) simp_all
  moreover have "(?f * 2 ^ 40) sdiv 10000 = ?f * 2 ^ 40 div 10000" using b by (simp add: signed_divide_int_def sgn_if)
  moreover have "int64 (?w * 2 ^ 40 + ?f * 2 ^ 40 div 10000) = ?w * 2 ^ 40 + ?f * 2 ^ 40 div 10000"
  proof (intro int64_small)
    have "0 \<le> ?f * 2 ^ 40 div 10000" "?f * 2 ^ 40 div 10000 \<le> 2 ^ 23 * 2 ^ 40 div 10000"
      using b by (simp_all add: pos_imp_zdiv_nonneg_iff zdiv_mono1)
    with b show "- (2 ^ 63) \<le> ?w * 2 ^ 40 + ?f * 2 ^ 40 div 10000" "?w * 2 ^ 40 + ?f * 2 ^ 40 div 10000 < 2 ^ 63" by simp_all
  qed
  ultimately show ?thesis by (simp add: price_raw_def)
qed

text \<open>From \<open>2 ^ 23\<close> on, the decimals come out negative.\<close>

lemma price_raw_wrapped:
  assumes "field_val whole < 2 ^ 22" and "2 ^ 23 \<le> field_val frac" and "field_val frac < 10 ^ 7"
  shows "price_raw whole frac < int (field_val whole) * 2 ^ 40"
proof -
  let ?w = "int (field_val whole)" and ?f = "int (field_val frac)"
  have b: "2 ^ 23 \<le> ?f" "?f < 10 ^ 7" "?w < 2 ^ 22" "0 \<le> ?w" using assms by simp_all
  have i: "int32 (field_val whole) = ?w" "int32 (field_val frac) = ?f" using assms by (simp_all add: int32_small)
  have "word_of_int (?f * 2 ^ 40) = (word_of_int (?f * 2 ^ 40 - 2 ^ 64) :: 64 word)"
    by (simp add: word_of_int_eq_iff take_bit_eq_mod mod_diff_right_eq [symmetric, of _ "2 ^ 64"] del: mod_diff_right_eq)
  then have "int64 (?f * 2 ^ 40) = int64 (?f * 2 ^ 40 - 2 ^ 64)"
    unfolding int64_def by (rule arg_cong [where f = sint])
  also have "\<dots> = ?f * 2 ^ 40 - 2 ^ 64" using b by (intro int64_small) simp_all
  finally have d: "int64 (?f * 2 ^ 40) = ?f * 2 ^ 40 - 2 ^ 64" .
  define q where "q = (2 ^ 64 - ?f * 2 ^ 40) div 10000"
  have neg: "?f * 2 ^ 40 - 2 ^ 64 < 0" using b by simp
  then have "(?f * 2 ^ 40 - 2 ^ 64) sdiv 10000 = - q"
    by (simp add: signed_divide_int_def q_def)
  moreover have "(2 ^ 64 - 10 ^ 7 * 2 ^ 40) div 10000 \<le> q" "q \<le> (2 ^ 64 - 2 ^ 23 * 2 ^ 40) div 10000"
    unfolding q_def using b by (intro zdiv_mono1; simp)+
  then have q: "0 < q" "q < 2 ^ 60" by simp_all
  moreover have "int64 (?w * 2 ^ 40 - q) = ?w * 2 ^ 40 - q" using b q by (intro int64_small) simp_all
  ultimately show ?thesis unfolding price_raw_def i d by simp
qed


section \<open>The order book\<close>

text \<open>
  The messages of the feed by their fields: the time in eight characters, the reference number in nine,
  the side, the shares, the symbol in six characters, the two parts of the price, the display flag and the number
  of the trade.
\<close>

datatype chix_msg =
    AddOrder OrderMsgType "byte list" "byte list" byte "byte list" "byte list" "byte list" "byte list" byte
  | CancelOrder OrderMsgType "byte list" "byte list" "byte list"
  | ExecuteOrder OrderMsgType "byte list" "byte list" "byte list" "byte list"

fun wire :: "chix_msg \<Rightarrow> byte list" where
  "wire (AddOrder ty time ref side shares sy whole frac flag) =
     time @ (case ty of SHORT \<Rightarrow> 65 | LONG \<Rightarrow> 97) # ref @ side # shares @ sy @ whole @ frac @ [flag]"
| "wire (CancelOrder ty time ref shares) = time @ (case ty of SHORT \<Rightarrow> 88 | LONG \<Rightarrow> 120) # ref @ shares"
| "wire (ExecuteOrder ty time ref shares trade) =
     time @ (case ty of SHORT \<Rightarrow> 69 | LONG \<Rightarrow> 101) # ref @ shares @ trade"

definition shares_ok :: "OrderMsgType \<Rightarrow> byte list \<Rightarrow> bool" where
  "shares_ok ty f \<longleftrightarrow> numeric_field (case ty of SHORT \<Rightarrow> 6 | LONG \<Rightarrow> 10) f \<and> field_val f < 2 ^ 31"

fun chix_ok :: "chix_msg \<Rightarrow> bool" where
  "chix_ok (AddOrder ty time ref side shares sy whole frac flag) \<longleftrightarrow>
     length time = 8 \<and> numeric_field 9 ref \<and> shares_ok ty shares \<and> length sy = 6 \<and>
     numeric_field (case ty of SHORT \<Rightarrow> 6 | LONG \<Rightarrow> 12) whole \<and>
     numeric_field (case ty of SHORT \<Rightarrow> 4 | LONG \<Rightarrow> 7) frac"
| "chix_ok (CancelOrder ty time ref shares) \<longleftrightarrow> length time = 8 \<and> numeric_field 9 ref \<and> shares_ok ty shares"
| "chix_ok (ExecuteOrder ty time ref shares trade) \<longleftrightarrow>
     numeric_field 8 time \<and> numeric_field 9 ref \<and> shares_ok ty shares \<and> length trade = 9"

text \<open>The book: price, open shares and symbol of every order.\<close>

type_synonym book = "nat \<rightharpoonup> int \<times> nat \<times> byte list"

definition book_symbol :: "byte list \<Rightarrow> byte list" where
  "book_symbol sy = trim_alphanumeric_spaces (sy @ replicate 4 0)"

definition book_reduce :: "nat \<Rightarrow> nat \<Rightarrow> book \<Rightarrow> book" where
  "book_reduce r n b =
     (case b r of None \<Rightarrow> b | Some (price, s, sy) \<Rightarrow> if s \<le> n then b(r := None) else b(r \<mapsto> (price, s - n, sy)))"

fun book_step :: "book \<Rightarrow> chix_msg \<Rightarrow> book" where
  "book_step b (AddOrder ty time ref side shares sy whole frac flag) =
     b(field_val ref \<mapsto> (price_raw whole frac, field_val shares, book_symbol sy))"
| "book_step b (CancelOrder ty time ref shares) = book_reduce (field_val ref) (field_val shares) b"
| "book_step b (ExecuteOrder ty time ref shares trade) = book_reduce (field_val ref) (field_val shares) b"

definition chix_packet :: "byte list \<Rightarrow> chix_msg \<Rightarrow> Packet" where
  "chix_packet hdr m = \<lparr>pdata = hdr @ wire m, packet_app_type = NO_APP_MSG\<rparr>"

text \<open>An execution of an open order goes out as a trade, which takes the place of the headers.\<close>

fun book_answer :: "book \<Rightarrow> byte list \<times> chix_msg \<Rightarrow> action list" where
  "book_answer b (hdr, ExecuteOrder ty time ref shares trade) =
     (case b (field_val ref) of
        None \<Rightarrow> [KillPkt (chix_packet hdr (ExecuteOrder ty time ref shares trade))]
      | Some (price, s, sy) \<Rightarrow>
          [PushOut 0 \<lparr>pdata = put_MsgTrade \<lparr>mt_price = word_of_int price, mt_size = word_of_nat (field_val shares), mt_symbol = sy,
               mt_timestamp = word_of_nat (field_val time), mt_src_timestamp = 0\<rparr> @ wire (ExecuteOrder ty time ref shares trade),
             packet_app_type = MSG_TRADE\<rparr>])"
| "book_answer b (hdr, m) = [KillPkt (chix_packet hdr m)]"

definition book_op :: "book \<Rightarrow> byte list \<times> chix_msg \<Rightarrow> (action list \<times> book) res" where
  "book_op b x = Inr (book_answer b x, book_step b (snd x))"

definition chix_deliver :: "nat \<Rightarrow> ChixTradeHandler \<Rightarrow> byte list \<times> chix_msg \<Rightarrow> (action list \<times> ChixTradeHandler) res" where
  "chix_deliver noutputs el x = ChixTradeHandler_push noutputs el (0, chix_packet (fst x) (snd x))"

section \<open>The handler keeps the book\<close>

interpretation ref_key: hash_key "\<lambda>_. True" int_hashcode "(=)"
  by unfold_locales simp

text \<open>The book that the map of the handler stands for.\<close>

definition chix_book :: "ChixTradeHandler \<Rightarrow> book" where
  "chix_book el = (\<lambda>r. if r < 2 ^ 31
     then map_option (\<lambda>i. (sint (oi_price i), unat (oi_shares i), oi_symbol i)) (hm_abs (cx_orderMap el) (word_of_nat r))
     else None)"

definition chix_inv :: "ChixTradeHandler \<Rightarrow> bool" where
  "chix_inv el \<longleftrightarrow> cx_active el \<and> cx_mac_ip_udp_len el = 42 \<and> hm_inv (\<lambda>_. True) int_hashcode (cx_orderMap el) \<and>
     (\<forall>i \<in> ran (hm_abs (cx_orderMap el)). unat (oi_shares i) < 2 ^ 31 \<and> length (oi_symbol i) = 10)"

lemma ref_inj: "r < 2 ^ 31 \<Longrightarrow> r' < 2 ^ 31 \<Longrightarrow> (word_of_nat r :: 32 word) = word_of_nat r' \<longleftrightarrow> r = r'"
  by (auto dest: arg_cong [where f = unat] simp: unat_of_nat)

text \<open>Changing the map under one reference number changes the book there.\<close>

lemma chix_book_update:
  assumes "r < 2 ^ 31" and "hm_abs m = (hm_abs (cx_orderMap el))(word_of_nat r := v)"
  shows "chix_book (el\<lparr>cx_orderMap := m\<rparr>) =
    (chix_book el)(r := map_option (\<lambda>i. (sint (oi_price i), unat (oi_shares i), oi_symbol i)) v)"
  using assms ref_inj [OF _ assms(1)] by (auto simp: chix_book_def fun_eq_iff)

lemma chix_inv_update:
  assumes "chix_inv el" and "hm_inv (\<lambda>_. True) int_hashcode m" and "hm_abs m = (hm_abs (cx_orderMap el))(k := v)"
    and "\<And>i. v = Some i \<Longrightarrow> unat (oi_shares i) < 2 ^ 31 \<and> length (oi_symbol i) = 10"
  shows "chix_inv (el\<lparr>cx_orderMap := m\<rparr>)"
  using assms unfolding chix_inv_def ran_def by (auto split: if_splits)

lemma ref_bound: "numeric_field 9 ref \<Longrightarrow> field_val ref < 2 ^ 31"
  using field_val_bound [of 9 ref] by simp

text \<open>The shares of an order and the number to take away, as 64-bit integers.\<close>

lemma reduce_shares:
  assumes "unat s < 2 ^ 31" and "n < 2 ^ 31"
  shows "s - word_of_nat n <s (1 :: 64 word) \<longleftrightarrow> unat s \<le> n"
    and "\<not> unat s \<le> n \<Longrightarrow> unat (s - word_of_nat n) = unat s - n"
proof -
  have n: "unat (word_of_nat n :: 64 word) = n" using assms(2) by (simp add: unat_of_nat)
  define k where "k = unat s"
  then have s: "s = word_of_nat k" by simp
  have "sint (s - word_of_nat n) = int k - int n"
    using assms sint_word_of_int_id [of "int k - int n", where 'a = 64] unfolding k_def [symmetric]
    by (simp add: s)
  then show "s - word_of_nat n <s 1 \<longleftrightarrow> unat s \<le> n"
    unfolding k_def [symmetric] by (auto simp: word_sless_alt)
  show "unat (s - word_of_nat n) = unat s - n" if "\<not> unat s \<le> n"
    using that n by (simp add: unat_sub word_le_nat_alt)
qed

lemma reduce_order_book:
  assumes inv: "chix_inv el" and r: "r < 2 ^ 31" and n: "n < 2 ^ 31"
    and info: "hm_abs (cx_orderMap el) (word_of_nat r) = Some info"
  shows "\<exists>el'. reduce_order (word_of_nat r) info (word_of_nat n) el = Inr el' \<and> chix_inv el' \<and>
    chix_book el' = book_reduce r n (chix_book el)"
proof -
  have m: "hm_inv (\<lambda>_. True) int_hashcode (cx_orderMap el)" using inv by (simp add: chix_inv_def)
  have i: "unat (oi_shares info) < 2 ^ 31" "length (oi_symbol info) = 10"
    using inv info by (auto simp: chix_inv_def ran_def)
  have b: "chix_book el r = Some (sint (oi_price info), unat (oi_shares info), oi_symbol info)"
    using r info by (simp add: chix_book_def)
  note rs = reduce_shares [OF i(1) n]
  show ?thesis
  proof (cases "unat (oi_shares info) \<le> n")
    case True
    obtain m' where m': "hm_erase int_hashcode (=) (cx_orderMap el) (word_of_nat r) = Inr (True, m')"
      "hm_inv (\<lambda>_. True) int_hashcode m'" "hm_abs m' = (hm_abs (cx_orderMap el))(word_of_nat r := None)"
      using ref_key.hm_erase_abs [OF m TrueI, of "word_of_nat r"] info by auto
    then show ?thesis
      using True rs(1) b chix_book_update [OF r m'(3)] chix_inv_update [OF inv m'(2,3)]
      by (simp add: reduce_order_def book_reduce_def)
  next
    case False
    let ?i = "info\<lparr>oi_shares := oi_shares info - word_of_nat n\<rparr>"
    obtain m' where m': "store_value int_hashcode (=) (cx_orderMap el) (word_of_nat r) ?i = Inr m'"
      "hm_inv (\<lambda>_. True) int_hashcode m'" "hm_abs m' = (hm_abs (cx_orderMap el))(word_of_nat r := Some ?i)"
      using ref_key.store_value_abs [OF m TrueI info, of ?i] by auto
    then show ?thesis
      using False rs i b chix_book_update [OF r m'(3)] chix_inv_update [OF inv m'(2,3)]
      by (simp add: reduce_order_def book_reduce_def)
  qed
qed


lemma scast_of_small: "n < 2 ^ 31 \<Longrightarrow> scast (word_of_nat n :: 32 word) = (word_of_nat n :: 64 word)"
  by (metis of_int_of_nat_eq of_int_sint scast_eq sint_of_small)

lemma memcpy_field:
  "length pre = ptr \<Longrightarrow> length f = n \<Longrightarrow> n \<le> length dst \<Longrightarrow> memcpy dst (pre @ f @ post) ptr n = Inr (f @ drop n dst)"
  by (auto simp: memcpy_def)

lemma add_order_book:
  assumes inv: "chix_inv el" and len: "length time = 8" "length sy = 6" and ref: "numeric_field 9 ref"
    and sh: "numeric_field ns shares" "ns \<le> 18" "field_val shares < 2 ^ 31"
    and w: "numeric_field nw whole" "0 < nw" "nw \<le> 18"
    and f: "numeric_field nf frac" "nf \<le> 18"
    and md: "md = time @ t # ref @ side # shares @ sy @ whole @ frac @ rest"
  shows "\<exists>el'. do_parse_add_order (19 + ns) 6 19 ns 9 9 (25 + ns) (nw + nf) nw md el = Inr el' \<and> chix_inv el' \<and>
    chix_book el' = (chix_book el)(field_val ref \<mapsto> (price_raw whole frac, field_val shares, book_symbol sy))"
proof -
  have lens: "length ref = 9" "length shares = ns"
    using ref sh(1) by (simp_all add: numeric_field_def)
  have "memcpy (replicate ORDER_SYMBOL_LEN 0) md (19 + ns) 6 = Inr (sy @ replicate 4 0)"
    using memcpy_field [of "time @ t # ref @ side # shares" "19 + ns" sy 6 "replicate 10 0" "whole @ frac @ rest"] len lens
    by (simp add: md ORDER_SYMBOL_LEN_def)
  moreover have "parse_add_order_price_as_fixedpt (25 + ns) (nw + nf) nw md = Inr (word_of_int (price_raw whole frac))"
    using parse_price_fields [OF w(1) f(1) w(3) f(2) w(2), of "time @ t # ref @ side # shares @ sy" "25 + ns" md rest]
      len lens md by simp
  moreover have "parse_numeric 19 ns md = Inr (int (field_val shares))"
    using parse_numeric_field [OF sh(1,2), of "time @ t # ref @ [side]" 19 md] len lens md by simp
  moreover have "parse_numeric 9 9 md = Inr (int (field_val ref))"
    using parse_numeric_field [OF ref, of "time @ [t]" 9 md] len md by simp
  moreover define i where "i = OrderInfo_of (word_of_int (price_raw whole frac)) (word_of_nat (field_val shares)) (book_symbol sy)"
  ultimately have run: "do_parse_add_order (19 + ns) 6 19 ns 9 9 (25 + ns) (nw + nf) nw md el =
      bnd (hm_insert int_hashcode (=) (cx_orderMap el) (word_of_nat (field_val ref)) i) (\<lambda>(_, m). Inr (el\<lparr>cx_orderMap := m\<rparr>))"
    by (simp add: do_parse_add_order_def book_symbol_def)
  have m: "hm_inv (\<lambda>_. True) int_hashcode (cx_orderMap el)" using inv by (simp add: chix_inv_def)
  obtain c m' where m': "hm_insert int_hashcode (=) (cx_orderMap el) (word_of_nat (field_val ref)) i = Inr (c, m')"
    "hm_inv (\<lambda>_. True) int_hashcode m'" "hm_abs m' = (hm_abs (cx_orderMap el))(word_of_nat (field_val ref) := Some i)"
    using ref_key.hm_insert_abs [OF m TrueI, of "word_of_nat (field_val ref)" i] by blast
  have i: "sint (oi_price i) = price_raw whole frac" "unat (oi_shares i) = field_val shares" "oi_symbol i = book_symbol sy"
    using sint_price_raw sh(3) by (simp_all add: i_def OrderInfo_of_def scast_of_small unat_of_nat)
  moreover have "length (book_symbol sy) = 10"
    using len(2) by (simp add: book_symbol_def trim_alphanumeric_spaces_def)
  ultimately show ?thesis
    using chix_book_update [OF ref_bound [OF ref] m'(3)] chix_inv_update [OF inv m'(2,3)] sh(3)
    by (simp add: run m'(1))
qed

text \<open>The part that cancellations and executions share: the reference number and the order found there.\<close>

lemma order_found:
  assumes inv: "chix_inv el" and len: "length time = 8" and ref: "numeric_field 9 ref" and md: "md = time @ t # ref @ rest"
  shows "parse_numeric 9 9 md = Inr (int (field_val ref))"
    and "find_pair int_hashcode (=) (cx_orderMap el) (word_of_nat (field_val ref)) =
      Inr (map_option (Pair (word_of_nat (field_val ref))) (hm_abs (cx_orderMap el) (word_of_nat (field_val ref))))"
    and "chix_book el (field_val ref) = map_option (\<lambda>i. (sint (oi_price i), unat (oi_shares i), oi_symbol i))
      (hm_abs (cx_orderMap el) (word_of_nat (field_val ref)))"
proof -
  show "parse_numeric 9 9 md = Inr (int (field_val ref))"
    using parse_numeric_field [OF ref, of "time @ [t]" 9 md] len md by simp
  show "find_pair int_hashcode (=) (cx_orderMap el) (word_of_nat (field_val ref)) =
      Inr (map_option (Pair (word_of_nat (field_val ref))) (hm_abs (cx_orderMap el) (word_of_nat (field_val ref))))"
    using inv by (intro ref_key.find_pair_abs) (simp_all add: chix_inv_def)
  show "chix_book el (field_val ref) = map_option (\<lambda>i. (sint (oi_price i), unat (oi_shares i), oi_symbol i))
      (hm_abs (cx_orderMap el) (word_of_nat (field_val ref)))"
    using ref_bound [OF ref] by (simp add: chix_book_def)
qed

lemma cancel_order_book:
  assumes inv: "chix_inv el" and len: "length time = 8" and ref: "numeric_field 9 ref"
    and sh: "numeric_field ns shares" "ns \<le> 18" "field_val shares < 2 ^ 31" and md: "md = time @ t # ref @ shares"
  shows "\<exists>el'. do_parse_cancel_order 9 9 18 ns md el = Inr el' \<and> chix_inv el' \<and>
    chix_book el' = book_reduce (field_val ref) (field_val shares) (chix_book el)"
proof -
  have lr: "length ref = 9" using ref by (simp add: numeric_field_def)
  note found = order_found [OF inv len ref md]
  have n: "parse_numeric 18 ns md = Inr (int (field_val shares))"
    using parse_numeric_field [OF sh(1,2), of "time @ t # ref" 18 md "[]"] len lr md by simp
  show ?thesis
  proof (cases "hm_abs (cx_orderMap el) (word_of_nat (field_val ref))")
    case None
    then show ?thesis using found inv by (simp add: do_parse_cancel_order_def book_reduce_def)
  next
    case (Some info)
    then show ?thesis
      using reduce_order_book [OF inv ref_bound [OF ref] sh(3) Some] found n
      by (simp add: do_parse_cancel_order_def Let_def)
  qed
qed

lemma execute_order_book:
  assumes inv: "chix_inv el" and time: "numeric_field 8 time" and ref: "numeric_field 9 ref"
    and sh: "numeric_field ns shares" "ns \<le> 18" "field_val shares < 2 ^ 31" and md: "md = time @ t # ref @ shares @ trade"
  shows "\<exists>el'. do_parse_execute_order 9 9 18 ns nout p md el =
      Inr (case chix_book el (field_val ref) of None \<Rightarrow> (False, [], el')
           | Some (price, s, sy) \<Rightarrow> (True, [send_msg_trade nout p sy (word_of_int price) (word_of_nat (field_val shares))
               (word_of_nat (field_val time))], el')) \<and>
    chix_inv el' \<and> chix_book el' = book_reduce (field_val ref) (field_val shares) (chix_book el)"
proof -
  have lr: "length ref = 9" "length time = 8" using ref time by (simp_all add: numeric_field_def)
  note found = order_found [OF inv lr(2) ref md]
  have n: "parse_numeric 18 ns md = Inr (int (field_val shares))"
    using parse_numeric_field [OF sh(1,2), of "time @ t # ref" 18 md trade] lr md by simp
  have tb: "memcpy (replicate 8 0) md 0 8 = Inr time" using lr(2) by (simp add: memcpy_def md)
  have "field_val time < 2 ^ 31" using field_val_bound [OF time] by simp
  then have at: "atoi time = Inr (int (field_val time))"
    using strtol_field [OF time, of "[]"] by (simp add: atoi_def sint_of_small)
  show ?thesis
  proof (cases "hm_abs (cx_orderMap el) (word_of_nat (field_val ref))")
    case None
    then show ?thesis using found inv by (simp add: do_parse_execute_order_def book_reduce_def)
  next
    case (Some info)
    then show ?thesis
      using reduce_order_book [OF inv ref_bound [OF ref] sh(3) Some] found n tb at scast_of_small [OF sh(3)]
      by (auto simp: do_parse_execute_order_def Let_def)
  qed
qed


text \<open>How \<open>push\<close> takes a well-formed packet apart.\<close>

definition keep_packet :: "ChixTradeHandler res \<Rightarrow> (bool \<times> action list \<times> ChixTradeHandler) res" where
  "keep_packet r = bnd r (\<lambda>el'. Inr (False, [], el'))"

fun chix_parse :: "nat \<Rightarrow> Packet \<Rightarrow> chix_msg \<Rightarrow> ChixTradeHandler \<Rightarrow> (bool \<times> action list \<times> ChixTradeHandler) res" where
  "chix_parse nout p (AddOrder ty time ref side shares sy whole frac flag) el =
     keep_packet (parse_add_order (wire (AddOrder ty time ref side shares sy whole frac flag)) ty el)"
| "chix_parse nout p (CancelOrder ty time ref shares) el =
     keep_packet (parse_cancel_order (wire (CancelOrder ty time ref shares)) ty el)"
| "chix_parse nout p (ExecuteOrder ty time ref shares trade) el =
     parse_execute_order nout p (wire (ExecuteOrder ty time ref shares trade)) ty el"

text \<open>The lengths of the fields.\<close>

fun chix_shape :: "chix_msg \<Rightarrow> bool" where
  "chix_shape (AddOrder ty time ref side shares sy whole frac flag) \<longleftrightarrow>
     length time = 8 \<and> length ref = 9 \<and> length sy = 6 \<and>
     length (shares @ whole @ frac) = (case ty of SHORT \<Rightarrow> 16 | LONG \<Rightarrow> 29)"
| "chix_shape (CancelOrder ty time ref shares) \<longleftrightarrow>
     length time = 8 \<and> length ref = 9 \<and> length shares = (case ty of SHORT \<Rightarrow> 6 | LONG \<Rightarrow> 10)"
| "chix_shape (ExecuteOrder ty time ref shares trade) \<longleftrightarrow>
     length time = 8 \<and> length ref = 9 \<and> length shares = (case ty of SHORT \<Rightarrow> 6 | LONG \<Rightarrow> 10) \<and> length trade = 9"

lemma chix_ok_shape: "chix_ok m \<Longrightarrow> chix_shape m"
  by (cases m) (auto simp: numeric_field_def shares_ok_def split: OrderMsgType.splits)

lemma push_dispatch:
  assumes "chix_inv el" and "length hdr = 42" and "chix_shape m"
  shows "chix_deliver nout el (hdr, m) = bnd (chix_parse nout (chix_packet hdr m) m el) (\<lambda>(reused, acts, el').
    Inr (acts @ (if reused then [] else [KillPkt (chix_packet hdr m)]), el'))"
proof -
  have el: "cx_active el" "cx_mac_ip_udp_len el = 42" using assms(1) by (simp_all add: chix_inv_def)
  have data: "pdata (chix_packet hdr m) = hdr @ wire m" by (simp add: chix_packet_def)
  show ?thesis
    unfolding chix_deliver_def ChixTradeHandler_push_def discard_packet_def prod.case fst_conv snd_conv Let_def data
    using assms(2,3) el
    by (cases m)
      (auto simp: is_long_enough_def nth_append keep_packet_def arr_get_def split: OrderMsgType.splits)
qed

lemma send_trade_answer:
  assumes "length hdr = 42" and "0 < nout" and "length sy = 10"
  shows "send_msg_trade nout (chix_packet hdr m) sy price n ts =
    PushOut 0 \<lparr>pdata = put_MsgTrade \<lparr>mt_price = price, mt_size = n, mt_symbol = sy, mt_timestamp = ts, mt_src_timestamp = 0\<rparr> @ wire m,
      packet_app_type = MSG_TRADE\<rparr>"
  using assms by (simp add: send_msg_trade_def chix_packet_def sizeof_MsgTrade_def checked_output_push_def
      set_packet_app_type_def MsgTrade_ctor_def overwrite_def put_MsgTrade_def)

lemma chix_step_sim:
  assumes inv: "chix_inv el" and hdr: "length hdr = 42" and ok: "chix_ok m" and nout: "0 < nout"
  shows "\<exists>el'. chix_deliver nout el (hdr, m) = Inr (book_answer (chix_book el) (hdr, m), el') \<and> chix_inv el' \<and>
    chix_book el' = book_step (chix_book el) m"
proof -
  note dispatch = push_dispatch [OF inv hdr chix_ok_shape [OF ok], of nout]
  show ?thesis
  proof (cases m)
    case (AddOrder ty time ref side shares sy whole frac flag)
    have "\<exists>el'. parse_add_order (wire m) ty el = Inr el' \<and> chix_inv el' \<and> chix_book el' = book_step (chix_book el) m"
      using ok add_order_book [OF inv, of time sy ref 6 shares 6 whole 4 frac "wire m" 65 side "[flag]"]
        add_order_book [OF inv, of time sy ref 10 shares 12 whole 7 frac "wire m" 97 side "[flag]"]
      by (cases ty) (simp_all add: AddOrder shares_ok_def parse_add_order_def)
    with dispatch show ?thesis by (auto simp: AddOrder keep_packet_def)
  next
    case (CancelOrder ty time ref shares)
    have "\<exists>el'. parse_cancel_order (wire m) ty el = Inr el' \<and> chix_inv el' \<and> chix_book el' = book_step (chix_book el) m"
      using ok cancel_order_book [OF inv, of time ref 6 shares "wire m" 88] cancel_order_book [OF inv, of time ref 10 shares "wire m" 120]
      by (cases ty) (simp_all add: CancelOrder shares_ok_def parse_cancel_order_def)
    with dispatch show ?thesis by (auto simp: CancelOrder keep_packet_def)
  next
    case (ExecuteOrder ty time ref shares trade)
    let ?p = "chix_packet hdr m"
    have "\<exists>el'. parse_execute_order nout ?p (wire m) ty el =
        Inr (case chix_book el (field_val ref) of None \<Rightarrow> (False, [], el')
             | Some (price, s, sy) \<Rightarrow> (True, [send_msg_trade nout ?p sy (word_of_int price) (word_of_nat (field_val shares))
                 (word_of_nat (field_val time))], el')) \<and> chix_inv el' \<and> chix_book el' = book_step (chix_book el) m"
      using ok execute_order_book [OF inv, of time ref 6 shares "wire m" 69 trade nout ?p]
        execute_order_book [OF inv, of time ref 10 shares "wire m" 101 trade nout ?p]
      by (cases ty) (simp_all add: ExecuteOrder shares_ok_def parse_execute_order_def)
    moreover have "length sy = 10" if "chix_book el (field_val ref) = Some (price, s, sy)" for price s sy
      using inv that by (auto simp: chix_inv_def chix_book_def ran_def split: if_splits)
    ultimately show ?thesis
      using dispatch send_trade_answer [OF hdr nout]
      by (cases "chix_book el (field_val ref)") (auto simp: ExecuteOrder)
  qed
qed

lemma chix_inv_ctor: "chix_inv ChixTradeHandler_ctor" and chix_book_ctor: "chix_book ChixTradeHandler_ctor = Map.empty"
  by (simp_all add: chix_inv_def chix_book_def ChixTradeHandler_ctor_def hm_inv_ctor fun_eq_iff)

text \<open>What is true of the messages of a feed.\<close>

definition feed_ok :: "(byte list \<times> chix_msg) list \<Rightarrow> bool" where
  "feed_ok xs \<longleftrightarrow> list_all (\<lambda>(hdr, m). length hdr = 42 \<and> chix_ok m) xs"

lemma chix_run:
  assumes "feed_ok xs" and "0 < nout" and "chix_inv el"
  shows "sim (\<lambda>el b. chix_inv el \<and> chix_book el = b) (run_ops (chix_deliver nout) el xs) (run_ops book_op (chix_book el) xs)"
  using assms unfolding feed_ok_def
  by (intro run_ops_sim [where P = "\<lambda>(hdr, m). length hdr = 42 \<and> chix_ok m"])
    (auto simp: book_op_def dest: chix_step_sim)


section \<open>The life of an order\<close>

fun adds :: "nat \<Rightarrow> chix_msg \<Rightarrow> bool" where
  "adds r (AddOrder ty time ref side shares sy whole frac flag) \<longleftrightarrow> field_val ref = r"
| "adds r m \<longleftrightarrow> False"

text \<open>The shares that a message takes from an order.\<close>

fun taken :: "nat \<Rightarrow> chix_msg \<Rightarrow> nat" where
  "taken r (CancelOrder ty time ref shares) = (if field_val ref = r then field_val shares else 0)"
| "taken r (ExecuteOrder ty time ref shares trade) = (if field_val ref = r then field_val shares else 0)"
| "taken r m = 0"

lemma book_step_other:
  assumes "\<not> adds r m"
  shows "b r = None \<Longrightarrow> book_step b m r = None"
    and "b r = Some (price, s, sy) \<Longrightarrow> 0 < s \<Longrightarrow>
      book_step b m r = (if s \<le> taken r m then None else Some (price, s - taken r m, sy))"
  using assms by (cases m; auto simp: book_reduce_def split: option.splits)+

lemma book_gone: "b r = None \<Longrightarrow> list_all (\<lambda>m. \<not> adds r m) ms \<Longrightarrow> foldl book_step b ms r = None"
proof (induction ms arbitrary: b)
  case (Cons m ms)
  then have "book_step b m r = None" by (simp add: book_step_other(1))
  with Cons show ?case by simp
qed simp

lemma book_lifetime:
  assumes "b r = Some (price, s, sy)" and "0 < s" and "list_all (\<lambda>m. \<not> adds r m) ms"
  shows "foldl book_step b ms r =
    (if s \<le> sum_list (map (taken r) ms) then None else Some (price, s - sum_list (map (taken r) ms), sy))"
  using assms
proof (induction ms arbitrary: b s)
  case (Cons m ms)
  have step: "book_step b m r = (if s \<le> taken r m then None else Some (price, s - taken r m, sy))"
    using Cons.prems by (simp add: book_step_other(2))
  show ?case
  proof (cases "s \<le> taken r m")
    case True
    then show ?thesis using step Cons.prems book_gone [of "book_step b m" r ms] by simp
  next
    case False
    then show ?thesis using step Cons.prems Cons.IH [of "book_step b m" "s - taken r m"] by auto
  qed
qed simp

lemma run_book: "run_ops book_op b xs = Inr (map (\<lambda>k. book_answer (foldl book_step b (map snd (take k xs))) (xs ! k)) [0..<length xs],
    foldl book_step b (map snd xs))"
proof (induction xs arbitrary: b)
  case (Cons x xs)
  then show ?case
    by (simp add: book_op_def upt_conv_Cons map_Suc_upt [symmetric] del: upt_Suc)
qed simp

lemma chix_final:
  assumes "feed_ok xs" and "0 < nout"
  shows "\<exists>outs el. run_ops (chix_deliver nout) ChixTradeHandler_ctor xs = Inr (outs, el) \<and> chix_inv el \<and>
    chix_book el = foldl book_step Map.empty (map snd xs)"
  using chix_run [OF assms chix_inv_ctor] unfolding run_book by (auto simp: chix_book_ctor)

lemma eliminate_blank:
  "k \<le> n \<Longrightarrow> eliminate_leading_whitespaces (pre @ replicate k 32) (length pre) n = Inl OutOfBounds"
proof (induction k arbitrary: pre n)
  case 0
  then show ?case by (subst eliminate_leading_whitespaces.simps) (simp add: arr_get_def)
next
  case (Suc k)
  with Suc.IH [of "n - 1" "pre @ [32]"] show ?case
    by (subst eliminate_leading_whitespaces.simps) (simp add: nth_append)
qed


section \<open>Properties\<close>

text \<open>
  Property C16. The handler keeps the order book of the exchange. Over any feed of well-formed messages, short
  and long, with fewer than \<open>2 ^ 31\<close> shares each, it never fails; its map is at every point the book of the open orders, where an add enters or replaces the order
  of its reference number and a cancel or an execution takes shares from it and removes it when none are
  left; and its output is one trade for each execution of an open order, with symbol and price of the
  order, number of shares and time of the execution, while every other packet is killed. The price of an order is the
  one the code reads: its decimals count as ten-thousandths in both formats, and numbers too large for their type wrap around.
\<close>

theorem chix_refines_order_book:
  assumes "feed_ok xs" and "0 < nout"
  shows "map_sum id (map_prod id chix_book) (run_ops (chix_deliver nout) ChixTradeHandler_ctor xs) = run_ops book_op Map.empty xs"
  using chix_run [OF assms chix_inv_ctor] unfolding run_book chix_book_ctor by auto

definition field_of :: "nat \<Rightarrow> byte list \<Rightarrow> byte list" where
  "field_of n ds = replicate (n - length ds) 32 @ ds"

definition sample_feed :: "(byte list \<times> chix_msg) list" where
  "sample_feed =
     [(replicate 42 0, AddOrder SHORT (field_of 8 [57]) (field_of 9 [55]) 66 (field_of 6 [49, 48, 48]) [65, 66, 67, 32, 32, 32]
         (field_of 6 [49, 50]) [53, 48, 48, 48] 89),
      (replicate 42 0, ExecuteOrder SHORT (field_of 8 [57, 57]) (field_of 9 [55]) (field_of 6 [52, 48]) (field_of 9 [49]))]"

lemma dropWhile_spaces: "dropWhile ((=) 32) (replicate k 32 @ cs) = dropWhile ((=) 32) (cs :: byte list)"
  by (induction k) simp_all

lemma book_symbol_sample: "book_symbol [65, 66, 67, 32, 32, 32] = [65, 66, 67] @ replicate 7 0"
  by code_simp

lemmas sample_feed_simps = book_symbol_sample dropWhile_spaces sample_feed_def field_of_def feed_ok_def numeric_field_def shares_ok_def field_val_def
  digits_val_def is_digit_def

theorem chix_refines_order_book_witness:
  "\<exists>outs el. run_ops (chix_deliver 1) ChixTradeHandler_ctor sample_feed = Inr (outs, el) \<and> length outs = 2 \<and>
     chix_book el 7 = Some (25 * 2 ^ 39, 60, [65, 66, 67] @ replicate 7 0)"
proof -
  have "feed_ok sample_feed" by (simp add: sample_feed_simps)
  from chix_refines_order_book [OF this, of 1]
  obtain outs el where run: "run_ops (chix_deliver 1) ChixTradeHandler_ctor sample_feed = Inr (outs, el)" "length outs = 2"
    "chix_book el = foldl book_step Map.empty (map snd sample_feed)"
    unfolding run_book by (cases "run_ops (chix_deliver 1) ChixTradeHandler_ctor sample_feed") (auto simp: sample_feed_def)
  moreover have "foldl book_step Map.empty (map snd sample_feed) 7 = Some (25 * 2 ^ 39, 60, [65, 66, 67] @ replicate 7 0)"
    by (simp add: sample_feed_simps book_reduce_def price_raw_small)
  ultimately show ?thesis by auto
qed

text \<open>
  Property C17. No share is lost or counted twice. In a feed of well-formed messages with fewer than \<open>2 ^ 31\<close> shares each, an order
  entered with a positive number of shares, whose reference number no later add uses again, stays on the book with
  its price and symbol until the shares that later cancels and executions of its reference number take
  away reach that number, and its open shares are the difference; after that it is not on the book.
\<close>

theorem order_lifetime:
  assumes "feed_ok (pre @ (hdr, AddOrder ty time ref side shares sy whole frac flag) # post)" and "0 < nout"
    and "0 < field_val shares" and "list_all (\<lambda>x. \<not> adds (field_val ref) (snd x)) post"
  shows "\<exists>outs el. run_ops (chix_deliver nout) ChixTradeHandler_ctor
        (pre @ (hdr, AddOrder ty time ref side shares sy whole frac flag) # post) = Inr (outs, el) \<and>
      chix_book el (field_val ref) =
        (let gone = sum_list (map (taken (field_val ref) \<circ> snd) post)
         in if field_val shares \<le> gone then None
            else Some (price_raw whole frac, field_val shares - gone, book_symbol sy))"
proof -
  let ?add = "AddOrder ty time ref side shares sy whole frac flag"
  define b where "b = foldl book_step Map.empty (map snd pre)"
  have "list_all (\<lambda>m. \<not> adds (field_val ref) m) (map snd post)" using assms(4) by (simp add: list_all_iff)
  from book_lifetime [OF _ assms(3) this, of "book_step b ?add" "price_raw whole frac" "book_symbol sy"]
  have "foldl book_step Map.empty (map snd (pre @ (hdr, ?add) # post)) (field_val ref) =
      (let gone = sum_list (map (taken (field_val ref) \<circ> snd) post)
       in if field_val shares \<le> gone then None else Some (price_raw whole frac, field_val shares - gone, book_symbol sy))"
    by (simp add: b_def Let_def)
  then show ?thesis
    using chix_final [OF assms(1,2)] by auto
qed

theorem order_lifetime_witness:
  "\<exists>outs el. run_ops (chix_deliver 1) ChixTradeHandler_ctor (sample_feed @ [sample_feed ! 1]) = Inr (outs, el) \<and>
     chix_book el 7 = Some (25 * 2 ^ 39, 20, [65, 66, 67] @ replicate 7 0)"
proof -
  have "feed_ok (sample_feed @ [sample_feed ! 1])" by (simp add: sample_feed_simps)
  then show ?thesis
    using order_lifetime [of "[]" "replicate 42 0" SHORT "field_of 8 [57]" "field_of 9 [55]" 66 "field_of 6 [49, 48, 48]"
        "[65, 66, 67, 32, 32, 32]" "field_of 6 [49, 50]" "[53, 48, 48, 48]" 89 "[sample_feed ! 1, sample_feed ! 1]" 1]
    by (simp add: sample_feed_simps price_raw_small)
qed

text \<open>
  Property C39. A blank field at the end of a packet is read past its end. The loop that skips spaces reads a byte before it checks how
  many are left, so a cancel of an open order whose number of shares is left blank makes the handler read
  outside the packet.
\<close>

theorem blank_shares_are_overread:
  assumes "feed_ok xs" and "0 < nout" and "foldl book_step Map.empty (map snd xs) (field_val ref) \<noteq> None"
    and "length hdr = 42" and "length time = 8" and "numeric_field 9 ref"
  shows "run_ops (chix_deliver nout) ChixTradeHandler_ctor (xs @ [(hdr, CancelOrder SHORT time ref (replicate 6 32))]) = Inl OutOfBounds"
proof -
  obtain outs el where run: "run_ops (chix_deliver nout) ChixTradeHandler_ctor xs = Inr (outs, el)" "chix_inv el"
    "chix_book el = foldl book_step Map.empty (map snd xs)"
    using chix_final [OF assms(1,2)] by blast
  let ?m = "CancelOrder SHORT time ref (replicate 6 32)"
  have "length ref = 9" using assms(6) by (simp add: numeric_field_def)
  then have "parse_numeric 18 6 (wire ?m) = Inl OutOfBounds"
    using eliminate_blank [of 6 6 "time @ 88 # ref"] assms(5) by (simp add: parse_numeric_def del: replicate.simps)
  moreover obtain info where "hm_abs (cx_orderMap el) (word_of_nat (field_val ref)) = Some info"
    using order_found(3) [OF run(2) assms(5,6)] run(3) assms(3) by (auto simp: map_option_case split: option.splits)
  moreover have "wire ?m = time @ 88 # ref @ replicate 6 32" by simp
  ultimately have "parse_cancel_order (wire ?m) SHORT el = Inl OutOfBounds"
    using order_found(1,2) [OF run(2) assms(5,6), of "wire ?m" 88 "replicate 6 32"]
    by (simp add: parse_cancel_order_def do_parse_cancel_order_def Let_def del: wire.simps replicate.simps)
  then have "chix_deliver nout el (hdr, ?m) = Inl OutOfBounds"
    using push_dispatch [OF run(2) assms(4), of ?m nout] assms(5) \<open>length ref = 9\<close> by (simp add: keep_packet_def del: wire.simps)
  with run(1) show ?thesis by (simp add: run_ops_append)
qed

theorem blank_shares_are_overread_witness:
  "run_ops (chix_deliver 1) ChixTradeHandler_ctor
     (sample_feed @ [(replicate 42 0, CancelOrder SHORT (field_of 8 [57]) (field_of 9 [55]) (replicate 6 32))]) = Inl OutOfBounds"
  using blank_shares_are_overread [of sample_feed 1 "field_of 9 [55]" "replicate 42 0" "field_of 8 [57]"]
  by (simp add: sample_feed_simps book_reduce_def)

text \<open>
  Property C40. Prices of long add messages are wrong. The price of a long message has seven decimals, and
  the code divides them by ten thousand as it does with the four decimals of a short message: for a price below \<open>2 ^ 22\<close> whose decimals
  are not all zero, the price on the book is above the price in the message if the decimals,
  read as a number, are less than \<open>2 ^ 23\<close>, and below it if they are not, since they then overflow.
\<close>

theorem long_prices_are_wrong:
  assumes "feed_ok [(hdr, AddOrder LONG time ref side shares sy whole frac flag)]" and "0 < nout" and "field_val frac \<noteq> 0"
    and "field_val whole < 2 ^ 22"
  shows "\<exists>outs el price s. run_ops (chix_deliver nout) ChixTradeHandler_ctor [(hdr, AddOrder LONG time ref side shares sy whole frac flag)] = Inr (outs, el) \<and>
    chix_book el (field_val ref) = Some (price, s, book_symbol sy) \<and>
    (if field_val frac < 2 ^ 23 then (int (field_val whole) * 10 ^ 7 + int (field_val frac)) * 2 ^ 40 div 10 ^ 7 < price
     else price < (int (field_val whole) * 10 ^ 7 + int (field_val frac)) * 2 ^ 40 div 10 ^ 7)"
proof -
  define w x where "w = int (field_val whole) * 2 ^ 40" and "x = int (field_val frac) * 2 ^ 40"
  define E where "E = (int (field_val whole) * 10 ^ 7 + int (field_val frac)) * 2 ^ 40 div 10 ^ 7"
  have "E = w + x div 10 ^ 7"
    by (simp add: E_def w_def x_def distrib_right mult.assoc mult.left_commute [of _ "10 ^ 7"])
  moreover have "x div 10 ^ 7 = x div 10000 div 1000"
    by (simp add: zdiv_zmult2_eq [symmetric])
  moreover have "1 * 2 ^ 40 div 10000 \<le> x div 10000"
    unfolding x_def using assms(3) by (intro zdiv_mono1 mult_right_mono) simp_all
  ultimately have E: "w \<le> E" "E < w + x div 10000" by simp_all
  have seven: "field_val frac < 10 ^ 7" using assms(1) field_val_bound [of 7 frac] by (simp add: feed_ok_def)
  have "if field_val frac < 2 ^ 23 then E < price_raw whole frac else price_raw whole frac < E"
  proof (cases "field_val frac < 2 ^ 23")
    case True
    with E(2) show ?thesis by (simp only: price_raw_small [OF assms(4) True] w_def x_def if_True)
  next
    case False
    then have "2 ^ 23 \<le> field_val frac" by (rule leI)
    from less_le_trans [OF price_raw_wrapped [OF assms(4) this seven] E(1) [unfolded w_def]] False
    show ?thesis by (simp only: if_False)
  qed
  then show ?thesis
    unfolding E_def using chix_final [OF assms(1,2)] by fastforce
qed

theorem long_prices_are_wrong_witness:
  "(\<exists>outs el price s. run_ops (chix_deliver 1) ChixTradeHandler_ctor
      [(replicate 42 0, AddOrder LONG (field_of 8 [57]) (field_of 9 [55]) 66 (field_of 10 [49]) [65, 66, 67, 32, 32, 32]
         (field_of 12 [49, 50]) [53, 48, 48, 48, 48, 48, 48] 89)] = Inr (outs, el) \<and>
    chix_book el 7 = Some (price, s, [65, 66, 67] @ replicate 7 0) \<and> 25 * 2 ^ 39 < price) \<and>
   (\<exists>outs el price s. run_ops (chix_deliver 1) ChixTradeHandler_ctor
      [(replicate 42 0, AddOrder LONG (field_of 8 [57]) (field_of 9 [55]) 66 (field_of 10 [49]) [65, 66, 67, 32, 32, 32]
         (field_of 12 [49, 50]) [57, 48, 48, 48, 48, 48, 48] 89)] = Inr (outs, el) \<and>
    chix_book el 7 = Some (price, s, [65, 66, 67] @ replicate 7 0) \<and> price < 129 * 2 ^ 40 div 10)"
  using long_prices_are_wrong [of "replicate 42 0" "field_of 8 [57]" "field_of 9 [55]" 66 "field_of 10 [49]" "[65, 66, 67, 32, 32, 32]"
      "field_of 12 [49, 50]" "[53, 48, 48, 48, 48, 48, 48]" 89 1]
    long_prices_are_wrong [of "replicate 42 0" "field_of 8 [57]" "field_of 9 [55]" 66 "field_of 10 [49]" "[65, 66, 67, 32, 32, 32]"
      "field_of 12 [49, 50]" "[57, 48, 48, 48, 48, 48, 48]" 89 1]
  by (simp add: sample_feed_simps)

end
