(* ===== verification/Spec2Isabelle.thy ===== *)
theory Spec2Isabelle
  imports Whole_Program Router_Safety Symbol_Elements Chix_Handler
begin

text \<open>
  Synapse computes technical indicators (directional movement, vortex, TRIX, advance/decline line) on streams of
  trades, in two programs that are compared with each other. The first is a set of elements for the Click
  modular router (src/click-2.0.1/elements/standard, with its support classes in include/click and lib),
  put together by the configurations in src/indicator_configs. The second is a hand-coded program in src/hand_coded.
  This development models both, from the datagram to the indicator value, and proves what each part promises, that
  the two programs agree, and where the code does something else than it means to.

  \<^bold>\<open>The Click program.\<close> A packet with a trade enters \<open>TradeProcessor\<close>, which parses it, keeps high, low, open and close of
  every symbol, and sends a source message on the output the symbol is routed to: the first trade of a symbol makes an
  initial message, a trade that changes a price an update, and the timer at the end of an interval an addition. \<open>Timestamper\<close> stamps
  updates, \<open>SourceSplit\<close> makes one value message per price of a source message, tees copy these, and the
  indicator elements each collect one value per input port and send one value on. Updates are provisional and replaced by the next message,
  additions stay. \<open>StatPrinter\<close> at the end measures the delay. Other elements work on trades directly and keep
  their state per symbol, and \<open>ChixTradeHandler\<close> makes trades from the order feed of an exchange.

  \<^bold>\<open>The hand-coded program.\<close> Two callbacks of an event loop, one for datagrams and one for the timer, update the same statistics and
  call indicator objects directly; the values of updates are logged and printed at the end.

  \<^bold>\<open>Conventions.\<close> A C++ object is a record, a method a function from the record and its arguments to the result and the
  changed record. What ends the program (a failed assertion, a division by zero, an access outside an
  array or a packet) is a \<open>fault\<close>, the left case of the type \<open>res\<close>. Prices are 64-bit words in the 24.40 fixed-point
  format, time stamps and counters words of their width; sizes and indices are naturals, and every array access is
  checked. Packets are values with their bytes and their application type; the packed message structures
  are read and written field by field, at the place the compiler gives them. Readings of the cycle counter, what memory holds
  before it is written, and the arguments that Click has parsed from a configuration are arguments. Output for debugging is left out.

  \<^bold>\<open>The theories\<close>, in the order in which they build on each other:

  \<^item> \<open>Synapse_Prelude\<close>: faults and results, running a sequence of operations, simulation of one run by another.
  \<^item> \<open>Fixed_Point\<close> (fixedptc.h, fixedpt_cpp.h, fixedpt_cpp.cc): arithmetic, conversion to text, roots, exponentials and logarithms.
    Multiplication is exact up to one unit; the square root is wrong in this configuration.
  \<^item> \<open>Circ_Array\<close> (circ_array.hpp): the ring buffer refines a bounded list, under any sequence of operations. The
    contract its clients rely on is the locale \<open>bounded_deque\<close>.
  \<^item> \<open>Packets\<close> (appmsgs.hh, packet.hh, synapseelement.hh): messages, packets and what an element does with one.
  \<^item> \<open>Port_Buffers\<close> (buffers.hh, buffers.cc): one ring buffer per port; complete rounds, provisional updates.
  \<^item> \<open>Indicator_Base\<close>, \<open>Indicator_Elements\<close>, \<open>Indicator_Results\<close> (indicator_base.cc and sum, ewma_incremental, trix, pdm, ndm, pdi,
    ndi, dx, new_true_range, vmu, vmd, viu, vid): the base class and the elements derived from it. The locales \<open>incremental_step\<close> and \<open>incremental_indicator\<close>
    state what an element has to provide so that its naive mode and its incremental mode send the same packets;
    every element is an interpretation, some through \<open>memoryless_pair\<close> and \<open>previous_round\<close>.
  \<^item> \<open>Hash_Map\<close> (hashmap.hh, hashmap.cc, array_wrapper.hh): the chained hash table refines a finite map for keys with a
    lawful hash function (locale \<open>hash_key\<close>), which symbols in canonical form and order numbers have.
  \<^item> \<open>Trade_Parsing\<close>, \<open>Trade_Processor\<close> (trade_processor.cc): parsing of trades, statistics, routing and the timer.
  \<^item> \<open>Stream_Elements\<close> (source_split.cc, reuse_tee.cc, unique_tee.cc, timestamper.cc, msg_filter_symbol.cc) and
    \<open>Measurements\<close> (running_stat.cc, cycles_counter.cc, stat_printer.cc).
  \<^item> \<open>Symbol_Elements\<close> (ewma_calculator.cc, directional_movement.cc, true_range.cc, directional_index.cc, dx_indicator.cc): the
    per-symbol tables (locale \<open>per_symbol\<close>) give answers that depend on the messages of the same symbol only; the joining elements (locale \<open>join_element\<close>)
    pair packets by time stamp.
  \<^item> \<open>Chix_Handler\<close> (chix_trade_handler.cc, .hh, chix_trade_handler_utils.hh): the order map refines an order book.
  \<^item> \<open>Hc_Indicators\<close>, \<open>Hc_Dmi\<close>, \<open>Hc_Engine\<close>, \<open>Hc_Results\<close> (src/hand_coded): the indicator objects, the manager, the callbacks
    and the states they reach.
  \<^item> \<open>Element_Steps\<close>, \<open>Click_Graph\<close>: single elements against the hand-coded objects, and the graphs of dmi_opt.click, vortex_opt.click and
    trix_opt.click with the router that moves packets through them (element.hh).
  \<^item> \<open>Graph_Results\<close>, \<open>Graph_Dmi\<close>, \<open>Graph_Vortex\<close>: each graph computes what the hand-coded object computes.
  \<^item> \<open>Router_Safety\<close>: from any state and with any packets waiting the router comes to an end (locale \<open>forward_graph\<close>), and every element gets packets
    of the kind it expects (locale \<open>typed_graph\<close>).
  \<^item> \<open>Whole_Program\<close>: both programs on the same datagrams and timer events. The locale \<open>only_indicator\<close> says how a manager drives
    its indicator; the values printed by the hand-coded program are those at the end of the Click graph.

  \<^bold>\<open>Bounds.\<close> There is no fuel: loops are recursive functions with a termination proof, except for the router, a
  partial function that returns None if it does not end, which \<open>Router_Safety\<close> excludes for the three graphs. The graph
  theorems are about messages with fewer than 200 trailing bytes, because \<open>ReuseTee\<close> asserts that a packet has fewer than 256,
  and time stamps that increase from above 0, because the buffers take an older message for one of the current round. The comparison of
  the two programs is about datagrams that fit the 512-byte receive buffer of the hand-coded one, and in \<open>Whole_Program\<close> about texts of fewer than 198
  bytes. Ring buffers have fewer than \<open>2 ^ 31\<close> elements, as their loops count in \<open>int\<close>. Orders of the Chi-X feed have fewer than \<open>2 ^ 31\<close> shares; their prices
  are covered with the wrap-around of the code.

  \<^bold>\<open>Not modelled.\<close> The elements with IEEE doubles (trade_aggregator.cc, aroon_indicator.cc, aroon_print.cc, SynapseEWMA.cc) and the printing
  element msg_printer.cc, none of which a configuration uses; the message-queue element shmqueue.cc and the kernel modules, which only call the kernel;
  the tools around sockets and files; Click itself (drivers, scheduling of tasks and timers, configuration parsing, memory
  pools and the reference counts of packets, which are taken to be unshared when an element writes to them); the event loop, socket calls
  other than \<open>recvfrom\<close>, and the tracing class of the hand-coded program, which is not in the repository. The configurations
  with the suffixes naive and tee are variants of the three graphs with another mode or without the stamping element; the
  elements are covered in both modes, the variant graphs are not.
\<close>

end
